(* ===== verification/Prelude.thy ===== *)
theory Prelude
  imports Main "HOL-Library.Word" "HOL-Library.Monad_Syntax" "HOL-Library.Product_Lexorder"
begin

text \<open>
  Shared vocabulary of the development.

  The C++ code fails in three ways: an \<open>assert\<close>, an access outside a container
  (\<open>operator[]\<close> past the end, \<open>back()\<close> or \<open>top()\<close> of an empty container, a
  null pointer), and a recursion that never returns. All three are the value \<open>None\<close> of an
  \<open>option\<close>; a step that succeeds is \<open>Some\<close> of its result, and steps are sequenced
  with the library's \<open>do\<close> notation.

  The theory holds the machine integer types, the checked container accesses, the fallible loop
  over a vector (\<open>fold_opt\<close>) and the interface of a loop body that keeps an invariant.
\<close>

section \<open>Machine integers\<close>

type_synonym u8 = "8 word"
type_synonym u32 = "32 word"
type_synonym u64 = "64 word"
type_synonym i32 = "32 word" \<comment> \<open>read by \<open>sint\<close>\<close>

type_synonym bytes = "u8 list"

section \<open>Collections of facts\<close>

named_theorems st_simps \<open>segment tree: unfolding facts\<close>
named_theorems fail_simps \<open>when a fallible step succeeds\<close>

section \<open>Checked accesses\<close>

definition at :: "'a list \<Rightarrow> nat \<Rightarrow> 'a option" where
  "at xs i = (if i < length xs then Some (xs ! i) else None)"

definition require :: "bool \<Rightarrow> unit option" where
  "require b = (if b then Some () else None)"

lemma at_Some [fail_simps]: "at xs i = Some x \<longleftrightarrow> i < length xs \<and> xs ! i = x"
  by (simp add: at_def)

lemma at_None: "at xs i = None \<longleftrightarrow> length xs \<le> i"
  by (simp add: at_def)

lemma require_Some [fail_simps]: "require b = Some u \<longleftrightarrow> b"
  by (simp add: require_def)

lemma bind_Some_iff [fail_simps]:
  "Option.bind m f = Some y \<longleftrightarrow> (\<exists>x. m = Some x \<and> f x = Some y)"
  by (cases m) auto

lemma bind_SomeE:
  "Option.bind m f = Some y \<Longrightarrow> (\<And>x. m = Some x \<Longrightarrow> f x = Some y \<Longrightarrow> thesis) \<Longrightarrow> thesis"
  by (cases m) auto

section \<open>A loop over a vector whose body can fail\<close>

fun fold_opt :: "('e \<Rightarrow> 's \<Rightarrow> 's option) \<Rightarrow> 'e list \<Rightarrow> 's \<Rightarrow> 's option" where
  "fold_opt f [] s = Some s"
| "fold_opt f (x # xs) s = Option.bind (f x s) (fold_opt f xs)"

lemma fold_opt_append:
  "fold_opt f (xs @ ys) s = Option.bind (fold_opt f xs s) (fold_opt f ys)"
  by (induction xs arbitrary: s) (auto split: Option.bind_split)

lemma fold_opt_None: "x \<in> set xs \<Longrightarrow> (\<And>s. f x s = None) \<Longrightarrow> fold_opt f xs s = None"
  by (induction xs arbitrary: s) (auto split: Option.bind_split)

text \<open>
  The interface of a loop body: \<open>inv\<close> is kept by every successful step, and what the body
  promises of one step (\<open>rel\<close>, reflexive and transitive) holds of the whole loop.
\<close>

locale loop_body =
  fixes step :: "'e \<Rightarrow> 's \<Rightarrow> 's option"
    and inv :: "'s \<Rightarrow> bool"
    and rel :: "'s \<Rightarrow> 's \<Rightarrow> bool"
  assumes step_inv: "inv s \<Longrightarrow> step e s = Some s' \<Longrightarrow> inv s'"
    and step_rel: "inv s \<Longrightarrow> step e s = Some s' \<Longrightarrow> rel s s'"
    and rel_refl: "rel s s"
    and rel_trans: "rel s t \<Longrightarrow> rel t u \<Longrightarrow> rel s u"
begin

lemma loop_inv: "inv s \<Longrightarrow> fold_opt step es s = Some s' \<Longrightarrow> inv s'"
proof (induction es arbitrary: s)
  case (Cons e es)
  then show ?case by (auto simp: fail_simps dest: step_inv)
qed simp

lemma loop_rel: "inv s \<Longrightarrow> fold_opt step es s = Some s' \<Longrightarrow> rel s s'"
proof (induction es arbitrary: s)
  case (Cons e es)
  then obtain t where t: "step e s = Some t" "fold_opt step es t = Some s'"
    by (auto simp: fail_simps)
  with Cons show ?case
    by (meson rel_trans step_inv step_rel)
qed (simp add: rel_refl)

end

text \<open>
  A body that implements another: every successful step is one of the specification, and \<open>R\<close> holds
  again; then a successful loop is a loop of the specification.
\<close>

locale simulation =
  fixes conc :: "'e \<Rightarrow> 's \<Rightarrow> 's option"
    and spec :: "'e \<Rightarrow> 'a \<Rightarrow> 'a option"
    and R :: "'a \<Rightarrow> 's \<Rightarrow> bool"
  assumes sim: "R a s \<Longrightarrow> conc e s = Some s' \<Longrightarrow> \<exists>a'. spec e a = Some a' \<and> R a' s'"
begin

lemma loop_sim: "R a s \<Longrightarrow> fold_opt conc es s = Some s' \<Longrightarrow> \<exists>a'. fold_opt spec es a = Some a' \<and> R a' s'"
proof (induction es arbitrary: a s)
  case (Cons e es)
  then obtain t where t: "conc e s = Some t" "fold_opt conc es t = Some s'"
    by (auto simp: fail_simps)
  with sim [OF Cons.prems(1) t(1)] Cons.IH show ?case by (auto simp: fail_simps)
qed simp

end

text \<open>
  A loop over interleaved events. \<open>same s u\<close>: the two states agree on the part that belongs to one
  of the parties. Its own events act the same on both, the others' events leave its part alone; then
  the whole loop does to that part what the loop over its own events does.
\<close>

locale projected_loop =
  fixes step :: "'e \<Rightarrow> 's \<Rightarrow> 's option"
    and mine :: "'e \<Rightarrow> bool"
    and same :: "'s \<Rightarrow> 's \<Rightarrow> bool"
  assumes own: "same s u \<Longrightarrow> mine e \<Longrightarrow> rel_option same (step e s) (step e u)"
    and other: "same s u \<Longrightarrow> \<not> mine e \<Longrightarrow> step e s = Some s' \<Longrightarrow> same s' u"
begin

lemma loop_project:
  "same s u \<Longrightarrow> fold_opt step es s = Some s' \<Longrightarrow>
   \<exists>u'. fold_opt step (filter mine es) u = Some u' \<and> same s' u'"
proof (induction es arbitrary: s u)
  case (Cons e es)
  then obtain t where t: "step e s = Some t" "fold_opt step es t = Some s'"
    by (auto simp: fail_simps)
  show ?case
  proof (cases "mine e")
    case True
    then obtain u1 where "step e u = Some u1" "same t u1"
      using own [OF Cons.prems(1) True] t(1) by (auto simp: option_rel_Some1)
    with Cons.IH t(2) True show ?thesis by auto
  next
    case False
    with Cons.IH [OF other [OF Cons.prems(1) False t(1)] t(2)] show ?thesis by simp
  qed
qed simp

end

lemma rel_option_bind:
  "rel_option R m n \<Longrightarrow> (\<And>x y. R x y \<Longrightarrow> rel_option S (f x) (g y)) \<Longrightarrow>
   rel_option S (Option.bind m f) (Option.bind n g)"
  by (cases m; cases n) auto

lemma rel_option_same: "(\<And>x. m = Some x \<Longrightarrow> rel_option S (f x) (g x)) \<Longrightarrow>
   rel_option S (Option.bind m f) (Option.bind m g)"
  by (cases m) auto

end
