(* ===== verification/Tools.thy ===== *)
theory Tools
  imports Prelude
begin

text \<open>
  The data the analyses share: the static description of an instruction (\<open>InstInfo\<close> of
  \<open>include/SlimmerUtil.h\<close>), one execution of an instruction (\<open>DynamicInst\<close>), a part of a basic
  block that always executes without interruption (\<open>SmallestBlock\<close> of
  \<open>include/SlimmerTools.h\<close>), and the two global tables \<open>Ins\<close> and \<open>BB2Ins\<close>. Instruction and basic
  block numbers are 32-bit words, addresses and thread numbers 64-bit words; a counter
  \<open>Cnt\<close> is a 32-bit word read as signed.
\<close>

section \<open>Instruction information\<close>

datatype dep_type = Inst | Arg | PointerArg | Constant

datatype inst_type =
    NormalInst | LoadInst | StoreInst | CallInst | ExternalCallInst | ReturnInst
  | TerminatorInst | PhiNode | VarArg | AtomicInst | AllocaInst

record inst_info =
  ii_ID :: u32
  ii_BB :: u32
  IsPointer :: bool
  LoC :: int
  File :: string
  ii_Code :: string
  SSADependencies :: "(dep_type \<times> u32) list"
  ii_Type :: inst_type
  ii_Fun :: string
  Successors :: "u32 list"
  PhiDependencies :: "(u32 \<times> dep_type \<times> u32) list"

text \<open>The globals \<open>Ins\<close> and \<open>BB2Ins\<close>, read-only once loaded.\<close>

record code_info =
  Ins :: "inst_info list"
  BB2Ins :: "u32 list list"

text \<open>\<open>Ins[id]\<close>, \<open>BB2Ins[bb]\<close> and \<open>BB2Ins[bb][i]\<close>.\<close>

definition ins_at :: "code_info \<Rightarrow> u32 \<Rightarrow> inst_info option" where
  "ins_at C i = at (Ins C) (unat i)"

definition bb_at :: "code_info \<Rightarrow> u32 \<Rightarrow> u32 list option" where
  "bb_at C b = at (BB2Ins C) (unat b)"

definition bb_ins :: "code_info \<Rightarrow> u32 \<Rightarrow> u32 \<Rightarrow> u32 option" where
  "bb_ins C b i = do { is \<leftarrow> bb_at C b; at is (unat i) }"

text \<open>
  What holds of the tables of a compiled module: every instruction number listed for a basic block
  is one of the loaded instructions, a block has at least its terminator, and no block has as many
  as \<open>2^32 - 1\<close> instructions.
\<close>

definition code_ok :: "code_info \<Rightarrow> bool" where
  "code_ok C \<longleftrightarrow>
     list_all (\<lambda>is. is \<noteq> [] \<and> length is < 2 ^ 32 - 1 \<and> list_all (\<lambda>i. unat i < length (Ins C)) is) (BB2Ins C)"

lemma bb_ins_Some [fail_simps]:
  "bb_ins C b i = Some x \<longleftrightarrow>
     unat b < length (BB2Ins C) \<and> unat i < length (BB2Ins C ! unat b) \<and> BB2Ins C ! unat b ! unat i = x"
  by (auto simp: bb_ins_def bb_at_def fail_simps)

lemma ins_at_Some [fail_simps]:
  "ins_at C i = Some x \<longleftrightarrow> unat i < length (Ins C) \<and> Ins C ! unat i = x"
  by (simp add: ins_at_def fail_simps)

lemma bb_at_Some [fail_simps]:
  "bb_at C b = Some x \<longleftrightarrow> unat b < length (BB2Ins C) \<and> BB2Ins C ! unat b = x"
  by (simp add: bb_at_def fail_simps)

text \<open>\<open>isspace\<close> of the C locale.\<close>

definition isspace :: "char \<Rightarrow> bool" where
  "isspace c \<longleftrightarrow> c \<in> {CHR '' '', CHR 0x09, CHR 0x0A, CHR 0x0B, CHR 0x0C, CHR 0x0D}"

section \<open>Functions that always reach the outside\<close>

definition IsImpactfulFunction :: "string \<Rightarrow> bool" where
  "IsImpactfulFunction name \<longleftrightarrow>
     name = ''poll'' \<or> name = ''fcntl'' \<or> name = ''fclose'' \<or> name = ''write''
     \<or> name = ''getpid'' \<or> name = ''listen'' \<or> name = ''close'' \<or> name = ''fflush''
     \<or> name = ''signal'' \<or> name = ''fstate'' \<or> name = ''exit''
     \<or> take 8 name = ''pthread_''"

section \<open>Dynamic instructions\<close>

datatype dynamic_inst = DynamicInst (di_TID: u64) (di_ID: u32) (Cnt: i32)

text \<open>\<open>operator<\<close>: thread, then number, then count, the last two compared as \<open>int32_t\<close>.\<close>

definition DynamicInst_less :: "dynamic_inst \<Rightarrow> dynamic_inst \<Rightarrow> bool" where
  "DynamicInst_less a b \<longleftrightarrow>
     (if di_TID a \<noteq> di_TID b then di_TID a < di_TID b
      else if di_ID a \<noteq> di_ID b then sint (di_ID a) < sint (di_ID b)
      else sint (Cnt a) < sint (Cnt b))"

instantiation dynamic_inst :: linorder
begin

definition less_dynamic_inst :: "dynamic_inst \<Rightarrow> dynamic_inst \<Rightarrow> bool" where
  "less_dynamic_inst = DynamicInst_less"

definition less_eq_dynamic_inst :: "dynamic_inst \<Rightarrow> dynamic_inst \<Rightarrow> bool" where
  "less_eq_dynamic_inst a b \<longleftrightarrow> a = b \<or> a < (b::dynamic_inst)"

instance
proof
  fix x y z :: dynamic_inst
  show "(x < y) = (x \<le> y \<and> \<not> y \<le> x)"
    by (cases x; cases y) (auto simp: less_eq_dynamic_inst_def less_dynamic_inst_def DynamicInst_less_def)
  show "x \<le> x" by (simp add: less_eq_dynamic_inst_def)
  show "x \<le> y \<Longrightarrow> y \<le> z \<Longrightarrow> x \<le> z"
    by (cases x; cases y; cases z)
      (auto simp: less_eq_dynamic_inst_def less_dynamic_inst_def DynamicInst_less_def split: if_splits)
  show "x \<le> y \<Longrightarrow> y \<le> x \<Longrightarrow> x = y"
    by (cases x; cases y) (auto simp: less_eq_dynamic_inst_def less_dynamic_inst_def DynamicInst_less_def split: if_splits)
  show "x \<le> y \<or> y \<le> x"
    by (cases x; cases y)
      (auto simp: less_eq_dynamic_inst_def less_dynamic_inst_def DynamicInst_less_def not_less order_le_less
        dest: signed_word_eqI)
qed

end

section \<open>Smallest blocks\<close>

datatype block_type =
    NormalBlock | MemoryAccessBlock | ExternalCallBlock | ImpactfulCallBlock
  | MemsetBlock | MemmoveBlock | DeclareBlock

record smallest_block =
  sb_Type :: block_type
  sb_TID :: u64
  BBID :: u32
  Start :: u32
  End :: u32
  Addr :: "u64 list"
  IsFirst :: u8
  IsLast :: u8
  Caller :: u32
  LastBBID :: i32

definition SmallestBlock ::
  "block_type \<Rightarrow> u64 \<Rightarrow> u32 \<Rightarrow> u32 \<Rightarrow> u32 \<Rightarrow> u8 \<times> u32 \<Rightarrow> i32 \<Rightarrow> smallest_block" where
  "SmallestBlock t tid bb_id start stop first last_bb_id =
     \<lparr>sb_Type = t, sb_TID = tid, BBID = bb_id, Start = start, End = stop, Addr = [],
      IsFirst = fst first, IsLast = 0, Caller = snd first, LastBBID = last_bb_id\<rparr>"

text \<open>
  A declared range: the default constructor leaves every field but \<open>Type\<close> and \<open>Addr\<close> unset, and
  nothing reads them; they are zero here.
\<close>

definition DeclareOf :: "u64 \<Rightarrow> u64 \<Rightarrow> smallest_block" where
  "DeclareOf addr len =
     \<lparr>sb_Type = DeclareBlock, sb_TID = 0, BBID = 0, Start = 0, End = 0,
      Addr = [addr, addr + len], IsFirst = 0, IsLast = 0, Caller = 0, LastBBID = 0\<rparr>"

text \<open>The instruction an accessing block stands for: \<open>BB2Ins[b.BBID][b.Start]\<close>.\<close>

definition block_ins :: "code_info \<Rightarrow> smallest_block \<Rightarrow> u32 option" where
  "block_ins C b = bb_ins C (BBID b) (Start b)"

end
