(* ===== verification/TraceFormat.thy ===== *)
theory TraceFormat
  imports Prelude
begin

text \<open>
  The binary trace format: the labels and sizes of \<open>include/SlimmerUtil.h\<close>, the records the
  \<open>record...\<close> functions of \<open>lib/SlimmerRuntime/SlimmerRuntime.cpp\<close> write, and the decoder
  \<open>GetEvent\<close> of \<open>lib/SlimmerUtil/Routines.cpp\<close>, which leaves in its out-parameters pointers into
  the buffer (here offsets, \<open>None\<close> before the first write). An event carries its label at both
  ends, so it can be decoded forwards from its first byte and backwards from its last.
\<close>

section \<open>Little-endian fields\<close>

fun bytes_of :: "nat \<Rightarrow> nat \<Rightarrow> bytes" where
  "bytes_of 0 k = []"
| "bytes_of (Suc n) k = of_nat (k mod 256) # bytes_of n (k div 256)"

fun value_of :: "bytes \<Rightarrow> nat" where
  "value_of [] = 0"
| "value_of (b # bs) = unat b + 256 * value_of bs"

lemma length_bytes_of [simp]: "length (bytes_of n k) = n"
  by (induction n arbitrary: k) auto

lemma value_bytes_of: "value_of (bytes_of n k) = k mod 256 ^ n"
proof (induction n arbitrary: k)
  case (Suc n)
  have "unat (of_nat (k mod 256) :: u8) = k mod 256"
    by (simp add: unat_of_nat)
  then show ?case
    using Suc by (simp add: mod_mult2_eq)
qed simp

definition w64 :: "u64 \<Rightarrow> bytes" where "w64 x = bytes_of 8 (unat x)"
definition w32 :: "u32 \<Rightarrow> bytes" where "w32 x = bytes_of 4 (unat x)"

text \<open>\<open>*(uint64_t * )(buf + i)\<close> and \<open>*(uint32_t * )(buf + i)\<close>.\<close>

definition r64 :: "bytes \<Rightarrow> nat \<Rightarrow> u64 option" where
  "r64 buf i = (if i + 8 \<le> length buf then Some (of_nat (value_of (take 8 (drop i buf)))) else None)"

definition r32 :: "bytes \<Rightarrow> nat \<Rightarrow> u32 option" where
  "r32 buf i = (if i + 4 \<le> length buf then Some (of_nat (value_of (take 4 (drop i buf)))) else None)"

lemma length_w [simp]: "length (w64 x) = 8" "length (w32 y) = 4"
  by (simp_all add: w64_def w32_def)

lemma of_nat_value_w [simp]: "of_nat (value_of (w64 x)) = x" "of_nat (value_of (w32 y)) = y"
proof -
  have "unat x < 256 ^ 8" "unat y < 256 ^ 4"
    using unsigned_less [of x] unsigned_less [of y] by simp_all
  then show "of_nat (value_of (w64 x)) = x" "of_nat (value_of (w32 y)) = y"
    by (simp_all add: w64_def w32_def value_bytes_of)
qed

text \<open>Reading a field where it was written.\<close>

text \<open>For evaluation: a word read from little-endian bytes without a detour through the naturals.\<close>

fun word_of :: "bytes \<Rightarrow> 'a::len word" where
  "word_of [] = 0"
| "word_of (b # bs) = ucast b + 256 * word_of bs"

lemma of_nat_value_of: "of_nat (value_of bs) = (word_of bs :: 'a::len word)"
  by (induction bs) (simp_all add: unsigned_ucast_eq)

lemma r64_code [code]:
  "r64 buf i = (if i + 8 \<le> length buf then Some (word_of (take 8 (drop i buf))) else None)"
  by (simp add: r64_def of_nat_value_of)

lemma r64_at: "length pre = i \<Longrightarrow> r64 (pre @ w64 x @ post) i = Some x"
  by (auto simp: r64_def)

lemma r32_at: "length pre = i \<Longrightarrow> r32 (pre @ w32 x @ post) i = Some x"
  by (auto simp: r32_def)

section \<open>Labels and sizes\<close>

definition BasicBlockEventLabel :: u8 where "BasicBlockEventLabel = 0"
definition MemoryEventLabel :: u8 where "MemoryEventLabel = 1"
definition CallEventLabel :: u8 where "CallEventLabel = 2"
definition ReturnEventLabel :: u8 where "ReturnEventLabel = 3"
definition SyscallEventLabel :: u8 where "SyscallEventLabel = 4"
definition ArgumentEventLabel :: u8 where "ArgumentEventLabel = 5"
definition MemsetEventLabel :: u8 where "MemsetEventLabel = 6"
definition MemmoveEventLabel :: u8 where "MemmoveEventLabel = 7"
definition EndEventLabel :: u8 where "EndEventLabel = 125"
definition PlaceHolderLabel :: u8 where "PlaceHolderLabel = 126"

lemmas label_defs =
  BasicBlockEventLabel_def MemoryEventLabel_def CallEventLabel_def ReturnEventLabel_def
  SyscallEventLabel_def ArgumentEventLabel_def MemsetEventLabel_def MemmoveEventLabel_def
  EndEventLabel_def PlaceHolderLabel_def

definition SizeOfEventCommon :: nat where "SizeOfEventCommon = 2 + 8 + 4"
definition SizeOfBasicBlockEvent :: nat where "SizeOfBasicBlockEvent = SizeOfEventCommon"
definition SizeOfMemoryEvent :: nat where "SizeOfMemoryEvent = SizeOfEventCommon + 2 * 8"
definition SizeOfReturnEvent :: nat where "SizeOfReturnEvent = SizeOfEventCommon + 8"
definition SizeOfArgumentEvent :: nat where "SizeOfArgumentEvent = 2 + 8 + 8"
definition SizeOfMemsetEvent :: nat where "SizeOfMemsetEvent = SizeOfMemoryEvent"
definition SizeOfMemmoveEvent :: nat where "SizeOfMemmoveEvent = SizeOfEventCommon + 3 * 8"

lemmas size_defs =
  SizeOfEventCommon_def SizeOfBasicBlockEvent_def SizeOfMemoryEvent_def SizeOfReturnEvent_def
  SizeOfArgumentEvent_def SizeOfMemsetEvent_def SizeOfMemmoveEvent_def

section \<open>Events as written\<close>

datatype trace_event =
    BasicBlockEvent u64 u32
  | MemoryEvent u64 u32 u64 u64
  | ReturnEvent u64 u32 u64
  | ArgumentEvent u64 u64
  | MemsetEvent u64 u32 u64 u64
  | MemmoveEvent u64 u32 u64 u64 u64
  | EndEvent
  | PlaceHolder

fun label_of :: "trace_event \<Rightarrow> u8" where
  "label_of (BasicBlockEvent _ _) = BasicBlockEventLabel"
| "label_of (MemoryEvent _ _ _ _) = MemoryEventLabel"
| "label_of (ReturnEvent _ _ _) = ReturnEventLabel"
| "label_of (ArgumentEvent _ _) = ArgumentEventLabel"
| "label_of (MemsetEvent _ _ _ _) = MemsetEventLabel"
| "label_of (MemmoveEvent _ _ _ _ _) = MemmoveEventLabel"
| "label_of EndEvent = EndEventLabel"
| "label_of PlaceHolder = PlaceHolderLabel"

text \<open>The fields between the two labels, in the order of their offsets.\<close>

fun fields_of :: "trace_event \<Rightarrow> bytes" where
  "fields_of (BasicBlockEvent tid iid) = w64 tid @ w32 iid"
| "fields_of (MemoryEvent tid iid addr len) = w64 tid @ w32 iid @ w64 addr @ w64 len"
| "fields_of (ReturnEvent tid iid fn) = w64 tid @ w32 iid @ w64 fn"
| "fields_of (ArgumentEvent tid arg) = w64 tid @ w64 arg"
| "fields_of (MemsetEvent tid iid addr len) = w64 tid @ w32 iid @ w64 addr @ w64 len"
| "fields_of (MemmoveEvent tid iid dest src len) =
     w64 tid @ w32 iid @ w64 dest @ w64 src @ w64 len"
| "fields_of EndEvent = []"
| "fields_of PlaceHolder = []"

fun event_bytes :: "trace_event \<Rightarrow> bytes" where
  "event_bytes EndEvent = [EndEventLabel]"
| "event_bytes PlaceHolder = [PlaceHolderLabel]"
| "event_bytes e = label_of e # fields_of e @ [label_of e]"

fun event_size :: "trace_event \<Rightarrow> nat" where
  "event_size (BasicBlockEvent _ _) = SizeOfBasicBlockEvent"
| "event_size (MemoryEvent _ _ _ _) = SizeOfMemoryEvent"
| "event_size (ReturnEvent _ _ _) = SizeOfReturnEvent"
| "event_size (ArgumentEvent _ _) = SizeOfArgumentEvent"
| "event_size (MemsetEvent _ _ _ _) = SizeOfMemsetEvent"
| "event_size (MemmoveEvent _ _ _ _ _) = SizeOfMemmoveEvent"
| "event_size EndEvent = 1"
| "event_size PlaceHolder = 1"

lemma length_event_bytes: "length (event_bytes e) = event_size e"
  by (cases e) (simp_all add: size_defs)

section \<open>What the runtime records\<close>

text \<open>
  The program's memory at the time of the call, as bytes. The functions below give the event the
  \<open>record...\<close> function of the same name appends; \<open>tid\<close> is the thread's \<open>local_tid\<close>.
\<close>

type_synonym memory = "u64 \<Rightarrow> u8"

definition mem_bytes :: "memory \<Rightarrow> u64 \<Rightarrow> nat \<Rightarrow> bytes" where
  "mem_bytes m a n = map (\<lambda>i. m (a + of_nat i)) [0..<n]"

definition recordBasicBlockEvent :: "u64 \<Rightarrow> u32 \<Rightarrow> trace_event" where
  "recordBasicBlockEvent tid iid = BasicBlockEvent tid iid"

definition recordMemoryEvent :: "u64 \<Rightarrow> u32 \<Rightarrow> u64 \<Rightarrow> u64 \<Rightarrow> trace_event" where
  "recordMemoryEvent tid iid addr len = MemoryEvent tid iid addr len"

definition recordCallocEvent :: "u64 \<Rightarrow> u32 \<Rightarrow> u64 \<Rightarrow> u64 \<Rightarrow> u64 \<Rightarrow> trace_event" where
  "recordCallocEvent tid iid addr num len = MemoryEvent tid iid addr (num * len)"

text \<open>A store of the value that is there already gets length 0; the test reads eight bytes.\<close>

definition recordStoreEvent ::
  "memory \<Rightarrow> u64 \<Rightarrow> u32 \<Rightarrow> u64 \<Rightarrow> u64 \<Rightarrow> u64 \<Rightarrow> trace_event" where
  "recordStoreEvent m tid iid addr len value =
     MemoryEvent tid iid addr
       (if value \<noteq> 0 \<and> of_nat (value_of (mem_bytes m addr 8)) = value then 0 else len)"

definition recordReturnEvent :: "u64 \<Rightarrow> u32 \<Rightarrow> u64 \<Rightarrow> trace_event" where
  "recordReturnEvent tid iid fn = ReturnEvent tid iid fn"

definition recordArgumentEvent :: "u64 \<Rightarrow> u64 \<Rightarrow> trace_event" where
  "recordArgumentEvent tid arg = ArgumentEvent tid arg"

definition recordMemset :: "memory \<Rightarrow> u64 \<Rightarrow> u32 \<Rightarrow> u64 \<Rightarrow> u64 \<Rightarrow> u8 \<Rightarrow> trace_event" where
  "recordMemset m tid iid addr len value =
     MemsetEvent tid iid addr
       (if list_ex (\<lambda>b. b \<noteq> value) (mem_bytes m addr (unat len)) then len else 0)"

definition recordMemmove :: "memory \<Rightarrow> u64 \<Rightarrow> u32 \<Rightarrow> u64 \<Rightarrow> u64 \<Rightarrow> u64 \<Rightarrow> trace_event" where
  "recordMemmove m tid iid dest src len =
     MemmoveEvent tid iid dest src
       (if mem_bytes m dest (unat len) = mem_bytes m src (unat len) then 0 else len)"

section \<open>Decoding\<close>

text \<open>The out-parameters of \<open>GetEvent\<close> the caller keeps between calls, as offsets.\<close>

record event_ptrs =
  tid_ptr :: "nat option"
  id_ptr :: "nat option"
  addr_ptr :: "nat option"
  length_ptr :: "nat option"
  addr2_ptr :: "nat option"

definition no_ptrs :: event_ptrs where
  "no_ptrs = \<lparr>tid_ptr = None, id_ptr = None, addr_ptr = None, length_ptr = None, addr2_ptr = None\<rparr>"

text \<open>Moving \<open>cur\<close> to the first byte; before the buffer there is nothing to read.\<close>

definition event_start :: "bool \<Rightarrow> nat \<Rightarrow> nat \<Rightarrow> nat option" where
  "event_start backward cur n =
     (if backward then (if n - 1 \<le> cur then Some (cur - (n - 1)) else None) else Some cur)"

text \<open>An unknown label runs past the end of the function without a \<open>return\<close>.\<close>

definition GetEvent ::
  "bool \<Rightarrow> bytes \<Rightarrow> nat \<Rightarrow> event_ptrs \<Rightarrow> (nat \<times> u8 \<times> event_ptrs) option" where
  "GetEvent backward buf cur p = do {
     lab \<leftarrow> at buf cur;
     (if lab = EndEventLabel \<or> lab = PlaceHolderLabel then Some (1, lab, p)
      else if lab = BasicBlockEventLabel then do {
        c \<leftarrow> event_start backward cur SizeOfBasicBlockEvent;
        Some (SizeOfBasicBlockEvent, lab, p\<lparr>tid_ptr := Some (c + 1), id_ptr := Some (c + 9)\<rparr>)
      }
      else if lab = MemoryEventLabel then do {
        c \<leftarrow> event_start backward cur SizeOfMemoryEvent;
        Some (SizeOfMemoryEvent, lab, p\<lparr>tid_ptr := Some (c + 1), id_ptr := Some (c + 9),
          addr_ptr := Some (c + 13), length_ptr := Some (c + 21)\<rparr>)
      }
      else if lab = ReturnEventLabel then do {
        c \<leftarrow> event_start backward cur SizeOfReturnEvent;
        Some (SizeOfReturnEvent, lab, p\<lparr>tid_ptr := Some (c + 1), id_ptr := Some (c + 9),
          addr_ptr := Some (c + 13)\<rparr>)
      }
      else if lab = ArgumentEventLabel then do {
        c \<leftarrow> event_start backward cur SizeOfArgumentEvent;
        Some (SizeOfArgumentEvent, lab, p\<lparr>tid_ptr := Some (c + 1), addr_ptr := Some (c + 9)\<rparr>)
      }
      else if lab = MemsetEventLabel then do {
        c \<leftarrow> event_start backward cur SizeOfMemsetEvent;
        Some (SizeOfMemsetEvent, lab, p\<lparr>tid_ptr := Some (c + 1), id_ptr := Some (c + 9),
          addr_ptr := Some (c + 13), length_ptr := Some (c + 21)\<rparr>)
      }
      else if lab = MemmoveEventLabel then do {
        c \<leftarrow> event_start backward cur SizeOfMemmoveEvent;
        Some (SizeOfMemmoveEvent, lab, p\<lparr>tid_ptr := Some (c + 1), id_ptr := Some (c + 9),
          addr_ptr := Some (c + 13), addr2_ptr := Some (c + 21), length_ptr := Some (c + 29)\<rparr>)
      }
      else None)
   }"

text \<open>The values behind the pointers, as the caller reads them.\<close>

record event_view =
  ev_label :: u8
  ev_tid :: "u64 option"
  ev_id :: "u32 option"
  ev_addr :: "u64 option"
  ev_length :: "u64 option"
  ev_addr2 :: "u64 option"

definition view_of :: "bytes \<Rightarrow> u8 \<Rightarrow> event_ptrs \<Rightarrow> event_view" where
  "view_of buf lab p =
     \<lparr>ev_label = lab,
      ev_tid = Option.bind (tid_ptr p) (r64 buf),
      ev_id = Option.bind (id_ptr p) (r32 buf),
      ev_addr = Option.bind (addr_ptr p) (r64 buf),
      ev_length = Option.bind (length_ptr p) (r64 buf),
      ev_addr2 = Option.bind (addr2_ptr p) (r64 buf)\<rparr>"

text \<open>
  What a decoded view must show of an event: its label and its fields. An end or a placeholder
  shows its label only.
\<close>

fun event_shows :: "event_view \<Rightarrow> trace_event \<Rightarrow> bool" where
  "event_shows v (BasicBlockEvent tid iid) \<longleftrightarrow>
     ev_label v = BasicBlockEventLabel \<and> ev_tid v = Some tid \<and> ev_id v = Some iid"
| "event_shows v (MemoryEvent tid iid addr len) \<longleftrightarrow>
     ev_label v = MemoryEventLabel \<and> ev_tid v = Some tid \<and> ev_id v = Some iid
     \<and> ev_addr v = Some addr \<and> ev_length v = Some len"
| "event_shows v (ReturnEvent tid iid fn) \<longleftrightarrow>
     ev_label v = ReturnEventLabel \<and> ev_tid v = Some tid \<and> ev_id v = Some iid \<and> ev_addr v = Some fn"
| "event_shows v (ArgumentEvent tid arg) \<longleftrightarrow>
     ev_label v = ArgumentEventLabel \<and> ev_tid v = Some tid \<and> ev_addr v = Some arg"
| "event_shows v (MemsetEvent tid iid addr len) \<longleftrightarrow>
     ev_label v = MemsetEventLabel \<and> ev_tid v = Some tid \<and> ev_id v = Some iid
     \<and> ev_addr v = Some addr \<and> ev_length v = Some len"
| "event_shows v (MemmoveEvent tid iid dest src len) \<longleftrightarrow>
     ev_label v = MemmoveEventLabel \<and> ev_tid v = Some tid \<and> ev_id v = Some iid
     \<and> ev_addr v = Some dest \<and> ev_addr2 v = Some src \<and> ev_length v = Some len"
| "event_shows v EndEvent \<longleftrightarrow> ev_label v = EndEventLabel"
| "event_shows v PlaceHolder \<longleftrightarrow> ev_label v = PlaceHolderLabel"

section \<open>Decoding what was written\<close>

text \<open>Reading a field behind a known prefix, for prefixes given as several pieces.\<close>

lemma r64_skip [simp]: "r64 (pre @ buf) (length pre + i) = r64 buf i"
  by (simp add: r64_def)

lemma r32_skip [simp]: "r32 (pre @ buf) (length pre + i) = r32 buf i"
  by (simp add: r32_def)

lemma r_skip_Suc [simp]:
  "r64 (pre @ buf) (Suc (length pre)) = r64 buf 1" "r32 (pre @ buf) (Suc (length pre)) = r32 buf 1"
  using r64_skip [of pre buf 1] r32_skip [of pre buf 1] by simp_all

lemma r64_Cons [simp]: "r64 (b # buf) (Suc i) = r64 buf i"
  by (simp add: r64_def)

lemma r32_Cons [simp]: "r32 (b # buf) (Suc i) = r32 buf i"
  by (simp add: r32_def)

lemma r_skip_w:
  "8 \<le> i \<Longrightarrow> r64 (w64 x @ buf) i = r64 buf (i - 8)" "8 \<le> i \<Longrightarrow> r32 (w64 x @ buf) i = r32 buf (i - 8)"
  "4 \<le> i \<Longrightarrow> r64 (w32 y @ buf) i = r64 buf (i - 4)" "4 \<le> i \<Longrightarrow> r32 (w32 y @ buf) i = r32 buf (i - 4)"
  using r64_skip [of "w64 x" buf "i - 8"] r32_skip [of "w64 x" buf "i - 8"]
    r64_skip [of "w32 y" buf "i - 4"] r32_skip [of "w32 y" buf "i - 4"] by auto

lemma r_here: "r64 (w64 x @ buf) 0 = Some x" "r32 (w32 y @ buf) 0 = Some y"
  using r64_at [of "[]" 0 x buf] r32_at [of "[]" 0 y buf] by simp_all

lemma r64_one [simp]: "r64 (b # buf) 1 = r64 buf 0"
  and r32_one [simp]: "r32 (b # buf) 1 = r32 buf 0"
  using r64_Cons [of b buf 0] r32_Cons [of b buf 0] by simp_all

lemma r_numeral [simp]:
  "r64 (b # buf) (numeral k) = r64 buf (pred_numeral k)"
  "r32 (b # buf) (numeral k) = r32 buf (pred_numeral k)"
  using r64_Cons [of b buf "pred_numeral k"] r32_Cons [of b buf "pred_numeral k"]
  by (simp_all add: numeral_eq_Suc)

lemma at_middle: "at (pre @ x # post) (length pre) = Some x"
  by (simp add: at_def)

lemma at_last: "xs \<noteq> [] \<Longrightarrow> at (pre @ xs @ post) (length pre + (length xs - 1)) = Some (last xs)"
  by (cases xs rule: rev_cases) (auto simp: at_def nth_append)

text \<open>The first byte of an event, and its last, are its label.\<close>

lemma event_bytes_ends:
  "event_bytes e \<noteq> []" "hd (event_bytes e) = label_of e" "last (event_bytes e) = label_of e"
  by (cases e; simp)+

definition cursor :: "bool \<Rightarrow> bytes \<Rightarrow> trace_event \<Rightarrow> nat" where
  "cursor backward pre e = (if backward then length pre + (event_size e - 1) else length pre)"

lemma at_cursor: "at (pre @ event_bytes e @ post) (cursor backward pre e) = Some (label_of e)"
proof (cases backward)
  case True
  then show ?thesis
    using at_last [OF event_bytes_ends(1), of pre e post] event_bytes_ends(3) [of e]
    by (simp add: cursor_def length_event_bytes)
next
  case False
  obtain bs where "event_bytes e = label_of e # bs"
    using event_bytes_ends [of e] by (cases "event_bytes e") auto
  with False show ?thesis
    by (simp add: cursor_def at_middle)
qed

lemma event_start_cursor: "event_start backward (cursor backward pre e) (event_size e) = Some (length pre)"
  by (simp add: event_start_def cursor_def)

lemma GetEvent_written:
  "\<exists>p'. GetEvent backward (pre @ event_bytes e @ post) (cursor backward pre e) p
          = Some (event_size e, label_of e, p')
        \<and> event_shows (view_of (pre @ event_bytes e @ post) (label_of e) p') e"
  using at_cursor [of pre e post backward] event_start_cursor [of backward pre e]
  by (cases e)
    (simp_all add: GetEvent_def label_defs view_of_def r_here r_skip_w)

section \<open>Inefficacious writes\<close>

text \<open>What the traced store, \<open>memset\<close> or \<open>memmove\<close> then does to memory.\<close>

definition mem_write :: "memory \<Rightarrow> u64 \<Rightarrow> bytes \<Rightarrow> memory" where
  "mem_write m a bs x = (if unat (x - a) < length bs then bs ! unat (x - a) else m x)"

lemma bytes_value_of: "bytes_of (length bs) (value_of bs) = bs"
proof (induction bs)
  case (Cons b bs)
  have "unat b < 256"
    using unsigned_less [of b] by simp
  then have "(unat b + 256 * value_of bs) mod 256 = unat b"
    "(unat b + 256 * value_of bs) div 256 = value_of bs" by auto
  with Cons show ?case by simp
qed simp

lemma value_of_less: "value_of bs < 256 ^ length bs"
proof (induction bs)
  case (Cons b bs)
  have "unat b < 256"
    using unsigned_less [of b] by simp
  with Cons show ?case by simp
qed simp

lemma w64_value_of: "length bs = 8 \<Longrightarrow> w64 (of_nat (value_of bs)) = bs"
  using value_of_less [of bs] bytes_value_of [of bs] by (simp add: w64_def unat_of_nat)

lemma length_mem_bytes [simp]: "length (mem_bytes m a n) = n"
  by (simp add: mem_bytes_def)

lemma mem_write_id:
  assumes "\<And>i. i < length bs \<Longrightarrow> bs ! i = m (a + of_nat i)"
  shows "mem_write m a bs = m"
proof
  fix x
  show "mem_write m a bs x = m x"
    using assms [of "unat (x - a)"] by (simp add: mem_write_def)
qed

lemma mem_bytes_nth: "i < n \<Longrightarrow> mem_bytes m a n ! i = m (a + of_nat i)"
  by (simp add: mem_bytes_def)

lemma record_store_zero:
  assumes "recordStoreEvent m tid iid addr len v = MemoryEvent tid iid addr 0"
    and "len \<noteq> 0" "unat len \<le> 8"
  shows "mem_write m addr (take (unat len) (w64 v)) = m"
proof -
  have "of_nat (value_of (mem_bytes m addr 8)) = v"
    using assms(1,2) by (auto simp: recordStoreEvent_def split: if_splits)
  then have "w64 v = mem_bytes m addr 8"
    using w64_value_of [of "mem_bytes m addr 8"] by simp
  then show ?thesis
    using assms(3) by (intro mem_write_id) (simp add: mem_bytes_nth)
qed

lemma record_memset_zero:
  assumes "recordMemset m tid iid addr len v = MemsetEvent tid iid addr 0"
  shows "mem_write m addr (replicate (unat len) v) = m"
proof (intro mem_write_id)
  fix i assume "i < length (replicate (unat len) v)"
  then have i: "i < unat len" by simp
  then have "len \<noteq> 0" by auto
  with assms have "\<forall>b \<in> set (mem_bytes m addr (unat len)). b = v"
    by (auto simp: recordMemset_def list_ex_iff split: if_splits)
  moreover have "mem_bytes m addr (unat len) ! i \<in> set (mem_bytes m addr (unat len))"
    using i by (intro nth_mem) simp
  ultimately show "replicate (unat len) v ! i = m (addr + of_nat i)"
    using i by (simp add: mem_bytes_nth)
qed

lemma record_memmove_zero:
  assumes "recordMemmove m tid iid dest src len = MemmoveEvent tid iid dest src 0"
  shows "mem_write m dest (mem_bytes m src (unat len)) = m"
proof (intro mem_write_id)
  fix i assume "i < length (mem_bytes m src (unat len))"
  then have i: "i < unat len" by simp
  then have "len \<noteq> 0" by auto
  with assms have "mem_bytes m src (unat len) = mem_bytes m dest (unat len)"
    by (auto simp: recordMemmove_def split: if_splits)
  with i show "mem_bytes m src (unat len) ! i = m (dest + of_nat i)"
    by (simp add: mem_bytes_nth)
qed

lemma mem_bytes_written: "length bs < 2 ^ 64 \<Longrightarrow> mem_bytes (mem_write m a bs) a (length bs) = bs"
  by (rule nth_equalityI) (simp_all add: mem_bytes_def mem_write_def unat_of_nat take_bit_nat_eq_self)

lemma w64_bytes: "w64 x = bytes_of (Suc (Suc (Suc (Suc (Suc (Suc (Suc (Suc 0)))))))) (unat x)"
proof -
  have "(8::nat) = Suc (Suc (Suc (Suc (Suc (Suc (Suc (Suc 0)))))))" by simp
  then show ?thesis unfolding w64_def by (rule arg_cong)
qed

end
