(* ===== verification/Example.thy ===== *)
theory Example
  imports Tools TraceFormat
begin

text \<open>
  A small traced program, on which the properties are also run. \<open>main\<close> (block 0) allocates an
  \<open>int\<close>, stores to it and calls \<open>f\<close>; \<open>f\<close> (block 1) loads from its pointer argument and passes the
  value to \<open>write\<close>.
\<close>

definition ex_inst ::
  "u32 \<Rightarrow> u32 \<Rightarrow> bool \<Rightarrow> inst_type \<Rightarrow> string \<Rightarrow> (dep_type \<times> u32) list \<Rightarrow> inst_info" where
  "ex_inst i bb ptr t f deps =
     \<lparr>ii_ID = i, ii_BB = bb, IsPointer = ptr, LoC = - 1, File = ''[UNKNOWN]'', ii_Code = ''[UNKNOWN]'',
      SSADependencies = deps, ii_Type = t, ii_Fun = f, Successors = [], PhiDependencies = []\<rparr>"

definition ex_code :: code_info where
  "ex_code =
     \<lparr>Ins = [ex_inst 0 0 True AllocaInst '''' [(Constant, 0)],
             ex_inst 1 0 False StoreInst '''' [(Constant, 0), (Inst, 0)],
             ex_inst 2 0 False CallInst ''f'' [(Inst, 0), (Constant, 0)],
             ex_inst 3 0 False ReturnInst '''' [(Constant, 0)],
             ex_inst 4 1 False LoadInst '''' [(PointerArg, 0)],
             ex_inst 5 1 False ExternalCallInst ''write'' [(Inst, 4), (Constant, 0)],
             ex_inst 6 1 False ReturnInst '''' [(Constant, 0)]],
      BB2Ins = [[0, 1, 2, 3], [4, 5, 6]]\<rparr>"

text \<open>
  Its trace: one frame, stored without compression, with the block of \<open>main\<close>, the declaration of the
  variable, the store, the block of \<open>f\<close>, the load, the pointer argument and the call of \<open>write\<close>, and
  the end event.
\<close>

definition ex_trace :: bytes where
  "ex_trace =
    [159, 0, 0, 0, 0, 0, 0, 0, 0, 1, 0, 0, 0, 0, 0, 0, 0, 0, 0, 0, 0, 0, 1, 1, 0, 0, 0, 0, 0, 0, 0,
     0, 0, 0, 0, 64, 0, 0, 0, 0, 0, 0, 0, 8, 0, 0, 0, 0, 0, 0, 0, 1, 1, 1, 0, 0, 0, 0, 0, 0, 0, 1,
     0, 0, 0, 64, 0, 0, 0, 0, 0, 0, 0, 8, 0, 0, 0, 0, 0, 0, 0, 1, 0, 1, 0, 0, 0, 0, 0, 0, 0, 1, 0,
     0, 0, 0, 1, 1, 0, 0, 0, 0, 0, 0, 0, 4, 0, 0, 0, 64, 0, 0, 0, 0, 0, 0, 0, 8, 0, 0, 0, 0, 0, 0,
     0, 1, 5, 1, 0, 0, 0, 0, 0, 0, 0, 64, 0, 0, 0, 0, 0, 0, 0, 5, 3, 1, 0, 0, 0, 0, 0, 0, 0, 5, 0,
     0, 0, 0, 16, 0, 0, 0, 0, 0, 0, 3, 125, 159, 0, 0, 0, 0, 0, 0, 0]"

text \<open>The blocks it is merged to.\<close>

definition ex_block ::
  "block_type \<Rightarrow> u32 \<Rightarrow> u32 \<Rightarrow> u64 list \<Rightarrow> u8 \<Rightarrow> u8 \<Rightarrow> u32 \<Rightarrow> smallest_block" where
  "ex_block t bb i addrs fst_flag last_flag caller =
     \<lparr>sb_Type = t, sb_TID = 1, BBID = bb, Start = i, End = i + 1, Addr = addrs,
      IsFirst = fst_flag, IsLast = last_flag, Caller = caller, LastBBID = - 1\<rparr>"

definition ex_blocks :: "smallest_block list" where
  "ex_blocks =
     [ex_block MemoryAccessBlock 0 0 [64, 72] 2 0 0,
      ex_block MemoryAccessBlock 0 1 [64, 72] 0 0 0,
      ex_block NormalBlock 0 2 [] 0 0 0,
      ex_block MemoryAccessBlock 1 0 [64, 72] 1 0 2,
      ex_block ImpactfulCallBlock 1 1 [4096, 64] 0 0 0,
      ex_block NormalBlock 1 2 [] 0 1 2,
      ex_block NormalBlock 0 3 [] 0 2 0]"

text \<open>
  The same blocks with the variable spread over the lower half of the address space, and a trace that
  declares both halves; a segment tree then has at most two leaves (the call passes no pointer).
\<close>

definition half :: u64 where "half = 9223372036854775807"

definition ex_wide :: "smallest_block list" where
  "ex_wide =
     [ex_block MemoryAccessBlock 0 0 [0, half] 2 0 0,
      ex_block MemoryAccessBlock 0 1 [0, half] 0 0 0,
      ex_block NormalBlock 0 2 [] 0 0 0,
      ex_block MemoryAccessBlock 1 0 [0, half] 1 0 2,
      ex_block ImpactfulCallBlock 1 1 [4096] 0 0 0,
      ex_block NormalBlock 1 2 [] 0 1 2,
      ex_block NormalBlock 0 3 [] 0 2 0]"

text \<open>The trace of this run, in one frame stored without compression.\<close>

definition ex_wide_trace :: bytes where
  "ex_wide_trace =
    [141, 0, 0, 0, 0, 0, 0, 0, 0, 1, 0, 0, 0, 0, 0, 0, 0, 0, 0, 0, 0, 0, 1, 1, 0, 0, 0, 0, 0, 0, 0,
     0, 0, 0, 0, 0, 0, 0, 0, 0, 0, 0, 0, 255, 255, 255, 255, 255, 255, 255, 127, 1, 1, 1, 0, 0, 0,
     0, 0, 0, 0, 1, 0, 0, 0, 0, 0, 0, 0, 0, 0, 0, 0, 255, 255, 255, 255, 255, 255, 255, 127, 1, 0,
     1, 0, 0, 0, 0, 0, 0, 0, 1, 0, 0, 0, 0, 1, 1, 0, 0, 0, 0, 0, 0, 0, 4, 0, 0, 0, 0, 0, 0, 0, 0,
     0, 0, 0, 255, 255, 255, 255, 255, 255, 255, 127, 1, 3, 1, 0, 0, 0, 0, 0, 0, 0, 5, 0, 0, 0, 0,
     16, 0, 0, 0, 0, 0, 0, 3, 125, 141, 0, 0, 0, 0, 0, 0, 0]"

text \<open>The PIN tool's file of a run without calls.\<close>

definition ex_pin :: bytes where
  "ex_pin = w64 1 @ [EndEventLabel] @ w64 1"

definition ex_declares :: "smallest_block list" where
  "ex_declares = [DeclareOf 0 half, DeclareOf half (half + 1)]"

text \<open>Decoded events of a block entered, a memory access and a call, for examples with several threads.\<close>

definition ex_enter :: "u64 \<Rightarrow> u32 \<Rightarrow> event_view" where
  "ex_enter tid bb = \<lparr>ev_label = BasicBlockEventLabel, ev_tid = Some tid, ev_id = Some bb,
     ev_addr = None, ev_length = None, ev_addr2 = None\<rparr>"

definition ex_touch :: "u64 \<Rightarrow> u32 \<Rightarrow> event_view" where
  "ex_touch tid i = \<lparr>ev_label = MemoryEventLabel, ev_tid = Some tid, ev_id = Some i,
     ev_addr = Some 64, ev_length = Some 8, ev_addr2 = None\<rparr>"

definition ex_call :: "u64 \<Rightarrow> u32 \<Rightarrow> u64 \<Rightarrow> event_view" where
  "ex_call tid i fn = \<lparr>ev_label = ReturnEventLabel, ev_tid = Some tid, ev_id = Some i,
     ev_addr = Some fn, ev_length = None, ev_addr2 = None\<rparr>"

lemma ex_code_ok: "code_ok ex_code"
  by (simp add: code_ok_def ex_code_def)

end
