(* ===== verification/Base64.thy ===== *)
theory Base64
  imports Prelude
begin

text \<open>
  \<open>lib/SlimmerUtil/base64.cpp\<close>, used to write paths and LLVM code into the \<open>Inst\<close> file as
  one white-space free token each. The encoder's loop over the input keeps the bytes of the group
  it is filling (\<open>char_array_3\<close>, whose length is \<open>i\<close>) and the result so far; the decoder's
  loop does the same with groups of four. \<open>base64_round_trip\<close> is the theorem of the component.
\<close>

unbundle bit_operations_syntax

section \<open>The alphabet\<close>

definition base64_chars :: string where
  "base64_chars =
     ''ABCDEFGHIJKLMNOPQRSTUVWXYZ'' @ ''abcdefghijklmnopqrstuvwxyz'' @ ''0123456789+/''"

text \<open>\<open>isalnum\<close> of the C locale.\<close>

definition isalnum :: "char \<Rightarrow> bool" where
  "isalnum c \<longleftrightarrow>
     (let n = of_char c :: nat in
      48 \<le> n \<and> n \<le> 57 \<or> 65 \<le> n \<and> n \<le> 90 \<or> 97 \<le> n \<and> n \<le> 122)"

definition is_base64 :: "char \<Rightarrow> bool" where
  "is_base64 c \<longleftrightarrow> isalnum c \<or> c = CHR ''+'' \<or> c = CHR ''/''"

text \<open>\<open>std::string::find\<close> of one character, \<open>npos\<close> (all ones) when there is none.\<close>

fun find_char :: "string \<Rightarrow> char \<Rightarrow> nat \<Rightarrow> u64" where
  "find_char [] c i = - 1"
| "find_char (d # ds) c i = (if d = c then of_nat i else find_char ds c (Suc i))"

definition sextet_of :: "char \<Rightarrow> u8" where
  "sextet_of c = ucast (find_char base64_chars c 0)"

section \<open>Encoding\<close>

definition enc_quad :: "u8 \<Rightarrow> u8 \<Rightarrow> u8 \<Rightarrow> u8 list" where
  "enc_quad a b c =
     [drop_bit 2 (a AND 0xfc),
      push_bit 4 (a AND 0x03) + drop_bit 4 (b AND 0xf0),
      push_bit 2 (b AND 0x0f) + drop_bit 6 (c AND 0xc0),
      c AND 0x3f]"

definition enc_chars :: "u8 list \<Rightarrow> string" where
  "enc_chars qs = map (\<lambda>q. base64_chars ! unat q) qs"

fun encode_loop :: "u8 list \<Rightarrow> u8 list \<Rightarrow> string \<Rightarrow> u8 list \<times> string" where
  "encode_loop [] arr ret = (arr, ret)"
| "encode_loop (x # xs) arr ret =
     (let arr' = arr @ [x] in
      if length arr' = 3
      then encode_loop xs [] (ret @ enc_chars (enc_quad (arr' ! 0) (arr' ! 1) (arr' ! 2)))
      else encode_loop xs arr' ret)"

definition base64_encode :: "u8 list \<Rightarrow> string" where
  "base64_encode bs =
     (let (arr, ret) = encode_loop bs [] []; i = length arr in
      if i \<noteq> 0 then
        let arr3 = arr @ replicate (3 - i) 0;
            quad = enc_quad (arr3 ! 0) (arr3 ! 1) (arr3 ! 2)
        in ret @ enc_chars (take (i + 1) quad) @ replicate (3 - i) (CHR ''='')
      else ret)"

section \<open>Decoding\<close>

definition dec_triple :: "u8 list \<Rightarrow> u8 list" where
  "dec_triple q =
     [push_bit 2 (q ! 0) + drop_bit 4 (q ! 1 AND 0x30),
      push_bit 4 (q ! 1 AND 0xf) + drop_bit 2 (q ! 2 AND 0x3c),
      push_bit 6 (q ! 2 AND 0x3) + q ! 3]"

fun decode_loop :: "string \<Rightarrow> string \<Rightarrow> u8 list \<Rightarrow> string \<times> u8 list" where
  "decode_loop [] arr ret = (arr, ret)"
| "decode_loop (c # cs) arr ret =
     (if c \<noteq> CHR ''='' \<and> is_base64 c then
        let arr' = arr @ [c] in
        if length arr' = 4 then decode_loop cs [] (ret @ dec_triple (map sextet_of arr'))
        else decode_loop cs arr' ret
      else (arr, ret))"

definition base64_decode :: "string \<Rightarrow> u8 list" where
  "base64_decode s =
     (let (arr, ret) = decode_loop s [] []; i = length arr in
      if i \<noteq> 0 then
        let arr4 = map sextet_of (arr @ replicate (4 - i) (CHR 0x00))
        in ret @ take (i - 1) (dec_triple arr4)
      else ret)"

section \<open>One group\<close>

lemma base64_chars_len: "length base64_chars = 64"
  by (simp add: base64_chars_def)

text \<open>Two bytes are equal if their eight bits are.\<close>

lemma byte_eqI:
  fixes x y :: u8
  assumes "\<And>n. n \<in> {0, 1, 2, 3, 4, 5, 6, 7} \<Longrightarrow> bit x n = bit y n"
  shows "x = y"
proof (rule bit_word_eqI)
  fix n assume "n < LENGTH(8)"
  then have "n \<in> {0, 1, 2, 3, 4, 5, 6, 7}" by auto
  then show "bit x n = bit y n" by (rule assms)
qed

lemma all_sextets: "list_all (\<lambda>i. sextet_of (base64_chars ! i) = of_nat i) [0..<64]"
  by code_simp

lemma sextet_of_char: "unat q < 64 \<Longrightarrow> sextet_of (base64_chars ! unat q) = q"
  using all_sextets by (simp add: list_all_iff)

lemma all_base64: "list_all (\<lambda>c. is_base64 c \<and> c \<noteq> CHR ''='') base64_chars"
  by code_simp



lemma quad_or:
  fixes a b c :: u8
  shows "push_bit 4 (a AND 0x03) + drop_bit 4 (b AND 0xf0)
           = push_bit 4 (a AND 0x03) OR drop_bit 4 (b AND 0xf0)"
    and "push_bit 2 (b AND 0x0f) + drop_bit 6 (c AND 0xc0)
           = push_bit 2 (b AND 0x0f) OR drop_bit 6 (c AND 0xc0)"
    and "push_bit 2 a + drop_bit 4 (b AND 0x30) = push_bit 2 a OR drop_bit 4 (b AND 0x30)"
    and "push_bit 4 (a AND 0xf) + drop_bit 2 (b AND 0x3c)
           = push_bit 4 (a AND 0xf) OR drop_bit 2 (b AND 0x3c)"
    and "push_bit 6 (a AND 0x3) + (b AND 0x3f) = push_bit 6 (a AND 0x3) OR (b AND 0x3f)"
  by (intro disjunctive_add_eq_or byte_eqI; auto simp: bit_simps)+

lemma dec_triple_four:
  "dec_triple [p, q, r, s] =
     [push_bit 2 p + drop_bit 4 (q AND 0x30),
      push_bit 4 (q AND 0xf) + drop_bit 2 (r AND 0x3c),
      push_bit 6 (r AND 0x3) + s]"
  by (simp add: dec_triple_def del: push_bit_and drop_bit_and)

lemma dec_enc: "dec_triple (enc_quad a b c) = [a, b, c]"
  unfolding enc_quad_def dec_triple_four quad_or list.inject
  by (intro conjI byte_eqI refl; auto simp: bit_simps simp flip: numeral_2_eq_2)

lemma enc_quad_lt: "q \<in> set (enc_quad a b c) \<Longrightarrow> unat q < 64"
proof -
  have "q = take_bit 6 q" if "q \<in> set (enc_quad a b c)"
    using that unfolding enc_quad_def quad_or
    by (auto intro!: byte_eqI simp: bit_simps)
  moreover have "unat (take_bit 6 q) < 64"
    by (simp only: unsigned_take_bit_eq) (simp add: take_bit_eq_mod)
  ultimately show "q \<in> set (enc_quad a b c) \<Longrightarrow> unat q < 64" by metis
qed

section \<open>The whole string\<close>

text \<open>\<open>group_enc\<close>: one group's four characters, of which a padded last group keeps a prefix.\<close>

lemma enc_chars_ok:
  "\<forall>q \<in> set qs. unat q < 64 \<Longrightarrow>
     map sextet_of (enc_chars qs) = qs \<and> (\<forall>c \<in> set (enc_chars qs). is_base64 c \<and> c \<noteq> CHR ''='')"
  using all_base64 base64_chars_len
  by (auto simp: enc_chars_def sextet_of_char list_all_iff map_idI)

lemma length_enc_chars [simp]: "length (enc_chars qs) = length qs"
  by (simp add: enc_chars_def)

lemma enc_quad_chars:
  "map sextet_of (enc_chars (enc_quad a b c)) = enc_quad a b c"
  "x \<in> set (enc_chars (enc_quad a b c)) \<Longrightarrow> is_base64 x \<and> x \<noteq> CHR ''=''"
  using enc_chars_ok [of "enc_quad a b c"] enc_quad_lt by blast+

text \<open>The encoder, group by group.\<close>

lemma encode_loop_ret: "encode_loop bs arr ret =
    (fst (encode_loop bs arr []), ret @ snd (encode_loop bs arr []))"
proof (induction bs arbitrary: arr ret)
  case (Cons x xs)
  show ?case
    by (simp add: Let_def Cons [of "[]" "ret @ _"] Cons [of "arr @ [x]" ret] Cons [of "[]" "enc_chars _"])
qed simp

lemma encode_Nil: "base64_encode [] = []"
  by (simp add: base64_encode_def)

lemma encode_group: "base64_encode (a # b # c # bs) = enc_chars (enc_quad a b c) @ base64_encode bs"
proof -
  have "encode_loop (a # b # c # bs) [] [] = encode_loop bs [] (enc_chars (enc_quad a b c))"
    by (simp add: Let_def)
  then show ?thesis
    by (subst (asm) encode_loop_ret)
      (simp add: base64_encode_def Let_def split: prod.split)
qed

lemma encode_one: "base64_encode [a] = enc_chars (take 2 (enc_quad a 0 0)) @ ''==''"
  and encode_two: "base64_encode [a, b] = enc_chars (take 3 (enc_quad a b 0)) @ ''=''"
  by (simp_all add: base64_encode_def Let_def numeral_2_eq_2 numeral_3_eq_3)

text \<open>The decoder eats one group of four valid characters.\<close>

lemma decode_loop_ret: "decode_loop s arr ret =
    (fst (decode_loop s arr []), ret @ snd (decode_loop s arr []))"
proof (induction s arbitrary: arr ret)
  case (Cons x xs)
  show ?case
    by (simp add: Let_def Cons [of "[]" "ret @ _"] Cons [of "arr @ [x]" ret] Cons [of "[]" "dec_triple _"])
qed simp

lemma decode_group:
  assumes "length q = 4" "\<forall>c \<in> set q. is_base64 c \<and> c \<noteq> CHR ''=''"
  shows "base64_decode (q @ s) = dec_triple (map sextet_of q) @ base64_decode s"
proof -
  obtain c0 c1 c2 c3 where q: "q = [c0, c1, c2, c3]"
    using assms(1) by (auto simp: length_Suc_conv numeral_eq_Suc)
  have "decode_loop (q @ s) [] [] = decode_loop s [] (dec_triple (map sextet_of q))"
    using assms(2) by (simp add: q Let_def)
  then show ?thesis
    by (subst (asm) decode_loop_ret)
      (simp add: base64_decode_def Let_def split: prod.split)
qed

lemma take_dec:
  "take 1 (dec_triple [p, q, r, s]) = take 1 (dec_triple [p, q, r', s'])"
  "take 2 (dec_triple [p, q, r, s]) = take 2 (dec_triple [p, q, r, s'])"
  by (simp_all add: dec_triple_four numeral_2_eq_2)

lemma decode_one: "base64_decode (enc_chars (take 2 (enc_quad a 0 0)) @ ''=='') = [a]"
proof -
  obtain p q r s where Q: "enc_quad a 0 0 = [p, q, r, s]" by (simp add: enc_quad_def)
  obtain cp cq cr cs where C: "enc_chars (enc_quad a 0 0) = [cp, cq, cr, cs]"
    by (simp add: Q enc_chars_def)
  have ok: "is_base64 cp" "cp \<noteq> CHR ''=''" "is_base64 cq" "cq \<noteq> CHR ''=''"
      and sx: "sextet_of cp = p" "sextet_of cq = q"
    using enc_quad_chars(1) [of a 0 0] enc_quad_chars(2) [of _ a 0 0] unfolding C by (simp_all add: Q)
  have take: "enc_chars (take 2 (enc_quad a 0 0)) = [cp, cq]"
    using C by (simp add: enc_chars_def take_map [symmetric] numeral_2_eq_2)
  have "base64_decode ([cp, cq] @ ''=='') = take 1 (dec_triple [p, q, sextet_of (CHR 0x00), sextet_of (CHR 0x00)])"
    using ok sx by (simp add: base64_decode_def Let_def numeral_2_eq_2)
  also have "\<dots> = take 1 (dec_triple [p, q, r, s])" by (rule take_dec)
  also have "\<dots> = [a]" by (simp add: Q [symmetric] dec_enc)
  finally show ?thesis by (simp only: take)
qed

lemma decode_two: "base64_decode (enc_chars (take 3 (enc_quad a b 0)) @ ''='') = [a, b]"
proof -
  obtain p q r s where Q: "enc_quad a b 0 = [p, q, r, s]" by (simp add: enc_quad_def)
  obtain cp cq cr cs where C: "enc_chars (enc_quad a b 0) = [cp, cq, cr, cs]"
    by (simp add: Q enc_chars_def)
  have ok: "is_base64 cp" "cp \<noteq> CHR ''=''" "is_base64 cq" "cq \<noteq> CHR ''=''"
      "is_base64 cr" "cr \<noteq> CHR ''=''"
      and sx: "sextet_of cp = p" "sextet_of cq = q" "sextet_of cr = r"
    using enc_quad_chars(1) [of a b 0] enc_quad_chars(2) [of _ a b 0] unfolding C by (simp_all add: Q)
  have take: "enc_chars (take 3 (enc_quad a b 0)) = [cp, cq, cr]"
    using C by (simp add: enc_chars_def take_map [symmetric] numeral_3_eq_3)
  have "base64_decode ([cp, cq, cr] @ ''='') = take 2 (dec_triple [p, q, r, sextet_of (CHR 0x00)])"
    using ok sx by (simp add: base64_decode_def Let_def numeral_2_eq_2)
  also have "\<dots> = take 2 (dec_triple [p, q, r, s])" by (rule take_dec)
  also have "\<dots> = [a, b]" by (simp add: Q [symmetric] dec_enc)
  finally show ?thesis by (simp only: take)
qed

lemma length_enc_quad: "length (enc_quad a b c) = 4"
  by (simp add: enc_quad_def)

text \<open>Induction over a byte string three bytes at a time.\<close>

lemma groups_of_three [case_names Nil One Two Group]:
  assumes "P []" "\<And>a. P [a]" "\<And>a b. P [a, b]" "\<And>a b c bs. P bs \<Longrightarrow> P (a # b # c # bs)"
  shows "P bs"
proof (induction bs rule: length_induct)
  case (1 bs)
  then show ?case
    using assms by (cases bs; cases "tl bs"; cases "tl (tl bs)") auto
qed

lemma base64_round: "base64_decode (base64_encode bs) = bs"
proof (induction bs rule: groups_of_three)
  case Nil
  show ?case by (simp add: encode_Nil base64_decode_def)
next
  case (Group a b c bs)
  then show ?case
    by (simp add: encode_group decode_group enc_quad_chars dec_enc length_enc_quad)
qed (simp_all only: encode_one decode_one encode_two decode_two)

text \<open>The encoding's characters are not white space, so it is read back as one token.\<close>

lemma encode_alphabet: "c \<in> set (base64_encode bs) \<Longrightarrow> is_base64 c \<or> c = CHR ''=''"
proof (induction bs rule: groups_of_three)
  case (One a)
  then show ?case
    using enc_chars_ok [of "take 2 (enc_quad a 0 0)"] enc_quad_lt
    by (fastforce simp: encode_one dest: in_set_takeD)
next
  case (Two a b)
  then show ?case
    using enc_chars_ok [of "take 3 (enc_quad a b 0)"] enc_quad_lt
    by (fastforce simp: encode_two dest: in_set_takeD)
next
  case (Group a b c bs)
  then show ?case
    using enc_quad_chars(2) [of _ a b c] by (auto simp: encode_group)
qed (simp add: encode_Nil)

lemma encode_length: "length (base64_encode bs) = 4 * ((length bs + 2) div 3)"
proof (induction bs rule: groups_of_three)
  case (Group a b c bs)
  have "(length bs + 3 + 2) div 3 = (length bs + 2) div 3 + 1" by simp
  with Group show ?case by (simp add: encode_group enc_quad_def)
qed (simp_all add: encode_Nil encode_one encode_two enc_quad_def)

end
