(* ===== verification/TraceIO.thy ===== *)
theory TraceIO
  imports TraceFormat
begin

text \<open>
  Writing and reading trace files. A file is a sequence of frames: the length of a compressed
  block, the block, and the length again. \<open>EventBuffer\<close> (\<open>lib/SlimmerUtil/EventBuffer.cpp\<close>, the
  PIN tool's writer) and \<open>CompressBuffer\<close> (\<open>lib/SlimmerUtil/Routines.cpp\<close>) fill a block and
  flush it when the next record does not fit; \<open>TraceIter\<close> (\<open>tools/PrintBug/Util.cpp\<close>) decompresses
  one block at a time and decodes its events.

  LZ4 is a library: \<open>compress\<close> and \<open>decompress\<close> are parameters. The one documented fact used is
  \<open>lz4_ok\<close>: what was compressed from at most a block decompresses to itself.
\<close>

section \<open>Frames\<close>

definition COMPRESS_BLOCK_SIZE :: nat where
  "COMPRESS_BLOCK_SIZE = 33554432"

type_synonym compressor = "bytes \<Rightarrow> bytes"
type_synonym decompressor = "bytes \<Rightarrow> bytes option" \<comment> \<open>\<open>None\<close>: a negative return value\<close>

definition frame :: "compressor \<Rightarrow> bytes \<Rightarrow> bytes" where
  "frame compress block =
     (let c = compress block; after_compress = of_nat (length c) in
      w64 after_compress @ c @ w64 after_compress)"

definition lz4_ok :: "compressor \<Rightarrow> decompressor \<Rightarrow> bool" where
  "lz4_ok compress decompress \<longleftrightarrow>
     (\<forall>b. length b \<le> COMPRESS_BLOCK_SIZE \<longrightarrow>
        decompress (compress b) = Some b \<and> length (compress b) < 2 ^ 64)"

section \<open>EventBuffer\<close>

text \<open>
  \<open>eb_data\<close> is the part of \<open>buffer\<close> below \<open>offset\<close>, \<open>eb_stream\<close> what was written to the file.
\<close>

record event_buffer =
  eb_inited :: bool
  eb_data :: bytes
  eb_size :: nat
  eb_stream :: bytes

definition EventBuffer_Init :: event_buffer where
  "EventBuffer_Init =
     \<lparr>eb_inited = True, eb_data = [], eb_size = COMPRESS_BLOCK_SIZE, eb_stream = []\<rparr>"

definition EventBuffer_Append :: "compressor \<Rightarrow> bytes \<Rightarrow> event_buffer \<Rightarrow> event_buffer option" where
  "EventBuffer_Append compress event eb =
     (let eb1 = (if length (eb_data eb) + length event > eb_size eb
                 then eb\<lparr>eb_stream := eb_stream eb @ frame compress (eb_data eb), eb_data := []\<rparr>
                 else eb)
      in do {
        require (length (eb_data eb1) + length event \<le> eb_size eb1);
        Some (eb1\<lparr>eb_data := eb_data eb1 @ event\<rparr>)
      })"

definition EventBuffer_Close :: "compressor \<Rightarrow> event_buffer \<Rightarrow> event_buffer option" where
  "EventBuffer_Close compress eb =
     (if \<not> eb_inited eb then Some eb
      else do {
        eb1 \<leftarrow> EventBuffer_Append compress [EndEventLabel] eb;
        Some (eb1\<lparr>eb_stream := eb_stream eb1 @ frame compress (eb_data eb1), eb_inited := False\<rparr>)
      })"

section \<open>CompressBuffer\<close>

record compress_buffer =
  cb_data :: bytes
  cb_size :: nat
  cb_stream :: bytes

definition CompressBuffer_new :: compress_buffer where
  "CompressBuffer_new = \<lparr>cb_data = [], cb_size = COMPRESS_BLOCK_SIZE, cb_stream = []\<rparr>"

definition CompressBuffer_Prepare ::
  "compressor \<Rightarrow> nat \<Rightarrow> compress_buffer \<Rightarrow> compress_buffer" where
  "CompressBuffer_Prepare compress len cb =
     (if length (cb_data cb) + len > cb_size cb
      then cb\<lparr>cb_stream := cb_stream cb @ frame compress (cb_data cb), cb_data := []\<rparr>
      else cb)"

text \<open>A record longer than the buffer is copied past its end.\<close>

definition CompressBuffer_Append ::
  "compressor \<Rightarrow> bytes \<Rightarrow> compress_buffer \<Rightarrow> compress_buffer option" where
  "CompressBuffer_Append compress ptr cb =
     (let cb1 = CompressBuffer_Prepare compress (length ptr) cb in do {
        require (length (cb_data cb1) + length ptr \<le> cb_size cb1);
        Some (cb1\<lparr>cb_data := cb_data cb1 @ ptr\<rparr>)
      })"

definition CompressBuffer_delete :: "compressor \<Rightarrow> compress_buffer \<Rightarrow> bytes" where
  "CompressBuffer_delete compress cb = cb_stream cb @ frame compress (cb_data cb)"

section \<open>What both writers promise\<close>

text \<open>
  A block writer holds the blocks it has finished and the block it is filling. Appending a record
  either extends the current block or finishes it, padded by \<open>pad\<close>, and starts the next with the
  record: a record never straddles two blocks.
\<close>

locale block_writer =
  fixes emit :: "bytes \<Rightarrow> 's \<Rightarrow> 's option"
    and holds :: "'s \<Rightarrow> bytes list \<Rightarrow> bytes \<Rightarrow> bool"
    and pad :: "bytes \<Rightarrow> bytes"
    and capacity :: nat
  assumes emit_ok: "holds s blocks cur \<Longrightarrow> length r \<le> capacity \<Longrightarrow>
      \<exists>s'. emit r s = Some s' \<and>
        (if length cur + length r \<le> capacity then holds s' blocks (cur @ r)
         else holds s' (blocks @ [cur @ pad cur]) r)"
    and pad_ok: "length cur \<le> capacity \<Longrightarrow> length (cur @ pad cur) \<le> capacity"
begin

text \<open>
  Any number of records: the finished blocks and the current one are whole records in order, every
  finished block padded; no block is longer than the capacity.
\<close>

lemma emit_all:
  assumes "holds s blocks (concat g)" "length (concat g) \<le> capacity"
    "list_all (\<lambda>r. length r \<le> capacity) rs"
  shows "\<exists>s' gs g'. fold_opt emit rs s = Some s'
           \<and> holds s' (blocks @ map (\<lambda>h. concat h @ pad (concat h)) gs) (concat g')
           \<and> concat gs @ g' = g @ rs \<and> length (concat g') \<le> capacity
           \<and> list_all (\<lambda>h. h \<noteq> [] \<and> length (concat h @ pad (concat h)) \<le> capacity) gs
           \<and> (g' = [] \<longrightarrow> rs = [] \<and> g = [])"
  using assms
proof (induction rs arbitrary: s blocks g)
  case Nil
  then show ?case by (intro exI [of _ s] exI [of _ "[]"] exI [of _ g]) simp
next
  case (Cons r rs)
  then have r: "length r \<le> capacity" "list_all (\<lambda>r. length r \<le> capacity) rs" by simp_all
  obtain s1 where s1: "emit r s = Some s1"
      "if length (concat g) + length r \<le> capacity then holds s1 blocks (concat g @ r)
       else holds s1 (blocks @ [concat g @ pad (concat g)]) r"
    using emit_ok [OF Cons.prems(1) r(1)] by blast
  show ?case
  proof (cases "length (concat g) + length r \<le> capacity")
    case True
    with s1 have "holds s1 blocks (concat (g @ [r]))" by simp
    from Cons.IH [OF this _ r(2)] s1(1) True show ?thesis by simp
  next
    case False
    with s1 have "holds s1 (blocks @ [concat g @ pad (concat g)]) (concat [r])" by simp
    from Cons.IH [OF this _ r(2)] r(1) obtain s' gs g' where
      "fold_opt emit rs s1 = Some s'"
      "holds s' ((blocks @ [concat g @ pad (concat g)]) @ map (\<lambda>h. concat h @ pad (concat h)) gs)
         (concat g')"
      "concat gs @ g' = [r] @ rs" "length (concat g') \<le> capacity"
      "list_all (\<lambda>h. h \<noteq> [] \<and> length (concat h @ pad (concat h)) \<le> capacity) gs"
      "g' = [] \<longrightarrow> rs = [] \<and> [r] = []" by auto
    moreover have "g \<noteq> []"
      using False r(1) by auto
    ultimately show ?thesis
      using s1(1) pad_ok [OF Cons.prems(2)]
      by (intro exI [of _ s'] exI [of _ "g # gs"] exI [of _ g']) simp
  qed
qed

end

definition file_of :: "compressor \<Rightarrow> bytes list \<Rightarrow> bytes" where
  "file_of compress blocks = concat (map (frame compress) blocks)"

lemma file_of_append: "file_of c (xs @ ys) = file_of c xs @ file_of c ys"
  by (simp add: file_of_def)

lemma file_of_simps: "file_of c [] = []" "file_of c (b # bs) = frame c b @ file_of c bs"
  by (simp_all add: file_of_def)

definition eb_holds :: "compressor \<Rightarrow> event_buffer \<Rightarrow> bytes list \<Rightarrow> bytes \<Rightarrow> bool" where
  "eb_holds compress eb blocks cur \<longleftrightarrow>
     eb_inited eb \<and> eb_size eb = COMPRESS_BLOCK_SIZE \<and> eb_data eb = cur
     \<and> eb_stream eb = file_of compress blocks"

definition cb_holds :: "compressor \<Rightarrow> compress_buffer \<Rightarrow> bytes list \<Rightarrow> bytes \<Rightarrow> bool" where
  "cb_holds compress cb blocks cur \<longleftrightarrow>
     cb_size cb = COMPRESS_BLOCK_SIZE \<and> cb_data cb = cur \<and> cb_stream cb = file_of compress blocks"

interpretation ebuf: block_writer "EventBuffer_Append compress" "eb_holds compress" "\<lambda>_. []"
  COMPRESS_BLOCK_SIZE for compress
  by unfold_locales
    (auto simp: EventBuffer_Append_def eb_holds_def Let_def require_def file_of_append file_of_simps)

interpretation cbuf: block_writer "CompressBuffer_Append compress" "cb_holds compress" "\<lambda>_. []"
  COMPRESS_BLOCK_SIZE for compress
  by unfold_locales
    (auto simp: CompressBuffer_Append_def CompressBuffer_Prepare_def cb_holds_def Let_def require_def
      file_of_append file_of_simps)

section \<open>TraceIter\<close>

record trace_iter =
  ti_trace :: bytes
  ti_decoded :: bytes \<comment> \<open>the first \<open>decoded_size\<close> bytes of \<open>decoded\<close>\<close>
  data_iter :: nat
  decoded_iter :: nat
  ti_ended :: bool

definition TraceIter :: "bytes \<Rightarrow> trace_iter" where
  "TraceIter trace =
     \<lparr>ti_trace = trace, ti_decoded = [], data_iter = 0, decoded_iter = 0, ti_ended = False\<rparr>"

text \<open>
  \<open>decoded_size\<close> is unsigned, so the \<open>assert\<close> only catches an empty block; a negative return value
  of the decompressor becomes a huge size and the reads that follow leave the buffer.
\<close>

definition Prepare :: "decompressor \<Rightarrow> trace_iter \<Rightarrow> (bool \<times> trace_iter) option" where
  "Prepare decompress it =
     (if decoded_iter it \<ge> length (ti_decoded it) then
        if ti_ended it \<or> data_iter it \<ge> length (ti_trace it) then Some (False, it)
        else do {
          len \<leftarrow> r64 (ti_trace it) (data_iter it);
          require (data_iter it + 8 + unat len \<le> length (ti_trace it));
          d \<leftarrow> decompress (take (unat len) (drop (data_iter it + 8) (ti_trace it)));
          require (d \<noteq> []);
          Some (True, it\<lparr>ti_decoded := d, decoded_iter := 0,
                         data_iter := data_iter it + 8 + unat len + 8\<rparr>)
        }
      else Some (True, it))"

definition NextEvent ::
  "decompressor \<Rightarrow> trace_iter \<Rightarrow> event_ptrs \<Rightarrow>
     ((u8 \<times> event_ptrs) option \<times> trace_iter) option" where
  "NextEvent decompress it p = do {
     (more, it1) \<leftarrow> Prepare decompress it;
     (if \<not> more then Some (None, it1)
      else do {
        (n, lab, p') \<leftarrow> GetEvent False (ti_decoded it1) (decoded_iter it1) p;
        Some (Some (lab, p'),
          it1\<lparr>decoded_iter := decoded_iter it1 + n,
              ti_ended := (if lab = EndEventLabel then True else ti_ended it1)\<rparr>)
      })
   }"

text \<open>
  \<open>Next\<close> copies \<open>len\<close> bytes; what lies behind the decoded ones in the buffer is not part of the trace
  and is not read here.
\<close>

definition Next :: "decompressor \<Rightarrow> nat \<Rightarrow> trace_iter \<Rightarrow> (bytes option \<times> trace_iter) option" where
  "Next decompress len it = do {
     (more, it1) \<leftarrow> Prepare decompress it;
     (if \<not> more then Some (None, it1)
      else do {
        require (decoded_iter it1 + len \<le> length (ti_decoded it1));
        Some (Some (take len (drop (decoded_iter it1) (ti_decoded it1))), it1\<lparr>decoded_iter := decoded_iter it1 + len\<rparr>)
      })
   }"

lemma Next_append:
  assumes "Next decompress n it = Some (Some xs, it1)" "Next decompress m it1 = Some (Some ys, it2)"
    and "decoded_iter it1 < length (ti_decoded it1)"
  shows "Next decompress (n + m) it = Some (Some (xs @ ys), it2)"
proof -
  obtain it0 where p: "Prepare decompress it = Some (True, it0)" "decoded_iter it0 + n \<le> length (ti_decoded it0)"
    and xs: "xs = take n (drop (decoded_iter it0) (ti_decoded it0))" "it1 = it0\<lparr>decoded_iter := decoded_iter it0 + n\<rparr>"
    using assms(1) by (auto simp: Next_def fail_simps split: if_splits)
  have "Prepare decompress it1 = Some (True, it1)"
    using assms(3) by (simp add: Prepare_def)
  then show ?thesis
    using assms(2) p by (auto simp: Next_def xs fail_simps take_add add.assoc add.commute [of n "decoded_iter it0"] split: if_splits)
qed

text \<open>
  \<open>while (iter.NextEvent(...)) body\<close>: the body sees the values behind the pointers.
\<close>

partial_function (option) for_each_event ::
  "decompressor \<Rightarrow> (event_view \<Rightarrow> 's \<Rightarrow> 's option) \<Rightarrow> trace_iter \<Rightarrow> event_ptrs \<Rightarrow> 's \<Rightarrow> 's option"
where
  "for_each_event decompress body it p s =
     Option.bind (NextEvent decompress it p) (\<lambda>(ev, it1).
       case ev of
         None \<Rightarrow> Some s
       | Some (lab, p1) \<Rightarrow>
           Option.bind (body (view_of (ti_decoded it1) lab p1) s)
             (\<lambda>s1. for_each_event decompress body it1 p1 s1))"

declare for_each_event.simps [code]

section \<open>Reading back what was written\<close>

definition block_of :: "trace_event list \<Rightarrow> bytes" where
  "block_of es = concat (map event_bytes es)"

lemma block_of_Cons: "block_of (e # es) = event_bytes e @ block_of es"
  by (simp add: block_of_def)

lemma block_of_Nil [simp]: "block_of [] = []"
  by (simp add: block_of_def)

lemma block_of_ne: "es \<noteq> [] \<Longrightarrow> block_of es \<noteq> []"
  by (cases es) (simp_all add: block_of_Cons event_bytes_ends)

lemma label_of_End [simp]: "label_of e = EndEventLabel \<longleftrightarrow> e = EndEvent"
  by (cases e) (simp_all add: label_defs)

text \<open>Inside a block: the next event is decoded, whatever the pointers were.\<close>

lemma NextEvent_inside:
  assumes "ti_decoded it = pre @ event_bytes e @ post" "decoded_iter it = length pre"
  obtains p' where
    "NextEvent D it p = Some (Some (label_of e, p'),
       it\<lparr>decoded_iter := length pre + length (event_bytes e),
          ti_ended := (if e = EndEvent then True else ti_ended it)\<rparr>)"
    "event_shows (view_of (ti_decoded it) (label_of e) p') e"
proof -
  obtain p' where p': "GetEvent False (pre @ event_bytes e @ post) (length pre) p
      = Some (event_size e, label_of e, p')"
      "event_shows (view_of (pre @ event_bytes e @ post) (label_of e) p') e"
    using GetEvent_written [of False pre e post p] by (auto simp: cursor_def)
  have "length (event_bytes e) > 0"
    using event_bytes_ends(1) by simp
  then have "Prepare D it = Some (True, it)"
    using assms by (simp add: Prepare_def)
  with p' assms that show ?thesis
    by (simp add: NextEvent_def length_event_bytes)
qed

lemma read_block:
  assumes "ti_decoded it = pre @ block_of es" "decoded_iter it = length pre"
  shows "\<exists>views p'. list_all2 event_shows views es \<and> (\<forall>s. for_each_event D body it p s =
     Option.bind (fold_opt body views s) (\<lambda>s'. for_each_event D body
       (it\<lparr>decoded_iter := length (ti_decoded it),
           ti_ended := (EndEvent \<in> set es \<or> ti_ended it)\<rparr>) p' s'))"
  using assms
proof (induction es arbitrary: it pre p)
  case Nil
  then have "it\<lparr>decoded_iter := length (ti_decoded it), ti_ended := ti_ended it\<rparr> = it"
    by (cases it) simp
  then show ?case
    by (intro exI [of _ "[]"] exI [of _ p]) simp
next
  case (Cons e es)
  obtain p1 where p1: "NextEvent D it p = Some (Some (label_of e, p1),
       it\<lparr>decoded_iter := length pre + length (event_bytes e),
          ti_ended := (if e = EndEvent then True else ti_ended it)\<rparr>)"
    and v: "event_shows (view_of (ti_decoded it) (label_of e) p1) e"
    using NextEvent_inside [of it pre e "block_of es" D p] Cons.prems
    by (auto simp: block_of_Cons)
  let ?it = "it\<lparr>decoded_iter := length pre + length (event_bytes e),
      ti_ended := (if e = EndEvent then True else ti_ended it)\<rparr>"
  let ?v = "view_of (ti_decoded it) (label_of e) p1"
  have "ti_decoded ?it = (pre @ event_bytes e) @ block_of es" "decoded_iter ?it = length (pre @ event_bytes e)"
    using Cons.prems by (simp_all add: block_of_Cons)
  from Cons.IH [OF this, of p1] obtain views p' where "list_all2 event_shows views es"
    and rest: "\<And>s. for_each_event D body ?it p1 s =
      Option.bind (fold_opt body views s) (\<lambda>s'. for_each_event D body
       (?it\<lparr>decoded_iter := length (ti_decoded ?it),
           ti_ended := (EndEvent \<in> set es \<or> ti_ended ?it)\<rparr>) p' s')" by blast
  then show ?case
    using v by (intro exI [of _ "?v # views"] exI [of _ p'])
      (auto simp: for_each_event.simps [of D body it p] p1 bind_eq_None_conv
        split: if_splits intro!: Option.bind_cong)
qed

lemma frame_parts:
  assumes "lz4_ok C D" "length b \<le> COMPRESS_BLOCK_SIZE"
  shows "frame C b = w64 (of_nat (length (C b))) @ C b @ w64 (of_nat (length (C b)))"
    and "unat (of_nat (length (C b)) :: u64) = length (C b)"
  using assms by (simp_all add: frame_def Let_def lz4_ok_def unat_of_nat)

text \<open>At the end of a block the next frame is decompressed.\<close>

lemma Prepare_frame:
  assumes ok: "lz4_ok C D" and b: "b \<noteq> []" "length b \<le> COMPRESS_BLOCK_SIZE"
    and it: "ti_trace it = pre @ frame C b @ post" "data_iter it = length pre"
      "decoded_iter it \<ge> length (ti_decoded it)" "\<not> ti_ended it"
  shows "Prepare D it = Some (True, it\<lparr>ti_decoded := b, decoded_iter := 0,
           data_iter := length (pre @ frame C b)\<rparr>)"
proof -
  let ?n = "of_nat (length (C b)) :: u64"
  note f = frame_parts [OF ok b(2)]
  have "r64 (ti_trace it) (data_iter it) = Some ?n"
    using it(1,2) r64_at [of pre "length pre" ?n] by (simp add: f(1))
  moreover have "D (C b) = Some b"
    using ok b(2) by (simp add: lz4_ok_def)
  ultimately show ?thesis
    using it b by (simp add: Prepare_def f require_def)
qed

lemma for_each_event_cong:
  "NextEvent D it p = NextEvent D it' p \<Longrightarrow> for_each_event D body it p s = for_each_event D body it' p s"
  by (simp add: for_each_event.simps [of D body it] for_each_event.simps [of D body it'])

lemma for_each_event_frame:
  assumes "lz4_ok C D" "b \<noteq> []" "length b \<le> COMPRESS_BLOCK_SIZE" "ti_trace it = pre @ frame C b @ post" "data_iter it = length pre"
      "decoded_iter it \<ge> length (ti_decoded it)" "\<not> ti_ended it"
  shows "for_each_event D body it p s = for_each_event D body
    (it\<lparr>ti_decoded := b, decoded_iter := 0, data_iter := length (pre @ frame C b)\<rparr>) p s"
  using Prepare_frame [OF assms] assms(2)
  by (intro for_each_event_cong) (simp add: NextEvent_def Prepare_def [of D "it\<lparr>ti_decoded := b,
    decoded_iter := 0, data_iter := _\<rparr>"])

lemma for_each_event_end:
  assumes "decoded_iter it \<ge> length (ti_decoded it)"
    and "ti_ended it \<or> data_iter it \<ge> length (ti_trace it)"
  shows "for_each_event D body it p s = Some s"
  using assms by (simp add: for_each_event.simps [of D body it] NextEvent_def Prepare_def)

text \<open>
  A whole file whose blocks are whole events and in which an end event, if any, is in the last
  block: the loop runs the body on one view per event, in order, and stops.
\<close>

lemma read_file:
  assumes ok: "lz4_ok C D"
    and it: "ti_trace it = pre @ file_of C (map block_of gs)" "data_iter it = length pre"
      "decoded_iter it \<ge> length (ti_decoded it)" "\<not> ti_ended it"
    and gs: "[] \<notin> set gs" "list_all (\<lambda>g. length (block_of g) \<le> COMPRESS_BLOCK_SIZE) gs"
      "EndEvent \<notin> set (concat (butlast gs))"
  shows "\<exists>views. list_all2 event_shows views (concat gs)
           \<and> (\<forall>s. for_each_event D body it p s = fold_opt body views s)"
  using it gs
proof (induction gs arbitrary: it pre p)
  case Nil
  then show ?case
    by (intro exI [of _ "[]"]) (simp add: file_of_simps for_each_event_end)
next
  case (Cons g gs)
  let ?b = "block_of g"
  let ?it1 = "it\<lparr>ti_decoded := ?b, decoded_iter := 0, data_iter := length (pre @ frame C ?b)\<rparr>"
  have ne: "?b \<noteq> []"
    using Cons.prems(5) block_of_ne [of g] by auto
  have len: "length ?b \<le> COMPRESS_BLOCK_SIZE"
    using Cons.prems(6) by simp
  have tr: "ti_trace it = pre @ frame C ?b @ file_of C (map block_of gs)"
    using Cons.prems(1) by (simp add: file_of_simps)
  have step: "for_each_event D body it p s = for_each_event D body ?it1 p s" for s
    using for_each_event_frame [OF ok ne len tr Cons.prems(2-4)] .
  obtain views p' where v: "list_all2 event_shows views g"
    and blk: "\<And>s. for_each_event D body ?it1 p s = Option.bind (fold_opt body views s)
      (\<lambda>s'. for_each_event D body (?it1\<lparr>decoded_iter := length (ti_decoded ?it1),
           ti_ended := (EndEvent \<in> set g \<or> ti_ended ?it1)\<rparr>) p' s')"
    using read_block [of ?it1 "[]" g D body p] by auto
  let ?it2 = "?it1\<lparr>decoded_iter := length (ti_decoded ?it1),
           ti_ended := (EndEvent \<in> set g \<or> ti_ended ?it1)\<rparr>"
  show ?case
  proof (cases "gs = []")
    case True
    have "for_each_event D body ?it2 p' s' = Some s'" for s'
      using tr True by (intro for_each_event_end) (simp_all add: file_of_simps)
    with step blk v True show ?thesis
      by (intro exI [of _ views]) simp
  next
    case False
    then have "EndEvent \<notin> set g"
      using Cons.prems(7) by simp
    then have "\<exists>views'. list_all2 event_shows views' (concat gs)
        \<and> (\<forall>s. for_each_event D body ?it2 p' s = fold_opt body views' s)"
      using Cons.prems False tr by (intro Cons.IH [of _ "pre @ frame C ?b"]) auto
    then obtain views' where "list_all2 event_shows views' (concat gs)"
      "\<And>s. for_each_event D body ?it2 p' s = fold_opt body views' s" by blast
    with step blk v show ?thesis
      by (intro exI [of _ "views @ views'"]) (simp add: list_all2_appendI fold_opt_append)
  qed
qed

text \<open>A loop that ends has run the body on some views.\<close>

lemma for_each_event_views:
  assumes "for_each_event D body it p s = Some s'"
  obtains vs where "fold_opt body vs s = Some s'"
proof -
  have "\<exists>vs. fold_opt body vs s = Some s'"
    using assms
  proof (induction rule: for_each_event.raw_induct [rotated, consumes 1])
    case (1 rec D body it p s s')
    from 1(2) obtain ev it1 where n: "NextEvent D it p = Some (ev, it1)"
      and r: "(case ev of None \<Rightarrow> Some s | Some (lab, p1) \<Rightarrow>
           Option.bind (body (view_of (ti_decoded it1) lab p1) s) (rec D body it1 p1)) = Some s'"
      by (auto elim!: bind_SomeE)
    show ?case
    proof (cases ev)
      case None
      with r show ?thesis by (intro exI [of _ "[]"]) simp
    next
      case (Some e)
      then obtain lab p1 s1 where "body (view_of (ti_decoded it1) lab p1) s = Some s1"
        "rec D body it1 p1 s1 = Some s'"
        using r by (cases e) (auto elim!: bind_SomeE)
      with 1(1) [of D body it1 p1 s1 s'] show ?thesis
        by (metis bind.bind_lunit fold_opt.simps(2))
    qed
  qed
  with that show thesis by blast
qed

section \<open>Events through a CompressBuffer\<close>

lemma map_concat_split:
  "concat gs = map f es \<Longrightarrow> \<exists>hs. gs = map (map f) hs \<and> concat hs = es"
proof (induction gs arbitrary: es)
  case Nil
  then show ?case by (intro exI [of _ "[]"]) simp
next
  case (Cons g gs)
  then obtain es1 es2 where "es = es1 @ es2" "g = map f es1" "concat gs = map f es2"
    by (auto simp: append_eq_map_conv)
  with Cons.IH [of es2] show ?case
    by (metis concat.simps(2) list.simps(9))
qed

lemma event_size_le: "length (event_bytes e) \<le> COMPRESS_BLOCK_SIZE"
  by (cases e) (simp_all add: length_event_bytes size_defs COMPRESS_BLOCK_SIZE_def)

lemma end_in_last:
  assumes "concat hs = es @ [EndEvent]" "[] \<notin> set hs" "EndEvent \<notin> set es"
  shows "EndEvent \<notin> set (concat (butlast hs))"
proof -
  have ne: "hs \<noteq> []" using assms(1) by auto
  then have "concat (butlast hs) @ last hs = es @ [EndEvent]"
    using assms(1) by (metis append_butlast_last_id concat.simps concat_append append_Nil2)
  moreover have "last hs \<noteq> []"
    using ne assms(2) by (metis last_in_set)
  ultimately have "concat (butlast hs) @ butlast (last hs) = es"
    by (metis butlast_append butlast_snoc)
  then show ?thesis
    using assms(3) by (metis UnCI set_append)
qed

lemma compress_read:
  assumes "lz4_ok C D" "EndEvent \<notin> set es"
  shows "\<exists>cb views. fold_opt (CompressBuffer_Append C) (map event_bytes (es @ [EndEvent])) CompressBuffer_new = Some cb
    \<and> list_all2 event_shows views (es @ [EndEvent])
    \<and> (\<forall>s. for_each_event D body (TraceIter (CompressBuffer_delete C cb)) no_ptrs s = fold_opt body views s)"
proof -
  let ?rs = "map event_bytes (es @ [EndEvent])"
  have "list_all (\<lambda>r. length r \<le> COMPRESS_BLOCK_SIZE) ?rs"
    by (auto simp: list_all_iff event_size_le simp del: event_bytes.simps)
  moreover have "cb_holds C CompressBuffer_new [] (concat [])"
    by (simp add: cb_holds_def CompressBuffer_new_def file_of_simps)
  ultimately obtain cb gs g' where
    run: "fold_opt (CompressBuffer_Append C) ?rs CompressBuffer_new = Some cb"
    and h: "cb_holds C cb (map concat gs) (concat g')" and gs: "concat gs @ g' = ?rs"
    and len: "length (concat g') \<le> COMPRESS_BLOCK_SIZE"
      "list_all (\<lambda>h. h \<noteq> [] \<and> length (concat h) \<le> COMPRESS_BLOCK_SIZE) gs" "g' \<noteq> []"
    using cbuf.emit_all [of C CompressBuffer_new "[]" "[]" ?rs] by auto
  obtain hs where hs: "gs @ [g'] = map (map event_bytes) hs" "concat hs = es @ [EndEvent]"
    using map_concat_split [of "gs @ [g']" event_bytes "es @ [EndEvent]"] gs by auto
  have blocks: "map concat (gs @ [g']) = map block_of hs"
    using hs(1) by (simp add: block_of_def)
  have ne: "hs \<noteq> []" "[] \<notin> set hs"
  proof -
    show "hs \<noteq> []" using hs(2) by auto
    have "[] \<notin> set (gs @ [g'])"
      using len by (auto simp: list_all_iff)
    then show "[] \<notin> set hs"
      unfolding hs(1) by force
  qed
  have no_end: "EndEvent \<notin> set (concat (butlast hs))"
    by (rule end_in_last [OF hs(2) ne(2) assms(2)])
  have bounded: "list_all (\<lambda>g. length (block_of g) \<le> COMPRESS_BLOCK_SIZE) hs"
  proof -
    have "list_all (\<lambda>b. length b \<le> COMPRESS_BLOCK_SIZE) (map concat (gs @ [g']))"
      using len by (auto simp: list_all_iff)
    then show ?thesis
      unfolding blocks by (simp add: list.pred_map comp_def)
  qed
  have written: "CompressBuffer_delete C cb = file_of C (map block_of hs)"
    using h unfolding blocks [symmetric]
    by (simp add: CompressBuffer_delete_def cb_holds_def file_of_append file_of_simps)
  obtain views where "list_all2 event_shows views (concat hs)"
    "\<And>s. for_each_event D body (TraceIter (CompressBuffer_delete C cb)) no_ptrs s = fold_opt body views s"
    using read_file [OF assms(1), of "TraceIter (CompressBuffer_delete C cb)" "[]" hs body no_ptrs]
      ne no_end bounded by (auto simp: TraceIter_def written)
  with run hs(2) show ?thesis by auto
qed

end
