(* ===== verification/PinTool.thy ===== *)
theory PinTool
  imports TraceIO
begin

text \<open>
  The PIN tool (\<open>tools/PinTool/PinTrace.cpp\<close>): which calls it instruments, and the three analysis
  routines that count each thread's depth of external calls and log the outermost calls, their
  returns and the system calls made inside them. PIN itself, the symbol reader and the images are
  external; \<open>ImageLoad\<close> is given the routines of the image.
\<close>

section \<open>Which calls are instrumented\<close>

text \<open>The fourteenth name carries a typographic quote (three bytes of UTF-8) in the source.\<close>

definition notTrace :: "string \<Rightarrow> bool" where
  "notTrace name \<longleftrightarrow> List.member
     [''slimmerCtor'', ''recordInit'', ''recordAddLock'', ''recordBasicBlockEvent'',
      ''recordMemoryEvent'', ''recordStoreEvent'', ''recordCallEvent'', ''recordReturnEvent'',
      ''recordArgumentEvent'', ''recordMemset'', ''recordMemmove'', ''memcpy'',
      ''memmove'' @ [CHR 0xE2, CHR 0x80, CHR 0x98], ''memset'', ''sqrt'', ''powi'', ''sin'',
      ''cos'', ''pow'', ''exp'', ''exp2'', ''log'', ''log10'', ''log2'', ''fma'', ''fabs'',
      ''copysign'', ''floor'', ''ceil'', ''trunc'', ''rint'', ''nearbyint'', ''round'', ''memset'']
     name"

text \<open>\<open>Symbols\<close>: \<open>operator[]\<close> gives the empty string for an address without a symbol.\<close>

type_synonym symbols = "u64 \<Rightarrow> string"

definition getSymbols :: "(u64 \<times> string) list \<Rightarrow> u64 \<Rightarrow> symbols \<Rightarrow> symbols" where
  "getSymbols readelf start Symbols =
     fold (\<lambda>(addr, fun_name) S. S(addr + start := fun_name)) readelf Symbols"

text \<open>An instruction as \<open>ImageLoad\<close> sees it, and the calls it inserts.\<close>

record pin_ins =
  INS_IsCall :: bool
  DirectTarget :: "u64 option" \<comment> \<open>\<open>None\<close>: an indirect branch or call\<close>

datatype inserted = InsertBefore nat nat u64 | InsertAfter nat nat u64

fun instrument_ins ::
  "symbols \<Rightarrow> string set \<Rightarrow> nat \<Rightarrow> nat \<Rightarrow> pin_ins list \<Rightarrow> inserted list" where
  "instrument_ins Symbols instrumentedFun r i [] = []"
| "instrument_ins Symbols instrumentedFun r i (x # xs) =
     (case (INS_IsCall x, DirectTarget x) of
        (True, Some target) \<Rightarrow>
          (if notTrace (Symbols target) \<or> Symbols target \<in> instrumentedFun then []
           else if xs \<noteq> [] then [InsertBefore r i target, InsertAfter r (i + 1) target] else [])
      | _ \<Rightarrow> [])
     @ instrument_ins Symbols instrumentedFun r (i + 1) xs"

definition ImageLoad ::
  "symbols \<Rightarrow> string set \<Rightarrow> (u64 \<times> string) list \<Rightarrow> u64 \<Rightarrow> (string \<times> pin_ins list) list \<Rightarrow>
     symbols \<times> inserted list" where
  "ImageLoad Symbols instrumentedFun readelf offset rtns =
     (let S = getSymbols readelf offset Symbols in
      (S, concat (map (\<lambda>(r, name, body).
            if notTrace name \<or> name \<notin> instrumentedFun then []
            else instrument_ins S instrumentedFun r 0 body) (enumerate 0 rtns))))"

section \<open>The records of the PIN trace\<close>

datatype pin_event = CallEvent u64 u64 | PinReturnEvent u64 u64 | SyscallEvent u64

fun pin_bytes :: "pin_event \<Rightarrow> bytes" where
  "pin_bytes (CallEvent tid fn) =
     CallEventLabel # w64 tid @ replicate 56 0 @ w64 fn @ replicate 56 0 @ [CallEventLabel]"
| "pin_bytes (PinReturnEvent tid fn) =
     ReturnEventLabel # w64 tid @ replicate 56 0 @ w64 fn @ replicate 56 0 @ [ReturnEventLabel]"
| "pin_bytes (SyscallEvent tid) =
     SyscallEventLabel # w64 tid @ replicate 56 0 @ [SyscallEventLabel]"

section \<open>The analysis routines\<close>

text \<open>\<open>pdepth\<close> holds an \<open>int\<close>; overflowing it takes two thousand million nested calls.\<close>

record pin_state =
  pdepth :: "u64 \<Rightarrow> int"
  pin_event_buffer :: event_buffer

definition pin_append :: "compressor \<Rightarrow> pin_event \<Rightarrow> pin_state \<Rightarrow> pin_state option" where
  "pin_append compress ev st = do {
     eb \<leftarrow> EventBuffer_Append compress (pin_bytes ev) (pin_event_buffer st);
     Some (st\<lparr>pin_event_buffer := eb\<rparr>)
   }"

definition BeforeCall :: "compressor \<Rightarrow> u64 \<Rightarrow> u64 \<Rightarrow> pin_state \<Rightarrow> pin_state option" where
  "BeforeCall compress tid fn st =
     (let st1 = st\<lparr>pdepth := (pdepth st)(tid := pdepth st tid + 1)\<rparr> in
      if pdepth st1 tid = 1 then pin_append compress (CallEvent tid fn) st1 else Some st1)"

definition AfterCall :: "compressor \<Rightarrow> u64 \<Rightarrow> u64 \<Rightarrow> pin_state \<Rightarrow> pin_state option" where
  "AfterCall compress tid fn st =
     (let st1 = st\<lparr>pdepth := (pdepth st)(tid := pdepth st tid - 1)\<rparr> in
      if pdepth st1 tid = 0 then pin_append compress (PinReturnEvent tid fn) st1 else Some st1)"

definition SyscallEntry :: "compressor \<Rightarrow> u64 \<Rightarrow> pin_state \<Rightarrow> pin_state option" where
  "SyscallEntry compress tid st =
     (if pdepth st tid = 0 then Some st else pin_append compress (SyscallEvent tid) st)"

text \<open>What the traced program does, thread by thread, as PIN reports it.\<close>

datatype pin_action = Before u64 u64 | After u64 u64 | Syscall u64

fun pin_step :: "compressor \<Rightarrow> pin_action \<Rightarrow> pin_state \<Rightarrow> pin_state option" where
  "pin_step compress (Before tid fn) st = BeforeCall compress tid fn st"
| "pin_step compress (After tid fn) st = AfterCall compress tid fn st"
| "pin_step compress (Syscall tid) st = SyscallEntry compress tid st"

definition pin_init :: pin_state where
  "pin_init = \<lparr>pdepth = (\<lambda>_. 0), pin_event_buffer = EventBuffer_Init\<rparr>"

text \<open>A whole run: the file after \<open>Fini\<close>.\<close>

definition pin_run :: "compressor \<Rightarrow> pin_action list \<Rightarrow> bytes option" where
  "pin_run compress acts = do {
     st \<leftarrow> fold_opt (pin_step compress) acts pin_init;
     eb \<leftarrow> EventBuffer_Close compress (pin_event_buffer st);
     Some (eb_stream eb)
   }"

section \<open>The log\<close>

text \<open>The events a run logs, and the depths it ends with.\<close>

fun logged :: "(u64 \<Rightarrow> int) \<Rightarrow> pin_action list \<Rightarrow> pin_event list" where
  "logged d [] = []"
| "logged d (Before t f # as) =
     (if d t = 0 then [CallEvent t f] else []) @ logged (d(t := d t + 1)) as"
| "logged d (After t f # as) =
     (if d t = 1 then [PinReturnEvent t f] else []) @ logged (d(t := d t - 1)) as"
| "logged d (Syscall t # as) = (if d t = 0 then [] else [SyscallEvent t]) @ logged d as"

lemma pin_steps_log:
  "fold_opt (pin_step C) as st = Option.bind
     (fold_opt (EventBuffer_Append C) (map pin_bytes (logged (pdepth st) as)) (pin_event_buffer st))
     (\<lambda>eb. Some \<lparr>pdepth = fold (\<lambda>a d. case a of Before t f \<Rightarrow> d(t := d t + 1)
              | After t f \<Rightarrow> d(t := d t - 1) | Syscall t \<Rightarrow> d) as (pdepth st),
            pin_event_buffer = eb\<rparr>)"
proof (induction as arbitrary: st)
  case (Cons a as)
  then show ?case
    by (cases a) (auto simp: BeforeCall_def AfterCall_def SyscallEntry_def pin_append_def Let_def
        fun_upd_def intro!: Option.bind_cong)
qed simp

lemma length_pin_bytes: "length (pin_bytes e) \<le> 130" "pin_bytes e \<noteq> []"
  by (cases e; simp)+

text \<open>The file holds the log, split into blocks at event boundaries, and the end event.\<close>

lemma pin_run_file:
  obtains gs where "pin_run C as = Some (file_of C (map concat gs))"
    "concat gs = map pin_bytes (logged (\<lambda>_. 0) as) @ [[EndEventLabel]]"
    "list_all (\<lambda>g. length (concat g) \<le> COMPRESS_BLOCK_SIZE) gs"
proof -
  let ?rs = "map pin_bytes (logged (\<lambda>_. 0) as)"
  have "list_all (\<lambda>r. length r \<le> COMPRESS_BLOCK_SIZE) (?rs @ [[EndEventLabel]])"
    by (auto simp: list_all_iff COMPRESS_BLOCK_SIZE_def intro: order_trans [OF length_pin_bytes(1)])
  moreover have "eb_holds C EventBuffer_Init [] (concat [])"
    by (simp add: eb_holds_def EventBuffer_Init_def file_of_simps)
  ultimately obtain s' gs g' where
    run: "fold_opt (EventBuffer_Append C) (?rs @ [[EndEventLabel]]) EventBuffer_Init = Some s'"
    and h: "eb_holds C s' ([] @ map (\<lambda>h. concat h @ []) gs) (concat g')"
    and gs: "concat gs @ g' = [] @ ?rs @ [[EndEventLabel]]" "length (concat g') \<le> COMPRESS_BLOCK_SIZE"
      "list_all (\<lambda>h. h \<noteq> [] \<and> length (concat h @ []) \<le> COMPRESS_BLOCK_SIZE) gs"
    using ebuf.emit_all [of C EventBuffer_Init "[]" "[]" "?rs @ [[EndEventLabel]]"] by auto
  obtain s1 where s1: "fold_opt (EventBuffer_Append C) ?rs EventBuffer_Init = Some s1"
    "EventBuffer_Append C [EndEventLabel] s1 = Some s'"
    using run by (auto simp: fold_opt_append bind_Some_iff)
  have "eb_inited s1"
    using s1(2) h by (auto simp: EventBuffer_Append_def Let_def eb_holds_def fail_simps split: if_splits)
  then have "pin_run C as = Some (file_of C (map concat (gs @ [g'])))"
    using s1 h
    by (simp add: pin_run_def pin_steps_log pin_init_def EventBuffer_Close_def eb_holds_def
        file_of_append file_of_simps)
  then show ?thesis
    by (rule that) (use gs in \<open>auto simp: list_all_iff\<close>)
qed

end
