(* ===== verification/ImpactfulFunCall.thy ===== *)
theory ImpactfulFunCall
  imports PinTool
begin

text \<open>
  \<open>ExtractImpactfulFunCall\<close> (\<open>tools/PrintBug/ExtractImpactfulFunCall.cpp\<close>): reads the PIN tool's
  file and collects the external functions during whose outermost call a system call was made.
  The lemmas relate its per-thread stack of functions to the calls the traced program made.
\<close>

section \<open>The reader\<close>

text \<open>A \<open>stack\<close> is a list with the top first; \<open>operator[]\<close> creates an empty stack or count.\<close>

record fun_state =
  fun_stack :: "u64 \<Rightarrow> (u64 \<times> u32) list"
  FunCount :: "u64 \<times> u64 \<Rightarrow> u32"
  impactful_fun_call :: "u64 set"
  fs_ended :: bool

definition push_call :: "u64 \<Rightarrow> u64 \<Rightarrow> fun_state \<Rightarrow> fun_state" where
  "push_call tid fn s =
     s\<lparr>fun_stack := (fun_stack s)(tid := (fn, FunCount s (tid, fn)) # fun_stack s tid),
       FunCount := (FunCount s)((tid, fn) := FunCount s (tid, fn) + 1)\<rparr>"

text \<open>The \<open>while\<close> loop pops until the returning function is on top; then it is popped too.\<close>

definition pop_return :: "u64 \<Rightarrow> u64 \<Rightarrow> fun_state \<Rightarrow> fun_state" where
  "pop_return tid fn s =
     s\<lparr>fun_stack := (fun_stack s)(tid :=
         (case dropWhile (\<lambda>e. fst e \<noteq> fn) (fun_stack s tid) of [] \<Rightarrow> [] | _ # r \<Rightarrow> r))\<rparr>"

definition see_syscall :: "u64 \<Rightarrow> fun_state \<Rightarrow> fun_state" where
  "see_syscall tid s =
     (case fun_stack s tid of
        [] \<Rightarrow> s
      | (fn, _) # _ \<Rightarrow> s\<lparr>impactful_fun_call := insert fn (impactful_fun_call s)\<rparr>)"

text \<open>One round of the inner loop. An unknown label matches no case and leaves \<open>cur\<close> alone.\<close>

definition fun_event :: "bytes \<Rightarrow> nat \<Rightarrow> fun_state \<Rightarrow> (nat \<times> fun_state) option" where
  "fun_event buffer cur s = do {
     lab \<leftarrow> at buffer cur;
     (if lab = EndEventLabel then Some (cur + 1, s\<lparr>fs_ended := True\<rparr>)
      else if lab = CallEventLabel then do {
        tid \<leftarrow> r64 buffer (cur + 1);
        fn \<leftarrow> r64 buffer (cur + 65);
        Some (cur + 130, push_call tid fn s)
      }
      else if lab = ReturnEventLabel then do {
        tid \<leftarrow> r64 buffer (cur + 1);
        fn \<leftarrow> r64 buffer (cur + 65);
        Some (cur + 130, pop_return tid fn s)
      }
      else if lab = SyscallEventLabel then do {
        tid \<leftarrow> r64 buffer (cur + 1);
        Some (cur + 66, see_syscall tid s)
      }
      else Some (cur, s))
   }"

partial_function (option) fun_block :: "bytes \<Rightarrow> nat \<Rightarrow> fun_state \<Rightarrow> fun_state option" where
  "fun_block buffer cur s =
     (if fs_ended s \<or> cur \<ge> length buffer then Some s
      else Option.bind (fun_event buffer cur s) (\<lambda>(cur', s'). fun_block buffer cur' s'))"

declare fun_block.simps [code]

text \<open>The outer loop over the frames of the file.\<close>

partial_function (option) fun_frames ::
  "decompressor \<Rightarrow> bytes \<Rightarrow> nat \<Rightarrow> fun_state \<Rightarrow> fun_state option" where
  "fun_frames decompress data i s =
     (if fs_ended s \<or> i \<ge> length data then Some s
      else do {
        len \<leftarrow> r64 data i;
        require (i + 8 + unat len \<le> length data);
        buffer \<leftarrow> decompress (take (unat len) (drop (i + 8) data));
        s' \<leftarrow> fun_block buffer 0 s;
        fun_frames decompress data (i + 8 + unat len + 8) s'
      })"

declare fun_frames.simps [code]

definition fun_init :: fun_state where
  "fun_init = \<lparr>fun_stack = (\<lambda>_. []), FunCount = (\<lambda>_. 0), impactful_fun_call = {}, fs_ended = False\<rparr>"

definition ExtractImpactfulFunCall :: "decompressor \<Rightarrow> bytes \<Rightarrow> u64 set option" where
  "ExtractImpactfulFunCall decompress trace =
     map_option impactful_fun_call (fun_frames decompress trace 0 fun_init)"

section \<open>Reading the log back\<close>

fun fun_apply :: "pin_event \<Rightarrow> fun_state \<Rightarrow> fun_state" where
  "fun_apply (CallEvent t f) s = push_call t f s"
| "fun_apply (PinReturnEvent t f) s = pop_return t f s"
| "fun_apply (SyscallEvent t) s = see_syscall t s"

lemma fun_apply_ended [simp]: "fs_ended (fun_apply e s) = fs_ended s"
  by (cases e) (auto simp: push_call_def pop_return_def see_syscall_def split: list.splits)

lemma fold_fun_apply_ended [simp]: "fs_ended (fold fun_apply es s) = fs_ended s"
  by (induction es arbitrary: s) simp_all

lemma r_skip_zeros: "k \<le> i \<Longrightarrow> r64 (replicate k z @ buf) i = r64 buf (i - k)"
  using r64_skip [of "replicate k z" buf "i - k"] by simp

text \<open>One record, or the end event, at the cursor.\<close>

lemma fun_event_record:
  "fun_event (pre @ pin_bytes e @ post) (length pre) s
     = Some (length (pre @ pin_bytes e), fun_apply e s)"
  by (cases e) (simp_all add: fun_event_def at_middle label_defs r_here r_skip_w r_skip_zeros)

lemma fun_event_end:
  "fun_event (pre @ [EndEventLabel] @ post) (length pre) s = Some (length pre + 1, s\<lparr>fs_ended := True\<rparr>)"
  by (simp add: fun_event_def at_middle)

lemma fun_block_records:
  assumes "\<not> fs_ended s"
  shows "fun_block (pre @ concat (map pin_bytes es) @ post) (length pre) s
    = fun_block (pre @ concat (map pin_bytes es) @ post) (length (pre @ concat (map pin_bytes es)))
        (fold fun_apply es s)"
  using assms
proof (induction es arbitrary: pre s)
  case (Cons e es)
  let ?buf = "pre @ concat (map pin_bytes (e # es)) @ post"
  have "length pre < length ?buf"
    using length_pin_bytes(2) [of e] by simp
  then have "fun_block ?buf (length pre) s = fun_block ?buf (length (pre @ pin_bytes e)) (fun_apply e s)"
    using Cons.prems fun_event_record [of pre e "concat (map pin_bytes es) @ post" s]
    using length_pin_bytes(2) [of e] by (subst fun_block.simps) simp
  also have "\<dots> = fun_block ?buf (length (pre @ concat (map pin_bytes (e # es))))
      (fold fun_apply es (fun_apply e s))"
    using Cons.IH [of "fun_apply e s" "pre @ pin_bytes e"] Cons.prems by simp
  finally show ?case by simp
qed simp

lemma fun_block_whole:
  assumes "\<not> fs_ended s"
  shows "fun_block (concat (map pin_bytes es)) 0 s = Some (fold fun_apply es s)"
  using fun_block_records [OF assms, of "[]" es "[]"]
  by (simp add: fun_block.simps [of "concat (map pin_bytes es)" "length _"])

lemma fun_block_last:
  assumes "\<not> fs_ended s"
  shows "fun_block (concat (map pin_bytes es) @ [EndEventLabel]) 0 s
    = Some ((fold fun_apply es s)\<lparr>fs_ended := True\<rparr>)"
  using fun_block_records [OF assms, of "[]" es "[EndEventLabel]"] assms
    fun_event_end [of "concat (map pin_bytes es)" "[]" "fold fun_apply es s"]
  by (simp add: fun_block.simps [of _ "length _"] fun_block.simps [of _ "Suc _"])

text \<open>One frame of the file.\<close>

lemma fun_frames_step:
  assumes "lz4_ok C D" "length b \<le> COMPRESS_BLOCK_SIZE" "\<not> fs_ended s"
  shows "fun_frames D (pre @ frame C b @ post) (length pre) s
    = Option.bind (fun_block b 0 s)
        (\<lambda>s'. fun_frames D (pre @ frame C b @ post) (length (pre @ frame C b)) s')"
proof -
  let ?n = "of_nat (length (C b)) :: u64"
  let ?data = "pre @ frame C b @ post"
  note f = frame_parts [OF assms(1,2)]
  have "r64 ?data (length pre) = Some ?n"
    using r64_at [of pre "length pre" ?n] by (simp add: f(1))
  moreover have "D (C b) = Some b"
    using assms by (simp add: lz4_ok_def)
  moreover have "length pre < length ?data"
    by (simp add: f(1))
  ultimately show ?thesis
    using assms(3) by (subst fun_frames.simps) (simp add: f require_def add.assoc)
qed

lemma fun_frames_file:
  assumes "lz4_ok C D" "list_all (\<lambda>g. length (concat g) \<le> COMPRESS_BLOCK_SIZE) gs"
    and "concat gs = map pin_bytes es @ [[EndEventLabel]]" "\<not> fs_ended s"
  shows "fun_frames D (pre @ file_of C (map concat gs)) (length pre) s
    = Some ((fold fun_apply es s)\<lparr>fs_ended := True\<rparr>)"
  using assms(2-)
proof (induction gs arbitrary: pre s es)
  case (Cons g gs)
  let ?data = "pre @ file_of C (map concat (g # gs))"
  have step: "fun_frames D ?data (length pre) s
    = Option.bind (fun_block (concat g) 0 s)
        (\<lambda>s'. fun_frames D ?data (length (pre @ frame C (concat g))) s')"
    using fun_frames_step [OF assms(1), of "concat g" s pre "file_of C (map concat gs)"] Cons.prems
    by (simp add: file_of_simps)
  from Cons.prems(2) consider (more) us where "map pin_bytes es = g @ us" "concat gs = us @ [[EndEventLabel]]"
    | (last) "g = map pin_bytes es @ [[EndEventLabel]]"
    by (auto simp: append_eq_append_conv2 append_eq_Cons_conv) (metis append_eq_conv_conj)
  then show ?case
  proof cases
    case more
    then obtain es1 es2 where es: "es = es1 @ es2" "g = map pin_bytes es1" "us = map pin_bytes es2"
      by (auto simp: map_eq_append_conv)
    have "fun_frames D ?data (length (pre @ frame C (concat g))) (fold fun_apply es1 s)
      = Some ((fold fun_apply es2 (fold fun_apply es1 s))\<lparr>fs_ended := True\<rparr>)"
      using Cons.IH [of es2 "fold fun_apply es1 s" "pre @ frame C (concat g)"] Cons.prems more es
      by (simp add: file_of_simps)
    then show ?thesis
      using step es fun_block_whole [OF Cons.prems(3), of es1] by simp
  next
    case last
    then show ?thesis
      using step fun_block_last [OF Cons.prems(3), of es] by (simp add: fun_frames.simps [of D])
  qed
qed simp

section \<open>Which functions are found\<close>

text \<open>
  The declarative reading. The depth of a thread after some actions, and the outermost external
  call it is in: the last one it entered from depth zero, while it has not returned to it.
\<close>

fun depth_of :: "u64 \<Rightarrow> pin_action \<Rightarrow> int" where
  "depth_of t (Before u f) = (if u = t then 1 else 0)"
| "depth_of t (After u f) = (if u = t then - 1 else 0)"
| "depth_of t (Syscall u) = 0"

definition depth :: "pin_action list \<Rightarrow> u64 \<Rightarrow> int" where
  "depth as t = (\<Sum>a\<leftarrow>as. depth_of t a)"

definition outermost :: "pin_action list \<Rightarrow> u64 \<Rightarrow> u64 \<Rightarrow> bool" where
  "outermost as t f \<longleftrightarrow> (\<exists>as1 as2. as = as1 @ Before t f # as2 \<and> depth as1 t = 0
     \<and> (\<forall>i\<le>length as2. 0 < depth (as1 @ Before t f # take i as2) t))"

definition impactful_calls :: "pin_action list \<Rightarrow> u64 set" where
  "impactful_calls as =
     {f. \<exists>as1 t as2. as = as1 @ Syscall t # as2 \<and> outermost as1 t f}"

lemma depth_simps [simp]:
  "depth [] t = 0" "depth (as @ [a]) t = depth as t + depth_of t a"
  "depth (a # as) t = depth_of t a + depth as t"
  by (simp_all add: depth_def)

text \<open>How one more action changes the outermost call.\<close>

lemma outermost_Nil: "\<not> outermost [] t f"
  by (simp add: outermost_def)

lemma outermost_snoc:
  "outermost (as @ [a]) t f \<longleftrightarrow>
     (a = Before t f \<and> depth as t = 0) \<or> (outermost as t f \<and> 0 < depth (as @ [a]) t)"
proof
  assume "outermost (as @ [a]) t f"
  then obtain as1 as2 where s: "as @ [a] = as1 @ Before t f # as2" "depth as1 t = 0"
    and pos: "\<And>i. i \<le> length as2 \<Longrightarrow> 0 < depth (as1 @ Before t f # take i as2) t"
    by (auto simp: outermost_def)
  show "(a = Before t f \<and> depth as t = 0) \<or> (outermost as t f \<and> 0 < depth (as @ [a]) t)"
  proof (cases as2 rule: rev_cases)
    case Nil
    with s show ?thesis by simp
  next
    case (snoc as2' b)
    with s have as: "as = as1 @ Before t f # as2'" "a = b" by simp_all
    have "0 < depth (as1 @ Before t f # take i as2') t" if "i \<le> length as2'" for i
      using pos [of i] that snoc by simp
    then have "outermost as t f"
      using as s(2) by (auto simp: outermost_def)
    moreover have "0 < depth (as @ [a]) t"
      using pos [of "length as2"] s(1) by simp
    ultimately show ?thesis by simp
  qed
next
  assume "(a = Before t f \<and> depth as t = 0) \<or> (outermost as t f \<and> 0 < depth (as @ [a]) t)"
  then show "outermost (as @ [a]) t f"
  proof
    assume "a = Before t f \<and> depth as t = 0"
    then show ?thesis
      unfolding outermost_def by (intro exI [of _ as] exI [of _ "[]"]) simp
  next
    assume o: "outermost as t f \<and> 0 < depth (as @ [a]) t"
    then obtain as1 as2 where s: "as = as1 @ Before t f # as2" "depth as1 t = 0"
      and pos: "\<And>i. i \<le> length as2 \<Longrightarrow> 0 < depth (as1 @ Before t f # take i as2) t"
      by (auto simp: outermost_def)
    have "0 < depth (as1 @ Before t f # take i (as2 @ [a])) t" if "i \<le> length (as2 @ [a])" for i
      using pos [of i] that o s by (cases "i \<le> length as2") (auto simp: not_le)
    then show ?thesis
      unfolding outermost_def using s by (intro exI [of _ as1] exI [of _ "as2 @ [a]"]) simp
  qed
qed

lemma impactful_calls_snoc:
  "impactful_calls (as @ [a]) =
     impactful_calls as \<union> (case a of Syscall t \<Rightarrow> {f. outermost as t f} | _ \<Rightarrow> {})"
proof -
  have "(\<exists>as1 t as2. as @ [a] = as1 @ Syscall t # as2 \<and> P as1 t) \<longleftrightarrow>
      (\<exists>as1 t as2. as = as1 @ Syscall t # as2 \<and> P as1 t) \<or> (\<exists>t. a = Syscall t \<and> P as t)" for P
    by (auto simp: append_eq_append_conv2 append_eq_Cons_conv Cons_eq_append_conv; blast)
  then show ?thesis
    by (auto simp: impactful_calls_def split: pin_action.splits)
qed

text \<open>
  The reader's state after the log of some actions: a thread's stack is its outermost call alone.
\<close>

definition stack_ok :: "pin_action list \<Rightarrow> u64 \<Rightarrow> (u64 \<times> u32) list \<Rightarrow> bool" where
  "stack_ok as t stk \<longleftrightarrow>
     (if 0 < depth as t then (\<exists>f k. stk = [(f, k)] \<and> (\<forall>g. outermost as t g \<longleftrightarrow> g = f))
      else stk = [] \<and> (\<forall>g. \<not> outermost as t g))"

definition tracks :: "pin_action list \<Rightarrow> fun_state \<Rightarrow> bool" where
  "tracks as s \<longleftrightarrow>
     impactful_fun_call s = impactful_calls as \<and> (\<forall>t. stack_ok as t (fun_stack s t))"

lemma logged_append:
  "logged d (as @ bs) = logged d as @ logged (\<lambda>t. d t + depth as t) bs"
proof (induction as arbitrary: d)
  case (Cons a as)
  have "(\<lambda>t. (d(u := d u + k)) t + depth as t) = (\<lambda>t. d t + ((if u = t then k else 0) + depth as t))"
    for u k by auto
  from this [of _ 1] this [of _ "- 1"] show ?case
    using Cons by (cases a) (simp_all add: fun_upd_def)
qed (simp add: depth_def)

lemma stack_ok_other:
  "stack_ok as t stk \<Longrightarrow> depth_of t a = 0 \<Longrightarrow> (\<And>f. a \<noteq> Before t f) \<Longrightarrow> stack_ok (as @ [a]) t stk"
  unfolding stack_ok_def outermost_snoc by (auto split: if_splits)

lemma stack_ok_Before:
  assumes "stack_ok as t stk"
  shows "depth as t = 0 \<Longrightarrow> stack_ok (as @ [Before t f]) t ((f, k) # stk)"
    and "depth as t \<noteq> 0 \<Longrightarrow> stack_ok (as @ [Before t f]) t stk"
  using assms unfolding stack_ok_def outermost_snoc by (auto split: if_splits)

lemma stack_ok_After:
  assumes "stack_ok as t stk"
  shows "depth as t = 1 \<Longrightarrow> stack_ok (as @ [After t f]) t
      (case dropWhile (\<lambda>e. fst e \<noteq> f) stk of [] \<Rightarrow> [] | _ # r \<Rightarrow> r)"
    and "depth as t \<noteq> 1 \<Longrightarrow> stack_ok (as @ [After t f]) t stk"
  using assms unfolding stack_ok_def outermost_snoc by (auto split: if_splits)

text \<open>Every action, with what it logs, keeps the reader in step.\<close>

lemma tracks_step:
  assumes "tracks as s"
  shows "tracks (as @ [a]) (fold fun_apply (logged (depth as) [a]) s)"
proof -
  have imp: "impactful_fun_call s = impactful_calls as" and stk: "stack_ok as t (fun_stack s t)" for t
    using assms by (simp_all add: tracks_def)
  show ?thesis
  proof (cases a)
    case (Before u g)
    have "t = u \<or> stack_ok (as @ [a]) t (fun_stack s t)" for t
      by (cases "t = u") (use stack_ok_other [OF stk, of t a] Before in auto)
    with stack_ok_Before [OF stk [of u]] Before
    have "stack_ok (as @ [a]) t (fun_stack (fold fun_apply (logged (depth as) [a]) s) t)" for t
      by (cases "t = u") (auto simp: push_call_def)
    then show ?thesis
      using imp Before by (auto simp: tracks_def impactful_calls_snoc push_call_def)
  next
    case (After u g)
    have "t = u \<or> stack_ok (as @ [a]) t (fun_stack s t)" for t
      by (cases "t = u") (use stack_ok_other [OF stk, of t a] After in auto)
    with stack_ok_After [OF stk [of u]] After
    have "stack_ok (as @ [a]) t (fun_stack (fold fun_apply (logged (depth as) [a]) s) t)" for t
      by (cases "t = u") (auto simp: pop_return_def)
    then show ?thesis
      using imp After by (auto simp: tracks_def impactful_calls_snoc pop_return_def)
  next
    case (Syscall u)
    have "stack_ok (as @ [a]) t (fun_stack s t)" for t
      using stk Syscall by (intro stack_ok_other) auto
    then have "stack_ok (as @ [a]) t (fun_stack (fold fun_apply (logged (depth as) [a]) s) t)" for t
      using Syscall by (simp add: see_syscall_def split: list.splits)
    moreover have "impactful_fun_call (fold fun_apply (logged (depth as) [a]) s)
        = impactful_calls as \<union> {f. outermost as u f}"
      using imp stk [of u] Syscall
      by (auto simp: see_syscall_def stack_ok_def split: list.splits if_splits)
    ultimately show ?thesis
      using Syscall by (simp add: tracks_def impactful_calls_snoc)
  qed
qed

lemma tracks_log: "tracks as (fold fun_apply (logged (\<lambda>_. 0) as) fun_init)"
proof (induction as rule: rev_induct)
  case Nil
  then show ?case
    by (simp add: tracks_def stack_ok_def fun_init_def impactful_calls_def outermost_Nil)
next
  case (snoc a as)
  then show ?case
    using tracks_step [OF snoc] by (simp add: logged_append)
qed

text \<open>From the program's actions, through the file, to the result.\<close>

lemma extract_run:
  assumes "lz4_ok C D" "pin_run C as = Some file"
  shows "ExtractImpactfulFunCall D file = Some (impactful_calls as)"
proof -
  obtain gs where gs: "pin_run C as = Some (file_of C (map concat gs))"
    "concat gs = map pin_bytes (logged (\<lambda>_. 0) as) @ [[EndEventLabel]]"
    "list_all (\<lambda>g. length (concat g) \<le> COMPRESS_BLOCK_SIZE) gs"
    by (rule pin_run_file)
  have "fun_frames D file 0 fun_init
      = Some ((fold fun_apply (logged (\<lambda>_. 0) as) fun_init)\<lparr>fs_ended := True\<rparr>)"
    using fun_frames_file [OF assms(1) gs(3,2), of fun_init "[]"] gs(1) assms(2)
    by (simp add: fun_init_def)
  then show ?thesis
    using tracks_log [of as] by (simp add: ExtractImpactfulFunCall_def tracks_def)
qed

lemma pin_run_total: "\<exists>file. pin_run C as = Some file"
  by (rule pin_run_file [of C as]) blast

end
