(* ===== verification/MergeTrace.thy ===== *)
theory MergeTrace
  imports TraceIO Tools "HOL-Library.Mapping" "HOL-Library.AList_Mapping"
begin

text \<open>
  \<open>MergeTrace\<close> (\<open>tools/PrintBug/MergeTrace.cpp\<close>): from the event log to the list of
  \<open>SmallestBlock\<close>s. Every thread has a stack of the basic blocks it is executing; an event moves
  the top of its thread's stack forward, and the instructions that log nothing are then executed up
  to the next one that does.

  Tables have fewer than \<open>2^31\<close> basic blocks, so the \<open>int32_t\<close> block numbers of \<open>StackInfo\<close> are
  non-negative; \<open>-1\<close> stands for no block and is never used as an index.
\<close>

section \<open>State\<close>

record stack_info =
  si_BBID :: i32
  si_LastBBID :: i32
  CurIndex :: u32

definition StackInfo :: "i32 \<Rightarrow> i32 \<Rightarrow> u32 \<Rightarrow> stack_info" where
  "StackInfo bb_id last_bb_id cur_index =
     \<lparr>si_BBID = bb_id, si_LastBBID = last_bb_id, CurIndex = cur_index\<rparr>"

text \<open>
  A stack is a list with \<open>back()\<close> first. \<open>read_tid\<close> is what \<open>*tid_ptr\<close> reads during and after an
  event. The maps only indexed by \<open>operator[]\<close> are total; \<open>call_stack\<close> is also iterated.
\<close>

record merge_state =
  fun_counter :: "u64 \<times> u64 \<Rightarrow> u32"
  args :: "u64 \<Rightarrow> u64 set"
  call_stack :: "(u64, stack_info list) mapping"
  is_first :: "u64 \<Rightarrow> u8 \<times> u32"
  block_trace :: "smallest_block list"
  read_tid :: "u64 option"

definition stack_of :: "merge_state \<Rightarrow> u64 \<Rightarrow> stack_info list" where
  "stack_of st tid = Mapping.lookup_default [] (call_stack st) tid"

definition set_stack :: "u64 \<Rightarrow> stack_info list \<Rightarrow> merge_state \<Rightarrow> merge_state" where
  "set_stack tid stk st = st\<lparr>call_stack := Mapping.update tid stk (call_stack st)\<rparr>"

definition set_first :: "u64 \<Rightarrow> u8 \<times> u32 \<Rightarrow> merge_state \<Rightarrow> merge_state" where
  "set_first tid f st = st\<lparr>is_first := (is_first st)(tid := f)\<rparr>"

definition add_blocks :: "smallest_block list \<Rightarrow> merge_state \<Rightarrow> merge_state" where
  "add_blocks bs st = st\<lparr>block_trace := block_trace st @ bs\<rparr>"

section \<open>One event\<close>

text \<open>A basic block is entered.\<close>

definition enter_block :: "code_info \<Rightarrow> u64 \<Rightarrow> u32 \<Rightarrow> merge_state \<Rightarrow> merge_state option" where
  "enter_block C tid bb st =
     (case stack_of st tid of
        [] \<Rightarrow> Some (set_stack tid [StackInfo bb (- 1) 0] (set_first tid (2, 0) st))
      | info # rest \<Rightarrow> do {
          is \<leftarrow> bb_at C (si_BBID info);
          (if unat (CurIndex info) \<ge> length is
           then Some (set_stack tid (StackInfo bb (si_BBID info) 0 # rest) (set_first tid (0, 0) st))
           else do {
             caller \<leftarrow> at is (unat (CurIndex info - 1));
             Some (set_stack tid (StackInfo bb (- 1) 0 # info # rest) (set_first tid (1, caller) st))
           })
        })"

text \<open>An instruction that logs an event of its own: the four branches share this.\<close>

definition access_block ::
  "code_info \<Rightarrow> block_type \<Rightarrow> u64 \<Rightarrow> u32 \<Rightarrow> u64 list \<Rightarrow> merge_state \<Rightarrow> merge_state option" where
  "access_block C kind tid iid addrs st =
     (case stack_of st tid of
        [] \<Rightarrow> None
      | info # rest \<Rightarrow> do {
          ins_id \<leftarrow> bb_ins C (si_BBID info) (CurIndex info);
          require (iid = ins_id);
          Some (set_first tid (0, 0)
            (add_blocks [(SmallestBlock kind tid (si_BBID info) (CurIndex info) (CurIndex info + 1)
                (is_first st tid) (si_LastBBID info))\<lparr>Addr := addrs\<rparr>]
              (set_stack tid (info\<lparr>CurIndex := CurIndex info + 1\<rparr> # rest) st)))
        })"

text \<open>The arguments are read in the order of the \<open>set\<close>.\<close>

definition return_event ::
  "code_info \<Rightarrow> u64 set \<Rightarrow> u64 \<Rightarrow> u32 \<Rightarrow> u64 \<Rightarrow> merge_state \<Rightarrow> merge_state option" where
  "return_event C impactful tid iid fn st = do {
     x \<leftarrow> ins_at C iid;
     access_block C
       (if fn \<in> impactful \<or> IsImpactfulFunction (ii_Fun x) then ImpactfulCallBlock
        else ExternalCallBlock)
       tid iid (fn # sorted_list_of_set (args st tid))
       (st\<lparr>args := (args st)(tid := {}),
          fun_counter := (fun_counter st)((tid, fn) := fun_counter st (tid, fn) + 1)\<rparr>)
   }"

definition merge_switch ::
  "code_info \<Rightarrow> u64 set \<Rightarrow> event_view \<Rightarrow> u64 \<Rightarrow> merge_state \<Rightarrow> merge_state option" where
  "merge_switch C impactful v tid st =
     (if ev_label v = BasicBlockEventLabel then do {
        iid \<leftarrow> ev_id v;
        enter_block C tid iid st
      }
      else if ev_label v = MemoryEventLabel then do {
        iid \<leftarrow> ev_id v;
        addr \<leftarrow> ev_addr v;
        len \<leftarrow> ev_length v;
        (if iid = - 1 then Some (add_blocks [DeclareOf addr len] st)
         else access_block C MemoryAccessBlock tid iid [addr, addr + len] st)
      }
      else if ev_label v = ReturnEventLabel then do {
        iid \<leftarrow> ev_id v;
        addr \<leftarrow> ev_addr v;
        return_event C impactful tid iid addr st
      }
      else if ev_label v = MemsetEventLabel then do {
        iid \<leftarrow> ev_id v;
        addr \<leftarrow> ev_addr v;
        len \<leftarrow> ev_length v;
        access_block C MemsetBlock tid iid [addr, addr + len] st
      }
      else if ev_label v = MemmoveEventLabel then do {
        iid \<leftarrow> ev_id v;
        addr \<leftarrow> ev_addr v;
        len \<leftarrow> ev_length v;
        addr2 \<leftarrow> ev_addr2 v;
        access_block C MemmoveBlock tid iid [addr, addr + len, addr2, addr2 + len] st
      }
      else Some st)"

section \<open>The instructions that log nothing\<close>

definition is_plain :: "inst_type \<Rightarrow> bool" where
  "is_plain t \<longleftrightarrow> t = NormalInst \<or> t = ReturnInst \<or> t = TerminatorInst \<or> t = PhiNode \<or> t = VarArg"

fun plain_run :: "code_info \<Rightarrow> u32 list \<Rightarrow> nat option" where
  "plain_run C [] = Some 0"
| "plain_run C (i # is) = do {
     x \<leftarrow> ins_at C i;
     (if is_plain (ii_Type x) then map_option Suc (plain_run C is) else Some 0)
   }"

text \<open>\<open>end_index\<close>: past the plain instructions, and past a call of the program's own code.\<close>

definition end_index :: "code_info \<Rightarrow> u32 list \<Rightarrow> u32 \<Rightarrow> u32 option" where
  "end_index C is start = do {
     n \<leftarrow> plain_run C (drop (unat start) is);
     let e = start + of_nat n;
     (if unat e < length is then do {
        i \<leftarrow> at is (unat e);
        x \<leftarrow> ins_at C i;
        Some (if ii_Type x = CallInst \<and> take 5 (ii_Fun x) \<noteq> ''llvm.'' then e + 1 else e)
      }
      else Some e)
   }"

definition at_return :: "code_info \<Rightarrow> u32 list \<Rightarrow> u32 \<Rightarrow> bool option" where
  "at_return C is cur =
     (if unat cur = length is then do {
        i \<leftarrow> at is (length is - 1);
        x \<leftarrow> ins_at C i;
        Some (ii_Type x = ReturnInst)
      }
      else Some False)"

text \<open>The last block of a function or of a thread.\<close>

definition close_block ::
  "code_info \<Rightarrow> stack_info list \<Rightarrow> smallest_block \<Rightarrow> smallest_block option" where
  "close_block C rest b =
     (case rest of
        [] \<Rightarrow> Some (b\<lparr>IsLast := 2\<rparr>)
      | last_info # _ \<Rightarrow> do {
          is \<leftarrow> bb_at C (si_BBID last_info);
          require (unat (CurIndex last_info) < length is);
          i \<leftarrow> at is (unat (CurIndex last_info - 1));
          x \<leftarrow> ins_at C i;
          Some (b\<lparr>IsLast := 1, Caller := (if ii_Type x = CallInst then i else - 1)\<rparr>)
        })"

text \<open>
  The \<open>while\<close> loop on one thread's stack: the new stack, \<open>is_first\<close> and blocks. A frame that is
  already past its return would be looked at forever.
\<close>

fun drain ::
  "code_info \<Rightarrow> u64 \<Rightarrow> stack_info list \<Rightarrow> u8 \<times> u32 \<Rightarrow>
     (stack_info list \<times> (u8 \<times> u32) \<times> smallest_block list) option" where
  "drain C tid [] first = Some ([], first, [])"
| "drain C tid (info # rest) first = do {
     is \<leftarrow> bb_at C (si_BBID info);
     e \<leftarrow> end_index C is (CurIndex info);
     last_bb \<leftarrow> at_return C is e;
     (if e > CurIndex info then
        let b = SmallestBlock NormalBlock tid (si_BBID info) (CurIndex info) e first (si_LastBBID info)
        in if last_bb then do {
             b' \<leftarrow> close_block C rest b;
             (stk, first', bs) \<leftarrow> drain C tid rest (0, 0);
             Some (stk, first', b' # bs)
           }
           else Some (info\<lparr>CurIndex := e\<rparr> # rest, (0, 0), [b])
      else if last_bb then None
      else Some (info\<lparr>CurIndex := e\<rparr> # rest, first, []))
   }"

definition drain_thread :: "code_info \<Rightarrow> u64 \<Rightarrow> merge_state \<Rightarrow> merge_state option" where
  "drain_thread C tid st = do {
     (stk, first, bs) \<leftarrow> drain C tid (stack_of st tid) (is_first st tid);
     Some (set_stack tid stk (set_first tid first (add_blocks bs st)))
   }"

section \<open>The whole trace\<close>

definition merge_event ::
  "code_info \<Rightarrow> u64 set \<Rightarrow> event_view \<Rightarrow> merge_state \<Rightarrow> merge_state option" where
  "merge_event C impactful v st0 =
     (let st = st0\<lparr>read_tid := ev_tid v\<rparr> in
      if ev_label v = ArgumentEventLabel then do {
        tid \<leftarrow> ev_tid v;
        addr \<leftarrow> ev_addr v;
        Some (st\<lparr>args := (args st)(tid := insert addr (args st tid))\<rparr>)
      }
      else if ev_label v = MemoryEventLabel \<and> ev_id v = Some (- 1) \<and> ev_tid v = Some 0 then do {
        addr \<leftarrow> ev_addr v;
        len \<leftarrow> ev_length v;
        Some (add_blocks [DeclareOf addr len] st)
      }
      else do {
        tid \<leftarrow> ev_tid v;
        st1 \<leftarrow> merge_switch C impactful v tid st;
        drain_thread C tid st1
      })"

text \<open>
  The frames left at the end of the trace. \<open>LastBBID\<close> is read from the stack of the thread of the
  last event, whichever thread is being closed; that stack must not be empty.
\<close>

fun flush_stack ::
  "code_info \<Rightarrow> u64 \<Rightarrow> stack_info list \<Rightarrow> merge_state \<Rightarrow> merge_state option" where
  "flush_stack C tid [] st = Some st"
| "flush_stack C tid (info # rest) st = do {
     cur \<leftarrow> read_tid st;
     top \<leftarrow> at (stack_of st cur) 0;
     b \<leftarrow> close_block C rest (SmallestBlock NormalBlock tid (si_BBID info) (CurIndex info)
            (CurIndex info) (0, 0) (si_LastBBID top));
     flush_stack C tid rest (add_blocks [b] (set_stack tid rest st))
   }"

definition flush_all :: "code_info \<Rightarrow> merge_state \<Rightarrow> merge_state option" where
  "flush_all C st =
     fold_opt (\<lambda>tid s. flush_stack C tid (stack_of s tid) s) (Mapping.ordered_keys (call_stack st)) st"

definition merge_init :: merge_state where
  "merge_init = \<lparr>fun_counter = (\<lambda>_. 0), args = (\<lambda>_. {}), call_stack = Mapping.empty,
     is_first = (\<lambda>_. (0, 0)), block_trace = [], read_tid = None\<rparr>"

definition MergeTrace ::
  "decompressor \<Rightarrow> code_info \<Rightarrow> bytes \<Rightarrow> u64 set \<Rightarrow> smallest_block list option" where
  "MergeTrace decompress C trace impactful = do {
     st \<leftarrow> for_each_event decompress (merge_event C impactful) (TraceIter trace) no_ptrs merge_init;
     st' \<leftarrow> flush_all C st;
     Some (block_trace st')
   }"

section \<open>What the blocks of a thread say\<close>

text \<open>
  The reading of a thread's blocks as an execution: a stack of the basic blocks being executed,
  each with the number of its next instruction. A first block pushes a frame (and names the
  instruction that called it), a last block pops one, any other continues the top frame where it
  stopped or, if it is complete, starts the function's next basic block.
\<close>

type_synonym frame = "u32 \<times> u32"

definition enter_frame :: "code_info \<Rightarrow> smallest_block \<Rightarrow> frame list \<Rightarrow> frame list option" where
  "enter_frame C b stk =
     (if IsFirst b = 2 then do {
        require (stk = [] \<and> Start b = 0);
        Some [(BBID b, 0)]
      }
      else if IsFirst b = 1 then do {
        require (stk \<noteq> [] \<and> Start b = 0);
        caller \<leftarrow> bb_ins C (fst (hd stk)) (snd (hd stk) - 1);
        require (IsLast b = 0 \<longrightarrow> Caller b = caller);
        Some ((BBID b, 0) # stk)
      }
      else (case stk of
          [] \<Rightarrow> None
        | (c, n) # rest \<Rightarrow>
            (if (c, n) = (BBID b, Start b) then Some stk
             else do {
               is \<leftarrow> bb_at C c;
               require (unat n = length is \<and> Start b = 0 \<and> LastBBID b = c);
               Some ((BBID b, 0) # rest)
             })))"

definition leave_frame :: "code_info \<Rightarrow> smallest_block \<Rightarrow> frame list \<Rightarrow> frame list option" where
  "leave_frame C b stk =
     (if IsLast b = 2 then do { require (stk = []); Some [] }
      else if IsLast b = 1 then do {
        require (stk \<noteq> []);
        i \<leftarrow> bb_ins C (fst (hd stk)) (snd (hd stk) - 1);
        x \<leftarrow> ins_at C i;
        require (Caller b = (if ii_Type x = CallInst then i else - 1));
        Some stk
      }
      else Some ((BBID b, End b) # stk))"

definition replay :: "code_info \<Rightarrow> smallest_block \<Rightarrow> frame list \<Rightarrow> frame list option" where
  "replay C b stk = do {
     is \<leftarrow> bb_at C (BBID b);
     require (Start b < End b \<and> unat (End b) \<le> length is);
     stk1 \<leftarrow> enter_frame C b stk;
     leave_frame C b (tl stk1)
   }"

section \<open>The invariant of a thread\<close>

definition frame_of :: "stack_info \<Rightarrow> frame" where
  "frame_of info = (si_BBID info, CurIndex info)"

text \<open>A frame below the top waits inside its basic block, past at least one instruction.\<close>

definition waiting :: "code_info \<Rightarrow> stack_info \<Rightarrow> bool" where
  "waiting C info \<longleftrightarrow> CurIndex info \<noteq> 0 \<and>
     (case bb_at C (si_BBID info) of Some is \<Rightarrow> unat (CurIndex info) < length is | None \<Rightarrow> False)"

text \<open>The top frame: \<open>is_first\<close> is pending exactly while none of its instructions has a block.\<close>

definition pending_ok :: "code_info \<Rightarrow> stack_info \<Rightarrow> stack_info list \<Rightarrow> u8 \<times> u32 \<Rightarrow> bool" where
  "pending_ok C info rest first \<longleftrightarrow>
     (if fst first = 2 then rest = []
      else if fst first = 1 then
        rest \<noteq> [] \<and> bb_ins C (si_BBID (hd rest)) (CurIndex (hd rest) - 1) = Some (snd first)
      else first = (0, 0) \<and> bb_at C (si_LastBBID info) \<noteq> None)"

definition top_ok :: "code_info \<Rightarrow> stack_info \<Rightarrow> stack_info list \<Rightarrow> u8 \<times> u32 \<Rightarrow> bool" where
  "top_ok C info rest first \<longleftrightarrow>
     (if CurIndex info = 0 then pending_ok C info rest first
      else first = (0, 0) \<and> (case bb_at C (si_BBID info) of
        Some is \<Rightarrow> unat (CurIndex info) \<le> length is | None \<Rightarrow> False))"

fun thread_ok :: "code_info \<Rightarrow> stack_info list \<Rightarrow> u8 \<times> u32 \<Rightarrow> bool" where
  "thread_ok C [] first \<longleftrightarrow> True"
| "thread_ok C (info # rest) first \<longleftrightarrow> top_ok C info rest first \<and> list_all (waiting C) rest"

text \<open>The stack the blocks so far have built.\<close>

fun shown :: "code_info \<Rightarrow> stack_info list \<Rightarrow> u8 \<times> u32 \<Rightarrow> frame list" where
  "shown C [] first = []"
| "shown C (info # rest) first =
     (if CurIndex info \<noteq> 0 then map frame_of (info # rest)
      else if fst first \<noteq> 0 then map frame_of rest
      else (si_LastBBID info, of_nat (length (the (bb_at C (si_LastBBID info))))) # map frame_of rest)"

text \<open>A frame that waits shows itself, so popping or pushing keeps the shown stack.\<close>

lemma shown_waiting: "list_all (waiting C) stk \<Longrightarrow> shown C stk first = map frame_of stk"
  by (cases stk) (simp_all add: waiting_def)

lemma thread_ok_waiting: "list_all (waiting C) stk \<Longrightarrow> thread_ok C stk (0, 0)"
  by (cases stk) (auto simp: waiting_def top_ok_def split: option.splits)

lemma code_ok_length:
  "code_ok C \<Longrightarrow> bb_at C b = Some xs \<Longrightarrow> length xs < 2 ^ 32 - 1"
  "code_ok C \<Longrightarrow> bb_at C b = Some xs \<Longrightarrow> 0 < length xs"
  by (auto simp: code_ok_def list_all_length fail_simps)

text \<open>Entering: whatever top frame a block extends, the shown stack becomes that frame and the rest.\<close>

lemma enter_shown:
  assumes "code_ok C" "thread_ok C (info # rest) first"
    and "BBID b = si_BBID info" "Start b = CurIndex info" "LastBBID b = si_LastBBID info"
      "IsFirst b = fst first" "IsLast b = 0 \<longrightarrow> Caller b = snd first"
  shows "\<exists>n. enter_frame C b (shown C (info # rest) first) = Some ((si_BBID info, n) # map frame_of rest)"
proof (cases "CurIndex info = 0")
  case False
  with assms show ?thesis
    by (auto simp: enter_frame_def top_ok_def frame_of_def)
next
  case True
  then have p: "pending_ok C info rest first" and w: "list_all (waiting C) rest"
    using assms(2) by (auto simp: top_ok_def)
  show ?thesis
  proof (cases "fst first = 0")
    case False
    then consider "fst first = 2" | "fst first = 1"
      using p by (auto simp: pending_ok_def split: if_splits)
    then show ?thesis
    proof cases
      case 1
      with p True assms(3-) show ?thesis
        by (simp add: pending_ok_def enter_frame_def require_def)
    next
      case 2
      with p True assms(3-) show ?thesis
        by (cases rest) (auto simp: pending_ok_def enter_frame_def require_def frame_of_def)
    qed
  next
    case first: True
    then obtain xs where xs: "bb_at C (si_LastBBID info) = Some xs"
      using p by (auto simp: pending_ok_def)
    then have "unat (of_nat (length xs) :: u32) = length xs"
      using code_ok_length(1) [OF assms(1) xs] by (simp add: unat_of_nat)
    with xs first True assms(3-) show ?thesis
      by (simp add: enter_frame_def require_def)
  qed
qed

lemma plain_run_le: "plain_run C xs = Some n \<Longrightarrow> n \<le> length xs"
  by (induction xs arbitrary: n) (auto simp: fail_simps split: if_splits)

lemma end_index_bounds:
  assumes "length xs < 2 ^ 32 - 1" "unat start \<le> length xs" "end_index C xs start = Some e"
  shows "start \<le> e \<and> unat e \<le> length xs"
proof -
  obtain n where n: "plain_run C (drop (unat start) xs) = Some n"
    using assms(3) by (auto simp: end_index_def fail_simps)
  let ?e = "start + of_nat n"
  have len: "unat start + n \<le> length xs"
    using plain_run_le [OF n] assms(2) by simp
  then have "unat ?e = unat start + n"
    using assms(1) by (simp add: unat_word_ariths unat_of_nat)
  moreover have "e = ?e \<or> (e = ?e + 1 \<and> unat ?e < length xs)"
    using assms(3) n by (auto simp: end_index_def Let_def fail_simps split: if_splits)
  moreover have "unat (?e + 1) = unat ?e + 1" if "unat ?e < length xs"
    using that assms(1) by (simp add: unat_word_ariths)
  ultimately show ?thesis
    using len by (auto simp: word_le_nat_alt)
qed

text \<open>A block that leaves its frame on the stack, and one that pops it.\<close>

lemma replay_stay:
  assumes ok: "code_ok C" "thread_ok C (info # rest) first"
    and e: "bb_at C (si_BBID info) = Some xs" "CurIndex info < e" "unat e \<le> length xs"
    and b: "b = (SmallestBlock kind tid (si_BBID info) (CurIndex info) e first (si_LastBBID info))
      \<lparr>Addr := addrs\<rparr>"
  shows "replay C b (shown C (info # rest) first) = Some (shown C (info\<lparr>CurIndex := e\<rparr> # rest) (0, 0))"
    and "thread_ok C (info\<lparr>CurIndex := e\<rparr> # rest) (0, 0)"
proof -
  obtain n where n: "enter_frame C b (shown C (info # rest) first)
      = Some ((si_BBID info, n) # map frame_of rest)"
    using enter_shown [OF ok, of b] b by (auto simp: SmallestBlock_def)
  have "e \<noteq> 0" using e(2) by auto
  then show "replay C b (shown C (info # rest) first) = Some (shown C (info\<lparr>CurIndex := e\<rparr> # rest) (0, 0))"
    using n e b by (simp add: replay_def leave_frame_def require_def SmallestBlock_def frame_of_def)
  show "thread_ok C (info\<lparr>CurIndex := e\<rparr> # rest) (0, 0)"
    using ok e \<open>e \<noteq> 0\<close> by (simp add: top_ok_def)
qed

lemma close_block_fields:
  assumes "close_block C rest b = Some b'"
  shows "BBID b' = BBID b" "Start b' = Start b" "End b' = End b" "IsFirst b' = IsFirst b"
    "LastBBID b' = LastBBID b" "sb_TID b' = sb_TID b" "sb_Type b' = sb_Type b" "IsLast b' \<noteq> 0"
  using assms by (auto simp: close_block_def fail_simps split: list.splits)

lemma leave_closed:
  "close_block C rest b = Some b' \<Longrightarrow> leave_frame C b' (map frame_of rest) = Some (map frame_of rest)"
  by (cases rest)
    (auto simp: close_block_def leave_frame_def require_def frame_of_def fail_simps)

lemma replay_leave:
  assumes ok: "code_ok C" "thread_ok C (info # rest) first"
    and e: "bb_at C (si_BBID info) = Some xs" "CurIndex info < e" "unat e \<le> length xs"
    and b: "close_block C rest (SmallestBlock kind tid (si_BBID info) (CurIndex info) e first
        (si_LastBBID info)) = Some b"
  shows "replay C b (shown C (info # rest) first) = Some (shown C rest (0, 0))"
    and "thread_ok C rest (0, 0)"
proof -
  note f = close_block_fields [OF b]
  obtain n where "enter_frame C b (shown C (info # rest) first)
      = Some ((si_BBID info, n) # map frame_of rest)"
    using enter_shown [OF ok, of b] f by (auto simp: SmallestBlock_def)
  moreover have w: "list_all (waiting C) rest"
    using ok by simp
  ultimately show "replay C b (shown C (info # rest) first) = Some (shown C rest (0, 0))"
    using e leave_closed [OF b] f
    by (simp add: replay_def require_def SmallestBlock_def shown_waiting)
  show "thread_ok C rest (0, 0)"
    by (rule thread_ok_waiting [OF w])
qed

lemma top_cur_le:
  "thread_ok C (info # rest) first \<Longrightarrow> bb_at C (si_BBID info) = Some xs \<Longrightarrow> unat (CurIndex info) \<le> length xs"
  by (auto simp: top_ok_def split: if_splits)

text \<open>The inner loop.\<close>

lemma drain_replay:
  assumes "code_ok C" "thread_ok C stk first" "drain C tid stk first = Some (stk', first', bs)"
  shows "fold_opt (replay C) bs (shown C stk first) = Some (shown C stk' first')
    \<and> thread_ok C stk' first' \<and> list_all (\<lambda>b. sb_TID b = tid \<and> sb_Type b = NormalBlock) bs"
  using assms(2,3)
proof (induction stk arbitrary: first bs)
  case (Cons info rest)
  from Cons.prems obtain xs e last_bb where xs: "bb_at C (si_BBID info) = Some xs"
    and e: "end_index C xs (CurIndex info) = Some e" and r: "at_return C xs e = Some last_bb"
    by (auto simp del: bb_at_Some simp: fail_simps)
  have bounds: "CurIndex info \<le> e" "unat e \<le> length xs"
    using end_index_bounds [OF code_ok_length(1) [OF assms(1) xs] top_cur_le [OF Cons.prems(1) xs] e]
    by simp_all
  show ?case
  proof (cases "CurIndex info < e")
    case False
    then have "e = CurIndex info" using bounds by simp
    moreover have "info\<lparr>CurIndex := CurIndex info\<rparr> = info" by simp
    ultimately show ?thesis
      using Cons.prems xs e r by (auto split: if_splits)
  next
    case less: True
    let ?b = "SmallestBlock NormalBlock tid (si_BBID info) (CurIndex info) e first (si_LastBBID info)"
    have same: "?b = ?b\<lparr>Addr := []\<rparr>" by (simp add: SmallestBlock_def)
    show ?thesis
    proof (cases last_bb)
      case False
      then show ?thesis
        using Cons.prems xs e r less replay_stay [OF assms(1) Cons.prems(1) xs less bounds(2) same]
        by (auto simp: SmallestBlock_def)
    next
      case True
      then obtain b' bs' where b': "close_block C rest ?b = Some b'" "bs = b' # bs'"
        and d: "drain C tid rest (0, 0) = Some (stk', first', bs')"
        using Cons.prems(2) xs e r less by (auto simp: fail_simps Let_def)
      note l = replay_leave [OF assms(1) Cons.prems(1) xs less bounds(2) b'(1)]
      have "sb_TID b' = tid" "sb_Type b' = NormalBlock"
        using close_block_fields [OF b'(1)] by (simp_all add: SmallestBlock_def)
      with Cons.IH [OF l(2) d] l(1) b'(2) show ?thesis by simp
    qed
  qed
qed simp

section \<open>Every event\<close>

definition blocks_of :: "u64 \<Rightarrow> smallest_block list \<Rightarrow> smallest_block list" where
  "blocks_of t bs = filter (\<lambda>b. sb_TID b = t \<and> sb_Type b \<noteq> DeclareBlock) bs"

definition merge_ok :: "code_info \<Rightarrow> merge_state \<Rightarrow> bool" where
  "merge_ok C st \<longleftrightarrow> (\<forall>t. thread_ok C (stack_of st t) (is_first st t) \<and>
     fold_opt (replay C) (blocks_of t (block_trace st)) []
       = Some (shown C (stack_of st t) (is_first st t)))"

lemma state_simps [simp]:
  "stack_of (set_stack t stk st) u = (if u = t then stk else stack_of st u)"
  "stack_of (set_first t f st) u = stack_of st u"
  "stack_of (add_blocks bs st) u = stack_of st u"
  "is_first (set_stack t stk st) = is_first st"
  "is_first (set_first t f st) = (is_first st)(t := f)"
  "is_first (add_blocks bs st) = is_first st"
  "block_trace (set_stack t stk st) = block_trace st"
  "block_trace (set_first t f st) = block_trace st"
  "block_trace (add_blocks bs st) = block_trace st @ bs"
  by (simp_all add: stack_of_def set_stack_def set_first_def add_blocks_def Mapping.lookup_default_update'
      Mapping.lookup_default_update)

lemma blocks_of_append [simp]: "blocks_of t (xs @ ys) = blocks_of t xs @ blocks_of t ys"
  by (simp add: blocks_of_def)

lemma blocks_of_Declare [simp]: "blocks_of t [DeclareOf a l] = []"
  by (simp add: blocks_of_def DeclareOf_def)

lemma blocks_of_thread:
  assumes "list_all (\<lambda>b. sb_TID b = tid \<and> sb_Type b \<noteq> DeclareBlock) bs"
  shows "blocks_of t bs = (if t = tid then bs else [])"
  using assms by (auto simp: blocks_of_def list_all_iff filter_id_conv filter_empty_conv)

text \<open>A step of one thread: the stacks of the others and their blocks do not move.\<close>

lemma merge_ok_thread:
  assumes "merge_ok C st"
    and "thread_ok C stk' first'" "list_all (\<lambda>b. sb_TID b = tid \<and> sb_Type b \<noteq> DeclareBlock) bs"
    and "fold_opt (replay C) bs (shown C (stack_of st tid) (is_first st tid)) = Some (shown C stk' first')"
  shows "merge_ok C (set_stack tid stk' (set_first tid first' (add_blocks bs st)))"
  using assms by (simp add: merge_ok_def blocks_of_thread fold_opt_append)

lemma merge_ok_same:
  "merge_ok C st \<Longrightarrow> call_stack st' = call_stack st \<Longrightarrow> is_first st' = is_first st \<Longrightarrow>
   block_trace st' = block_trace st \<Longrightarrow> merge_ok C st'"
  by (simp add: merge_ok_def stack_of_def)

lemma add_no_blocks [simp]: "add_blocks [] st = st"
  by (simp add: add_blocks_def)

lemma enter_block_ok:
  assumes ok: "code_ok C" "merge_ok C st" and st': "enter_block C tid bb st = Some st'"
  shows "merge_ok C st'"
proof -
  have top: "thread_ok C (stack_of st tid) (is_first st tid)"
    using ok(2) by (simp add: merge_ok_def)
  have step: "merge_ok C (set_stack tid stk' (set_first tid first' st))"
    if "thread_ok C stk' first'"
      "shown C (stack_of st tid) (is_first st tid) = shown C stk' first'" for stk' first'
    using merge_ok_thread [OF ok(2) that(1), of tid "[]"] that(2) by simp
  show ?thesis
  proof (cases "stack_of st tid")
    case Nil
    then show ?thesis
      using st' step [of "[StackInfo bb (- 1) 0]" "(2, 0)"]
      by (simp add: enter_block_def StackInfo_def top_ok_def pending_ok_def)
  next
    case (Cons info rest)
    then obtain xs where xs: "bb_at C (si_BBID info) = Some xs"
      using st' by (auto simp: enter_block_def bind_Some_iff)
    have le: "unat (CurIndex info) \<le> length xs" and w: "list_all (waiting C) rest"
      using top_cur_le [OF _ xs] top Cons by auto
    show ?thesis
    proof (cases "length xs \<le> unat (CurIndex info)")
      case True
      then have n: "unat (CurIndex info) = length xs" "CurIndex info \<noteq> 0"
        using le code_ok_length(2) [OF ok(1) xs] by auto
      then have "of_nat (length xs) = CurIndex info"
        by (metis of_nat_unat ucast_id)
      then show ?thesis
        using st' step [of "StackInfo bb (si_BBID info) 0 # rest" "(0, 0)"] True Cons n w xs
        by (simp add: enter_block_def StackInfo_def top_ok_def pending_ok_def frame_of_def)
    next
      case False
      then obtain caller where caller: "at xs (unat (CurIndex info - 1)) = Some caller"
        "st' = set_stack tid (StackInfo bb (- 1) 0 # info # rest) (set_first tid (1, caller) st)"
        using st' Cons xs by (auto simp: enter_block_def bind_Some_iff)
      have "CurIndex info \<noteq> 0"
      proof
        assume "CurIndex info = 0"
        then show False
          using caller(1) code_ok_length(1) [OF ok(1) xs] by (simp add: at_Some unsigned_minus_1_eq_mask mask_eq_exp_minus_1)
      qed
      then show ?thesis
        using caller step [of "StackInfo bb (- 1) 0 # info # rest" "(1, caller)"] False Cons w xs
        by (simp add: StackInfo_def top_ok_def pending_ok_def waiting_def bb_ins_def)
    qed
  qed
qed

lemma access_block_ok:
  assumes ok: "code_ok C" "merge_ok C st" and kind: "kind \<noteq> DeclareBlock"
    and st': "access_block C kind tid iid addrs st = Some st'"
  shows "merge_ok C st'"
proof -
  obtain info rest where stk: "stack_of st tid = info # rest"
    using st' by (cases "stack_of st tid") (auto simp: access_block_def)
  obtain xs where xs: "bb_at C (si_BBID info) = Some xs" and less: "unat (CurIndex info) < length xs"
    using st' stk by (auto simp: access_block_def bb_ins_def bind_Some_iff at_Some)
  let ?e = "CurIndex info + 1"
  have e: "unat ?e = unat (CurIndex info) + 1"
    using less code_ok_length(1) [OF ok(1) xs] by (simp add: unat_word_ariths)
  let ?b = "(SmallestBlock kind tid (si_BBID info) (CurIndex info) ?e (is_first st tid)
      (si_LastBBID info))\<lparr>Addr := addrs\<rparr>"
  have "thread_ok C (info # rest) (is_first st tid)"
    using ok(2) stk by (metis merge_ok_def)
  from replay_stay [where e = ?e and kind = kind and tid = tid and addrs = addrs, OF ok(1) this xs _ _ refl] e less
  have "replay C ?b (shown C (info # rest) (is_first st tid)) = Some (shown C (info\<lparr>CurIndex := ?e\<rparr> # rest) (0, 0))"
    "thread_ok C (info\<lparr>CurIndex := ?e\<rparr> # rest) (0, 0)"
    by (simp_all add: word_less_nat_alt)
  with merge_ok_thread [OF ok(2), of "info\<lparr>CurIndex := ?e\<rparr> # rest" "(0, 0)" tid "[?b]"] stk kind
  have "merge_ok C (set_stack tid (info\<lparr>CurIndex := ?e\<rparr> # rest) (set_first tid (0, 0) (add_blocks [?b] st)))"
    by (simp add: SmallestBlock_def)
  moreover have "st' = set_first tid (0, 0) (add_blocks [?b] (set_stack tid (info\<lparr>CurIndex := ?e\<rparr> # rest) st))"
    using st' stk by (auto simp: access_block_def bind_Some_iff)
  ultimately show ?thesis
    by (elim merge_ok_same) (simp_all add: set_stack_def set_first_def add_blocks_def)
qed

lemma drain_thread_ok:
  assumes "code_ok C" "merge_ok C st" "drain_thread C tid st = Some st'"
  shows "merge_ok C st'"
proof -
  obtain stk first bs where d: "drain C tid (stack_of st tid) (is_first st tid) = Some (stk, first, bs)"
    and st': "st' = set_stack tid stk (set_first tid first (add_blocks bs st))"
    using assms(3) by (auto simp: drain_thread_def bind_Some_iff)
  have "thread_ok C (stack_of st tid) (is_first st tid)"
    using assms(2) by (simp add: merge_ok_def)
  from drain_replay [OF assms(1) this d] show ?thesis
    unfolding st' by (intro merge_ok_thread [OF assms(2)]) (auto simp: list_all_iff)
qed

lemma merge_switch_ok:
  assumes "code_ok C" "merge_ok C st" "merge_switch C impactful v tid st = Some st'"
  shows "merge_ok C st'"
proof -
  have ret: "merge_ok C st'" if r: "return_event C impactful tid iid fn st = Some st'" for iid fn
  proof -
    let ?st = "st\<lparr>args := (args st)(tid := {}),
      fun_counter := (fun_counter st)((tid, fn) := fun_counter st (tid, fn) + 1)\<rparr>"
    obtain x :: inst_info where x: "access_block C (if fn \<in> impactful \<or> IsImpactfulFunction (ii_Fun x)
        then ImpactfulCallBlock else ExternalCallBlock) tid iid
        (fn # sorted_list_of_set (args st tid)) ?st = Some st'"
      using r unfolding return_event_def bind_Some_iff by blast
    have "merge_ok C ?st"
      by (rule merge_ok_same [OF assms(2)]) simp_all
    from access_block_ok [OF assms(1) this _ x] show ?thesis by simp
  qed
  have decl: "merge_ok C (add_blocks [DeclareOf a l] st)" for a l
    using assms(2) by (simp add: merge_ok_def)
  show ?thesis
    using assms(3) enter_block_ok [OF assms(1,2)] ret decl assms(2)
      access_block_ok [OF assms(1,2), of MemoryAccessBlock]
      access_block_ok [OF assms(1,2), of MemsetBlock] access_block_ok [OF assms(1,2), of MemmoveBlock]
    by (auto simp: merge_switch_def bind_Some_iff split: if_splits)
qed

lemma merge_event_ok:
  assumes "code_ok C" "merge_ok C st" "merge_event C impactful v st = Some st'"
  shows "merge_ok C st'"
proof -
  let ?st = "st\<lparr>read_tid := ev_tid v\<rparr>"
  have ok: "merge_ok C ?st"
    by (rule merge_ok_same [OF assms(2)]) simp_all
  have "merge_ok C (add_blocks [DeclareOf a l] ?st)" for a l
    using ok by (simp add: merge_ok_def)
  moreover have "merge_ok C (?st\<lparr>args := f\<rparr>)" for f
    by (rule merge_ok_same [OF ok]) simp_all
  moreover have "merge_ok C st'" if "merge_switch C impactful v tid ?st = Some st1"
    "drain_thread C tid st1 = Some st'" for tid st1
    using drain_thread_ok [OF assms(1) merge_switch_ok [OF assms(1) ok that(1)] that(2)] .
  ultimately show ?thesis
    using assms(3) by (auto simp: merge_event_def Let_def bind_Some_iff split: if_splits)
qed

text \<open>Blocks are only ever appended.\<close>

definition extends :: "merge_state \<Rightarrow> merge_state \<Rightarrow> bool" where
  "extends st st' \<longleftrightarrow> (\<exists>bs. block_trace st' = block_trace st @ bs)"

lemma extends_simps:
  "extends st st" "extends st st1 \<Longrightarrow> extends st1 st2 \<Longrightarrow> extends st st2"
  by (auto simp: extends_def)

lemma access_extends: "access_block C kind tid iid addrs st = Some st' \<Longrightarrow> extends st st'"
  by (auto simp: access_block_def extends_def bind_Some_iff split: list.splits)

lemma enter_extends: "enter_block C tid bb st = Some st' \<Longrightarrow> extends st st'"
  by (auto simp: enter_block_def extends_def bind_Some_iff split: list.splits if_splits)

lemma drain_extends: "drain_thread C tid st = Some st' \<Longrightarrow> extends st st'"
  by (auto simp: drain_thread_def extends_def bind_Some_iff)

lemma switch_extends: "merge_switch C impactful v tid st = Some st' \<Longrightarrow> extends st st'"
  using enter_extends access_extends
  by (fastforce simp: merge_switch_def return_event_def bind_Some_iff extends_def split: if_splits)

lemma event_extends:
  assumes "merge_event C impactful v st = Some st'"
  shows "extends st st'"
proof -
  have "extends st st'" if "merge_switch C impactful v tid (st\<lparr>read_tid := ev_tid v\<rparr>) = Some st1"
    "drain_thread C tid st1 = Some st'" for tid st1
    using switch_extends [OF that(1)] drain_extends [OF that(2)] by (auto simp: extends_def)
  then show ?thesis
    using assms
    by (auto simp: merge_event_def Let_def bind_Some_iff extends_def split: if_splits)
qed

interpretation merge: loop_body "merge_event C impactful" "\<lambda>st. code_ok C \<and> merge_ok C st" extends
  for C impactful
  by unfold_locales (auto simp: event_extends extends_simps(1) intro: merge_event_ok extends_simps(2))

lemma merge_init_ok: "merge_ok C merge_init"
  by (simp add: merge_ok_def merge_init_def stack_of_def blocks_of_def Mapping.lookup_default_empty)

lemma merge_replay:
  assumes "code_ok C" "fold_opt (merge_event C impactful) vs merge_init = Some st"
  shows "merge_ok C st"
  using merge.loop_inv [of C merge_init impactful vs st] assms merge_init_ok by blast

section \<open>Threads do not disturb each other\<close>

definition same_thread :: "u64 \<Rightarrow> merge_state \<Rightarrow> merge_state \<Rightarrow> bool" where
  "same_thread t s u \<longleftrightarrow> args s t = args u t \<and> stack_of s t = stack_of u t
     \<and> is_first s t = is_first u t \<and> (\<forall>f. fun_counter s (t, f) = fun_counter u (t, f))
     \<and> blocks_of t (block_trace s) = blocks_of t (block_trace u)"

lemma state_simps2 [simp]:
  "args (set_stack t stk st) = args st" "args (set_first t f st) = args st"
  "args (add_blocks bs st) = args st"
  "fun_counter (set_stack t stk st) = fun_counter st" "fun_counter (set_first t f st) = fun_counter st"
  "fun_counter (add_blocks bs st) = fun_counter st"
  by (simp_all add: set_stack_def set_first_def add_blocks_def)

lemma same_access:
  "same_thread t s u \<Longrightarrow>
   rel_option (same_thread t) (access_block C kind t iid addrs s) (access_block C kind t iid addrs u)"
  by (auto simp: access_block_def same_thread_def intro!: rel_option_same split: list.splits)

lemma same_enter:
  "same_thread t s u \<Longrightarrow> rel_option (same_thread t) (enter_block C t bb s) (enter_block C t bb u)"
  by (auto simp: enter_block_def same_thread_def intro!: rel_option_same split: list.splits)

lemma same_drain:
  "same_thread t s u \<Longrightarrow> rel_option (same_thread t) (drain_thread C t s) (drain_thread C t u)"
  by (auto simp: drain_thread_def same_thread_def intro!: rel_option_same)

lemma same_return:
  assumes "same_thread t s u"
  shows "rel_option (same_thread t) (return_event C imp t iid fn s) (return_event C imp t iid fn u)"
proof -
  have a: "args s t = args u t"
    using assms by (simp add: same_thread_def)
  show ?thesis
    unfolding return_event_def a
    using assms by (intro rel_option_same same_access) (auto simp: same_thread_def stack_of_def)
qed

lemma same_switch:
  assumes "same_thread t s u"
  shows "rel_option (same_thread t) (merge_switch C imp v t s) (merge_switch C imp v t u)"
proof -
  have "same_thread t (add_blocks bs s) (add_blocks bs u)" for bs
    using assms by (simp add: same_thread_def)
  then show ?thesis
    using assms same_enter same_access same_return
    by (simp add: merge_switch_def rel_option_same)
qed

lemma same_event:
  assumes "same_thread t s u" "ev_tid v = Some t"
  shows "rel_option (same_thread t) (merge_event C imp v s) (merge_event C imp v u)"
proof -
  have r: "same_thread t (s\<lparr>read_tid := x\<rparr>) (u\<lparr>read_tid := x\<rparr>)" for x
    using assms(1) by (simp add: same_thread_def stack_of_def)
  then have b: "same_thread t (add_blocks bs (s\<lparr>read_tid := x\<rparr>)) (add_blocks bs (u\<lparr>read_tid := x\<rparr>))" for x bs
    by (simp add: same_thread_def)
  have a: "same_thread t (s\<lparr>read_tid := x, args := (args s)(t := insert a (args s t))\<rparr>)
      (u\<lparr>read_tid := x, args := (args u)(t := insert a (args u t))\<rparr>)" for x a
    using assms(1) by (simp add: same_thread_def stack_of_def)
  have d: "rel_option (same_thread t)
      (Option.bind (merge_switch C imp v t (s\<lparr>read_tid := x\<rparr>)) (drain_thread C t))
      (Option.bind (merge_switch C imp v t (u\<lparr>read_tid := x\<rparr>)) (drain_thread C t))" for x
    by (rule rel_option_bind [OF same_switch [OF r] same_drain])
  show ?thesis
    using assms(2) a b d by (auto simp: merge_event_def Let_def intro!: rel_option_same)
qed

text \<open>What a step of thread \<open>tid\<close> leaves alone.\<close>

lemma same_thread_refl: "same_thread t s s"
  by (simp add: same_thread_def)

lemma same_thread_trans: "same_thread t s u \<Longrightarrow> same_thread t u w \<Longrightarrow> same_thread t s w"
  by (simp add: same_thread_def)

lemma drain_tids:
  "drain C tid stk first = Some (stk', first', bs) \<Longrightarrow> list_all (\<lambda>b. sb_TID b = tid) bs"
proof (induction stk arbitrary: first bs)
  case (Cons info rest)
  then show ?case
    by (auto simp: bind_Some_iff Let_def SmallestBlock_def
        dest: close_block_fields(6) split: if_splits)
qed simp

lemma blocks_of_other: "list_all (\<lambda>b. sb_TID b = tid) bs \<Longrightarrow> tid \<noteq> t \<Longrightarrow> blocks_of t bs = []"
  by (auto simp: blocks_of_def list_all_iff filter_empty_conv)

lemma other_access:
  "access_block C kind tid iid addrs s = Some s' \<Longrightarrow> tid \<noteq> t \<Longrightarrow> same_thread t s' s"
  by (auto simp: access_block_def same_thread_def bind_Some_iff SmallestBlock_def blocks_of_def
      split: list.splits)

lemma other_enter: "enter_block C tid bb s = Some s' \<Longrightarrow> tid \<noteq> t \<Longrightarrow> same_thread t s' s"
  by (auto simp: enter_block_def same_thread_def bind_Some_iff split: list.splits if_splits)

lemma other_drain: "drain_thread C tid s = Some s' \<Longrightarrow> tid \<noteq> t \<Longrightarrow> same_thread t s' s"
  by (auto simp: drain_thread_def same_thread_def bind_Some_iff blocks_of_other [OF drain_tids])

lemma other_return:
  assumes "return_event C imp tid iid fn s = Some s'" "tid \<noteq> t"
  shows "same_thread t s' s"
proof -
  let ?s = "s\<lparr>args := (args s)(tid := {}),
      fun_counter := (fun_counter s)((tid, fn) := fun_counter s (tid, fn) + 1)\<rparr>"
  obtain kind addrs where "access_block C kind tid iid addrs ?s = Some s'"
    using assms(1) unfolding return_event_def bind_Some_iff by blast
  from other_access [OF this assms(2)] have "same_thread t s' ?s" .
  then show ?thesis
    using assms(2) by (simp add: same_thread_def stack_of_def)
qed

lemma other_switch:
  assumes "merge_switch C imp v tid s = Some s'" "tid \<noteq> t"
  shows "same_thread t s' s"
proof -
  have "same_thread t (add_blocks [DeclareOf a l] s) s" for a l
    by (simp add: same_thread_def)
  then show ?thesis
    using assms other_enter [OF _ assms(2)] other_access [OF _ assms(2)] other_return [OF _ assms(2)]
    by (auto simp: merge_switch_def bind_Some_iff same_thread_refl split: if_splits)
qed

lemma other_event:
  assumes "merge_event C imp v s = Some s'" "ev_tid v \<noteq> Some t"
  shows "same_thread t s' s"
proof -
  have r: "same_thread t (s\<lparr>read_tid := x\<rparr>) s" for x
    by (simp add: same_thread_def stack_of_def)
  have "same_thread t (add_blocks [DeclareOf a l] (s\<lparr>read_tid := x\<rparr>)) s" for a l x
    using r by (simp add: same_thread_def)
  moreover have "same_thread t (s\<lparr>read_tid := x, args := (args s)(tid := A)\<rparr>) s" if "tid \<noteq> t" for tid A x
    using that by (simp add: same_thread_def stack_of_def)
  moreover have "same_thread t s' s" if "merge_switch C imp v tid (s\<lparr>read_tid := x\<rparr>) = Some s1"
      "drain_thread C tid s1 = Some s'" "tid \<noteq> t" for tid s1 x
    using other_drain [OF that(2,3)] other_switch [OF that(1,3)] r same_thread_trans by blast
  ultimately show ?thesis
    using assms by (auto simp: merge_event_def Let_def bind_Some_iff split: if_splits)
qed

interpretation thread: projected_loop "merge_event C imp" "\<lambda>v. ev_tid v = Some t" "same_thread t"
  for C imp t
  by unfold_locales (auto intro: same_event other_event same_thread_trans)

lemma merge_threads:
  assumes "fold_opt (merge_event C imp) vs merge_init = Some st"
  shows "\<exists>st'. fold_opt (merge_event C imp) (filter (\<lambda>v. ev_tid v = Some t) vs) merge_init = Some st'
    \<and> blocks_of t (block_trace st') = blocks_of t (block_trace st)"
proof -
  obtain st' where "fold_opt (merge_event C imp) (filter (\<lambda>v. ev_tid v = Some t) vs) merge_init = Some st'"
    "same_thread t st st'"
    using thread.loop_project [OF same_thread_refl assms] by blast
  then show ?thesis by (auto simp: same_thread_def)
qed

section \<open>The frames left at the end\<close>

text \<open>A closing block is empty and ends a frame; every frame still open gets exactly one.\<close>

definition closing :: "smallest_block \<Rightarrow> bool" where
  "closing b \<longleftrightarrow> sb_Type b = NormalBlock \<and> End b = Start b \<and> IsFirst b = 0 \<and> IsLast b \<noteq> 0"

definition adds_closing :: "merge_state \<Rightarrow> merge_state \<Rightarrow> bool" where
  "adds_closing st st' \<longleftrightarrow> (\<exists>bs. block_trace st' = block_trace st @ bs \<and> list_all closing bs)"

lemma adds_closing_trans: "adds_closing s t \<Longrightarrow> adds_closing t u \<Longrightarrow> adds_closing s u"
  by (fastforce simp: adds_closing_def)

lemma close_closing:
  "close_block C rest (SmallestBlock NormalBlock tid bb i i (0, 0) l) = Some b \<Longrightarrow> closing b \<and> sb_TID b = tid"
  using close_block_fields [of C rest "SmallestBlock NormalBlock tid bb i i (0, 0) l" b]
  by (simp add: closing_def SmallestBlock_def)

lemma flush_stack_adds:
  assumes "flush_stack C tid stk st = Some st'"
  shows "adds_closing st st' \<and> (\<forall>t. t \<noteq> tid \<longrightarrow> stack_of st' t = stack_of st t)
    \<and> (\<forall>t. length (blocks_of t (block_trace st'))
         = length (blocks_of t (block_trace st)) + (if t = tid then length stk else 0))"
  using assms
proof (induction stk arbitrary: st)
  case Nil
  then show ?case by (auto simp: adds_closing_def)
next
  case (Cons info rest)
  then obtain l b where b: "close_block C rest (SmallestBlock NormalBlock tid (si_BBID info) (CurIndex info)
      (CurIndex info) (0, 0) l) = Some b"
    and rest: "flush_stack C tid rest (add_blocks [b] (set_stack tid rest st)) = Some st'"
    by (auto elim!: bind_SomeE)
  have cl: "closing b" "sb_TID b = tid"
    using close_closing [OF b] by simp_all
  then have "adds_closing st (add_blocks [b] (set_stack tid rest st))"
    by (auto simp: adds_closing_def)
  with Cons.IH [OF rest] cl show ?case
    using adds_closing_trans by (auto simp: blocks_of_def closing_def)
qed

interpretation flush: loop_body "\<lambda>tid s. flush_stack C tid (stack_of s tid) s" "\<lambda>_. True" adds_closing for C
  by unfold_locales (auto simp: adds_closing_def dest: flush_stack_adds intro: adds_closing_trans)

lemma flush_counts:
  assumes "fold_opt (\<lambda>tid s. flush_stack C tid (stack_of s tid) s) ks st = Some st'" "distinct ks"
  shows "length (blocks_of t (block_trace st'))
    = length (blocks_of t (block_trace st)) + (if t \<in> set ks then length (stack_of st t) else 0)"
  using assms
proof (induction ks arbitrary: st)
  case (Cons k ks)
  then obtain s1 where s1: "flush_stack C k (stack_of st k) st = Some s1"
    "fold_opt (\<lambda>tid s. flush_stack C tid (stack_of s tid) s) ks s1 = Some st'"
    by (auto elim!: bind_SomeE)
  with Cons.IH [OF s1(2)] Cons.prems(2) flush_stack_adds [OF s1(1)] show ?case
    by auto
qed simp

lemma flush_all_ok:
  assumes "flush_all C st = Some st'" "finite (Mapping.keys (call_stack st))"
  obtains bs where "block_trace st' = block_trace st @ bs" "list_all closing bs"
    "\<And>t. length (blocks_of t bs) = length (stack_of st t)"
proof -
  obtain bs where bs: "block_trace st' = block_trace st @ bs" "list_all closing bs"
    using flush.loop_rel [OF _ assms(1) [unfolded flush_all_def]] by (auto simp: adds_closing_def)
  have "length (blocks_of t bs) = length (stack_of st t)" for t
    using flush_counts [OF assms(1) [unfolded flush_all_def], of t] bs assms(2)
    by (auto simp: ordered_keys_def stack_of_def Mapping.lookup_default_def keys_dom_lookup
        split: option.splits if_splits)
  with bs that show thesis by blast
qed

lemma finite_stacks [simp]: "finite (Mapping.keys (call_stack (st :: merge_state)))"
  by (rule finite_subset [OF subset_UNIV]) simp

lemma shown_length: "length stk - 1 \<le> length (shown C stk first) \<and> length (shown C stk first) \<le> length stk"
  by (cases stk) simp_all

lemma MergeTrace_blocks:
  assumes "code_ok C" "MergeTrace D C trace impactful = Some bt"
  shows "\<exists>main cl. bt = main @ cl \<and> list_all closing cl \<and>
    (\<forall>t. \<exists>stk. fold_opt (replay C) (blocks_of t main) [] = Some stk
       \<and> length stk \<le> length (blocks_of t cl) \<and> length (blocks_of t cl) \<le> length stk + 1)"
proof -
  obtain st st' where st: "for_each_event D (merge_event C impactful) (TraceIter trace) no_ptrs merge_init = Some st"
    "flush_all C st = Some st'" "bt = block_trace st'"
    using assms(2) by (auto simp: MergeTrace_def elim!: bind_SomeE)
  from st(1) obtain vs where "fold_opt (merge_event C impactful) vs merge_init = Some st"
    by (rule for_each_event_views)
  from merge_replay [OF assms(1) this] have ok: "merge_ok C st" .
  obtain cl where cl: "block_trace st' = block_trace st @ cl" "list_all closing cl"
    "\<And>t. length (blocks_of t cl) = length (stack_of st t)"
    using flush_all_ok [OF st(2)] by auto
  show ?thesis
  proof (intro exI conjI allI)
    show "bt = block_trace st @ cl" "list_all closing cl" using st(3) cl by simp_all
    fix t
    show "fold_opt (replay C) (blocks_of t (block_trace st)) []
        = Some (shown C (stack_of st t) (is_first st t))"
      using ok by (simp add: merge_ok_def)
    show "length (shown C (stack_of st t) (is_first st t)) \<le> length (blocks_of t cl)"
      "length (blocks_of t cl) \<le> length (shown C (stack_of st t) (is_first st t)) + 1"
      using shown_length [of "stack_of st t" C "is_first st t"] cl(3) [of t] by auto
  qed
qed

text \<open>Flushing reads the stack of the last event's thread, whichever thread it flushes.\<close>

lemma flush_stops:
  assumes "read_tid st = Some t" "stack_of st t = []"
  shows "tid \<in> set ks \<Longrightarrow> stack_of st tid \<noteq> [] \<Longrightarrow>
    fold_opt (\<lambda>k s. flush_stack C k (stack_of s k) s) ks st = None"
proof (induction ks)
  case (Cons k ks)
  show ?case
  proof (cases "stack_of st k")
    case Nil
    with Cons show ?thesis by auto
  next
    case (Cons info rest)
    then show ?thesis using assms by (simp add: at_def)
  qed
qed simp

lemma flush_last_thread:
  assumes "read_tid st = Some t" "stack_of st t = []" "stack_of st tid \<noteq> []"
  shows "flush_all C st = None"
proof -
  have "tid \<in> Mapping.keys (call_stack st)"
    using assms(3) by (auto simp: stack_of_def lookup_default_def keys_dom_lookup split: option.splits)
  then have "tid \<in> set (Mapping.ordered_keys (call_stack st))"
    by (simp add: ordered_keys_def)
  then show ?thesis
    using flush_stops [OF assms(1,2) _ assms(3)] by (simp add: flush_all_def)
qed

end
