(* ===== verification/SegmentTree.thy ===== *)
theory SegmentTree
  imports Prelude
begin

text \<open>
  The segment tree of \<open>include/SegmentTree.hpp\<close>: a binary tree over the address range
  \<open>[0, MAX_RANGE)\<close> whose leaves are empty or carry one value for their whole range.
  A node keeps its type, value, range and two child pointers (\<open>None\<close> is \<open>NULL\<close>).
  \<open>Set_st\<close>, \<open>Get_st\<close> and \<open>Collect_st\<close> are the three operations; a null dereference,
  the failed \<open>assert\<close> and a recursion without end are \<open>None\<close>.
\<close>

section \<open>Data and operations\<close>

datatype seg_type = EMPTY_SEGMENT | PARTIAL_SEGMENT | COVERED_SEGMENT

datatype 'a segtree =
  SegNode (st_type: seg_type) (st_value: 'a) (st_left: u64) (st_right: u64)
    (l_child: "'a segtree option") (r_child: "'a segtree option")

record 'a segment =
  sg_type :: seg_type
  sg_value :: 'a
  sg_left :: u64
  sg_right :: u64

definition MAX_RANGE :: u64 where
  "MAX_RANGE = - 1"

text \<open>\<open>v0\<close> is \<open>T()\<close>, the value a new tree's root is given.\<close>

definition NewTree :: "'a \<Rightarrow> 'a segtree" where
  "NewTree v0 = SegNode EMPTY_SEGMENT v0 0 MAX_RANGE None None"

definition mid :: "u64 \<Rightarrow> u64 \<Rightarrow> u64" where
  "mid left right =
     left div 2 + right div 2 + (if left mod 2 \<noteq> 0 \<and> right mod 2 \<noteq> 0 then 1 else 0)"

text \<open>Splitting a leaf before descending; a leaf that still has a child fails the \<open>assert\<close>.\<close>

definition split_node :: "'a segtree \<Rightarrow> 'a segtree option" where
  "split_node t =
     (if st_type t \<noteq> PARTIAL_SEGMENT then
        if l_child t = None \<and> r_child t = None then
          let m = mid (st_left t) (st_right t) in
          Some (SegNode PARTIAL_SEGMENT (st_value t) (st_left t) (st_right t)
            (Some (SegNode (st_type t) (st_value t) (st_left t) m None None))
            (Some (SegNode (st_type t) (st_value t) m (st_right t) None None)))
        else None
      else Some t)"

text \<open>Joining two children that say the same, on the way up.\<close>

definition join_node :: "'a segtree \<Rightarrow> 'a segtree" where
  "join_node t =
     (case (l_child t, r_child t) of
        (Some a, Some b) \<Rightarrow>
          if (st_type a = COVERED_SEGMENT \<and> st_type b = COVERED_SEGMENT
                \<and> st_value a = st_value b)
             \<or> (st_type a = EMPTY_SEGMENT \<and> st_type b = EMPTY_SEGMENT)
          then SegNode (st_type a) (st_value a) (st_left t) (st_right t) None None
          else t
      | _ \<Rightarrow> t)"

partial_function (option) Set_st ::
  "'a segtree \<Rightarrow> u64 \<Rightarrow> u64 \<Rightarrow> 'a \<Rightarrow> 'a segtree option" where
  "Set_st t l r v =
     (if l \<ge> r then Some t
      else if st_type t = COVERED_SEGMENT \<and> st_value t = v then Some t
      else if l \<le> st_left t \<and> r \<ge> st_right t then
        Some (SegNode COVERED_SEGMENT v (st_left t) (st_right t) None None)
      else do {
        s \<leftarrow> split_node t;
        lc \<leftarrow> (if l < mid (st_left t) (st_right t) then do {
                  c \<leftarrow> l_child s;
                  c' \<leftarrow> Set_st c l (min r (mid (st_left t) (st_right t))) v;
                  Some (Some c')
                } else Some (l_child s));
        rc \<leftarrow> (if r > mid (st_left t) (st_right t) then do {
                  c \<leftarrow> r_child s;
                  c' \<leftarrow> Set_st c (max l (mid (st_left t) (st_right t))) r v;
                  Some (Some c')
                } else Some (r_child s));
        Some (join_node (SegNode (st_type s) (st_value s) (st_left s) (st_right s) lc rc))
      })"

declare Set_st.simps [code]

text \<open>\<open>Get\<close> returns whether the point is covered, and the out-parameter \<open>v\<close>.\<close>

fun Get_st :: "'a segtree \<Rightarrow> u64 \<Rightarrow> 'a \<Rightarrow> (bool \<times> 'a) option" where
  "Get_st (SegNode ty value left right lc rc) x v =
     (if ty = EMPTY_SEGMENT then Some (False, v)
      else if ty = COVERED_SEGMENT then Some (True, value)
      else if x < mid left right
      then (case lc of None \<Rightarrow> None | Some c \<Rightarrow> Get_st c x v)
      else (case rc of None \<Rightarrow> None | Some c \<Rightarrow> Get_st c x v))"

text \<open>Appending a leaf to the result, joined with the last segment when they say the same.\<close>

definition same_label :: "'a segment \<Rightarrow> 'a segment \<Rightarrow> bool" where
  "same_label a b \<longleftrightarrow>
     (sg_type a = EMPTY_SEGMENT \<and> sg_type b = EMPTY_SEGMENT)
     \<or> (sg_type a = sg_type b \<and> sg_value a = sg_value b)"

definition push_segment :: "'a segment \<Rightarrow> 'a segment list \<Rightarrow> 'a segment list" where
  "push_segment s res =
     (if res \<noteq> [] \<and> same_label (last res) s \<and> sg_right (last res) = sg_left s
      then butlast res @ [(last res)\<lparr>sg_right := sg_right s\<rparr>]
      else res @ [s])"

fun Collect2 ::
  "'a segtree \<Rightarrow> u64 \<Rightarrow> u64 \<Rightarrow> 'a segment list \<Rightarrow> 'a segment list option" where
  "Collect2 (SegNode ty value left right lc rc) l r res =
     (if l \<ge> r then Some res
      else if ty \<noteq> PARTIAL_SEGMENT then
        Some (push_segment
          \<lparr>sg_type = ty, sg_value = value, sg_left = left, sg_right = right\<rparr> res)
      else do {
        res1 \<leftarrow> (if l < mid left right
                  then (case lc of None \<Rightarrow> None
                        | Some c \<Rightarrow> Collect2 c l (min r (mid left right)) res)
                  else Some res);
        (if r > mid left right
         then (case rc of None \<Rightarrow> None
               | Some c \<Rightarrow> Collect2 c (max l (mid left right)) r res1)
         else Some res1)
      })"

definition Collect_st :: "'a segtree \<Rightarrow> u64 \<Rightarrow> u64 \<Rightarrow> 'a segment list option" where
  "Collect_st t l r = Collect2 t l r []"

section \<open>The midpoint\<close>

lemma half_sum:
  "(a::nat) div 2 + b div 2 + (if a mod 2 \<noteq> 0 \<and> b mod 2 \<noteq> 0 then 1 else 0) = (a + b) div 2"
  by (cases "even a"; cases "even b") (auto elim!: evenE oddE)

lemma unat_mid: "unat (mid l r) = (unat l + unat r) div 2"
proof -
  let ?c = "\<lambda>x::u64. x mod 2 \<noteq> 0" and ?n = "2 ^ LENGTH(64) :: nat"
  have c: "?c x \<longleftrightarrow> unat x mod 2 \<noteq> 0" for x
    by (simp add: unat_eq_0 [symmetric] unat_mod)
  have b: "unat x < ?n" for x :: u64
    by (rule unsigned_less)
  have s: "(unat l + unat r) div 2 < ?n"
    using b [of l] b [of r] by linarith
  have "unat (mid l r) = ((unat (l div 2) + unat (r div 2)) mod ?n
      + unat (if ?c l \<and> ?c r then 1 else 0 :: u64)) mod ?n"
    unfolding mid_def by (simp only: unat_word_ariths(1))
  also have "\<dots> = (unat l div 2 + unat r div 2
      + (if unat l mod 2 \<noteq> 0 \<and> unat r mod 2 \<noteq> 0 then 1 else 0)) mod ?n"
    by (simp only: c unat_div if_distrib [of unat] unat_0 unat_1 mod_add_left_eq) simp
  also have "\<dots> = (unat l + unat r) div 2"
    by (simp only: half_sum mod_less [OF s])
  finally show ?thesis .
qed

lemma mid_bounds:
  assumes "l < r"
  shows "l \<le> mid l r" and "mid l r < r"
  using assms by (simp_all add: word_le_nat_alt word_less_nat_alt unat_mid)

lemma mid_gt:
  assumes "l < r" and "r \<noteq> l + 1"
  shows "l < mid l r"
proof -
  have "unat r \<noteq> unat l + 1"
  proof
    assume "unat r = unat l + 1"
    then have "word_of_nat (unat r) = (word_of_nat (unat l + 1) :: u64)"
      by (rule arg_cong)
    then show False
      using assms(2) by simp
  qed
  then show ?thesis
    using assms(1) by (simp add: word_less_nat_alt unat_mid)
qed

section \<open>Well-formed trees and the map they denote\<close>

text \<open>
  A node's range is not empty; a partial node has two children that split its range at the
  midpoint; a leaf has none.
\<close>

fun wf_st :: "'a segtree \<Rightarrow> bool" where
  "wf_st (SegNode ty v l r lc rc) =
     (l < r \<and>
      (case lc of
         None \<Rightarrow> rc = None \<and> ty \<noteq> PARTIAL_SEGMENT
       | Some a \<Rightarrow> (case rc of None \<Rightarrow> False | Some b \<Rightarrow>
           ty = PARTIAL_SEGMENT
           \<and> st_left a = l \<and> st_right a = mid l r
           \<and> st_left b = mid l r \<and> st_right b = r \<and> wf_st a \<and> wf_st b)))"

text \<open>The value a point is given, if it is covered.\<close>

fun seg_at :: "'a segtree \<Rightarrow> u64 \<Rightarrow> 'a option" where
  "seg_at (SegNode ty v l r lc rc) x =
     (if ty = EMPTY_SEGMENT then None
      else if ty = COVERED_SEGMENT then Some v
      else if x < mid l r
      then (case lc of None \<Rightarrow> None | Some c \<Rightarrow> seg_at c x)
      else (case rc of None \<Rightarrow> None | Some c \<Rightarrow> seg_at c x))"

text \<open>A well-formed tree is a leaf or a partial node over two well-formed halves.\<close>

lemma wf_st_cases:
  assumes "wf_st t"
  obtains (leaf) ty v l r where "t = SegNode ty v l r None None" "ty \<noteq> PARTIAL_SEGMENT" "l < r"
  | (node) v l r a b where "t = SegNode PARTIAL_SEGMENT v l r (Some a) (Some b)" "l < r"
      "st_left a = l" "st_right a = mid l r" "st_left b = mid l r" "st_right b = r"
      "wf_st a" "wf_st b"
  using assms by (cases t) (auto split: option.splits)

lemma wf_st_range: "wf_st t \<Longrightarrow> st_left t < st_right t"
  by (cases t) auto

lemma wf_NewTree: "wf_st (NewTree v0)"
  by (simp add: NewTree_def MAX_RANGE_def word_gt_0)

lemma NewTree_simps [simp]:
  "st_left (NewTree v0) = 0" "st_right (NewTree v0) = MAX_RANGE" "seg_at (NewTree v0) x = None"
  by (simp_all add: NewTree_def)

section \<open>Get\<close>

lemma Get_st_wf:
  "wf_st t \<Longrightarrow> Get_st t x v0 =
     Some (case seg_at t x of None \<Rightarrow> (False, v0) | Some v \<Rightarrow> (True, v))"
  by (induction t x v0 rule: Get_st.induct)
    (auto split: option.splits intro: seg_type.exhaust)

section \<open>Set\<close>

text \<open>Joining the children does not change what the node denotes.\<close>

lemma join_node_range [simp]:
  "st_left (join_node t) = st_left t" "st_right (join_node t) = st_right t"
  by (auto simp: join_node_def split: option.splits)

lemma join_node_wf: "wf_st t \<Longrightarrow> wf_st (join_node t)"
  by (cases t) (auto simp: join_node_def split: option.splits)

lemma join_node_at:
  assumes "wf_st t"
  shows "seg_at (join_node t) x = seg_at t x"
  using assms
proof (cases rule: wf_st_cases)
  case (node v l r a b)
  then show ?thesis
    by (cases a; cases b) (auto simp: join_node_def)
qed (simp add: join_node_def)

text \<open>Splitting a leaf gives a partial node that denotes the same.\<close>

lemma split_node_wf:
  assumes "wf_st t" and "\<not> (l \<le> st_left t \<and> st_right t \<le> r)"
    and "st_left t \<le> l" "l < r" "r \<le> st_right t"
  obtains v a b where
    "split_node t = Some (SegNode PARTIAL_SEGMENT v (st_left t) (st_right t) (Some a) (Some b))"
    "wf_st (SegNode PARTIAL_SEGMENT v (st_left t) (st_right t) (Some a) (Some b))"
    "\<And>x. seg_at (SegNode PARTIAL_SEGMENT v (st_left t) (st_right t) (Some a) (Some b)) x
       = seg_at t x"
  using assms(1)
proof (cases rule: wf_st_cases)
  case (leaf ty v L R)
  have "R \<noteq> L + 1"
    using assms leaf by (auto simp: word_le_nat_alt word_less_nat_alt unat_word_ariths) 
  then have "L < mid L R" "mid L R < R"
    using leaf mid_gt mid_bounds by auto
  with leaf show ?thesis
    by (intro that) (auto simp: split_node_def Let_def)
next
  case (node v L R a b)
  then show ?thesis
    by (intro that [of v a b]) (auto simp: split_node_def)
qed

text \<open>What \<open>Set\<close> promises of one node, for a range inside the node's own.\<close>

definition set_ok :: "'a segtree \<Rightarrow> u64 \<Rightarrow> u64 \<Rightarrow> 'a \<Rightarrow> 'a segtree \<Rightarrow> bool" where
  "set_ok t l r v t' \<longleftrightarrow>
     wf_st t' \<and> st_left t' = st_left t \<and> st_right t' = st_right t
     \<and> (\<forall>x. st_left t \<le> x \<and> x < st_right t \<longrightarrow>
          seg_at t' x = (if l \<le> x \<and> x < r then Some v else seg_at t x))"

lemma set_ok_id: "wf_st t \<Longrightarrow> l \<ge> r \<Longrightarrow> set_ok t l r v t"
  by (auto simp: set_ok_def)

lemma set_ok_covered:
  "wf_st t \<Longrightarrow> st_type t = COVERED_SEGMENT \<Longrightarrow> st_value t = v \<Longrightarrow> set_ok t l r v t"
  by (cases t) (auto simp: set_ok_def)

lemma set_ok_fill:
  "wf_st t \<Longrightarrow> l \<le> st_left t \<Longrightarrow> st_right t \<le> r \<Longrightarrow>
     set_ok t l r v (SegNode COVERED_SEGMENT v (st_left t) (st_right t) None None)"
  by (auto simp: set_ok_def wf_st_range)

text \<open>A partial node whose children were set on their parts of the range.\<close>

lemma set_ok_node:
  assumes n: "wf_st (SegNode PARTIAL_SEGMENT w L R (Some a) (Some b))"
    and a: "if l < mid L R then set_ok a l (min r (mid L R)) v a' else a' = a"
    and b: "if mid L R < r then set_ok b (max l (mid L R)) r v b' else b' = b"
  shows "set_ok (SegNode PARTIAL_SEGMENT w L R (Some a) (Some b)) l r v
           (join_node (SegNode PARTIAL_SEGMENT w L R (Some a') (Some b')))"
proof -
  let ?n' = "SegNode PARTIAL_SEGMENT w L R (Some a') (Some b')"
  have m: "L \<le> mid L R" "mid L R < R"
    using n mid_bounds by auto
  have wf': "wf_st ?n'"
    using n a b by (auto simp: set_ok_def split: if_splits)
  have "seg_at ?n' x = (if l \<le> x \<and> x < r then Some v
      else seg_at (SegNode PARTIAL_SEGMENT w L R (Some a) (Some b)) x)"
    if "L \<le> x" "x < R" for x
    using n a b that by (auto simp: set_ok_def split: if_splits)
  with wf' show ?thesis
    by (simp add: set_ok_def join_node_wf join_node_at del: seg_at.simps wf_st.simps)
qed

lemma Set_st_inside:
  assumes "wf_st t" "st_left t \<le> l" "r \<le> st_right t"
  shows "\<exists>t'. Set_st t l r v = Some t' \<and> set_ok t l r v t'"
  using assms
proof (induction "unat (st_right t) - unat (st_left t)" arbitrary: t l r rule: less_induct)
  case less
  let ?L = "st_left t" and ?R = "st_right t"
  let ?m = "mid ?L ?R"
  consider "l \<ge> r" | "st_type t = COVERED_SEGMENT" "st_value t = v"
    | "l < r" "l \<le> ?L" "?R \<le> r" "\<not> (st_type t = COVERED_SEGMENT \<and> st_value t = v)"
    | "l < r" "\<not> (l \<le> ?L \<and> ?R \<le> r)" "\<not> (st_type t = COVERED_SEGMENT \<and> st_value t = v)"
    by force
  then show ?case
  proof cases
    case 4
    obtain w a b where sp: "split_node t = Some (SegNode PARTIAL_SEGMENT w ?L ?R (Some a) (Some b))"
      and n: "wf_st (SegNode PARTIAL_SEGMENT w ?L ?R (Some a) (Some b))"
      and at: "\<And>x. seg_at (SegNode PARTIAL_SEGMENT w ?L ?R (Some a) (Some b)) x = seg_at t x"
      using split_node_wf [OF less.prems(1) 4(2) less.prems(2) 4(1) less.prems(3)] by blast
    let ?n = "SegNode PARTIAL_SEGMENT w ?L ?R (Some a) (Some b)"
    have w: "wf_st a" "wf_st b" "st_left a = ?L" "st_right a = ?m" "st_left b = ?m"
      "st_right b = ?R"
      using n by auto
    have m: "?L < ?m" "?m < ?R"
      using wf_st_range [OF w(1)] wf_st_range [OF w(2)] w by simp_all
    have "\<exists>a'. Set_st a l (min r ?m) v = Some a' \<and> set_ok a l (min r ?m) v a'"
      using w m less.prems by (intro less.hyps) (auto simp: word_less_nat_alt)
    then obtain a' where a': "Set_st a l (min r ?m) v = Some a'" "set_ok a l (min r ?m) v a'"
      by blast
    have "\<exists>b'. Set_st b (max l ?m) r v = Some b' \<and> set_ok b (max l ?m) r v b'"
      using w m less.prems by (intro less.hyps) (auto simp: word_less_nat_alt)
    then obtain b' where b': "Set_st b (max l ?m) r v = Some b'" "set_ok b (max l ?m) r v b'"
      by blast
    let ?a = "if l < ?m then a' else a" and ?b = "if ?m < r then b' else b"
    have "set_ok ?n l r v (join_node (SegNode PARTIAL_SEGMENT w ?L ?R (Some ?a) (Some ?b)))"
      using a' b' by (intro set_ok_node [OF n]) auto
    then have "set_ok t l r v (join_node (SegNode PARTIAL_SEGMENT w ?L ?R (Some ?a) (Some ?b)))"
      using at by (simp add: set_ok_def del: seg_at.simps)
    moreover have "Set_st t l r v =
        Some (join_node (SegNode PARTIAL_SEGMENT w ?L ?R (Some ?a) (Some ?b)))"
      unfolding Set_st.simps [of t] using 4 a'(1) b'(1) by (auto simp: sp)
    ultimately show ?thesis by blast
  qed (use less.prems in \<open>auto simp: Set_st.simps [of t] intro: set_ok_id set_ok_covered set_ok_fill\<close>)
qed

text \<open>
  The tree of \<open>NewTree\<close> spans \<open>[0, MAX_RANGE)\<close>, so every range is inside it: on such a
  tree \<open>Set\<close> returns, and overwrites exactly the points of \<open>[l, r)\<close>.
\<close>

definition full_st :: "'a segtree \<Rightarrow> bool" where
  "full_st t \<longleftrightarrow> wf_st t \<and> st_left t = 0 \<and> st_right t = MAX_RANGE"

lemma full_NewTree: "full_st (NewTree v0)"
  by (simp add: full_st_def wf_NewTree)

lemma le_MAX_RANGE [simp]: "x \<le> MAX_RANGE"
  by (simp add: MAX_RANGE_def)

lemma Set_st_full:
  assumes "full_st t"
  obtains t' where "Set_st t l r v = Some t'" "full_st t'"
    "\<And>x. x < MAX_RANGE \<Longrightarrow> seg_at t' x = (if l \<le> x \<and> x < r then Some v else seg_at t x)"
  using Set_st_inside [of t l r v] assms by (auto simp: full_st_def set_ok_def)

section \<open>Collect\<close>

definition sg_label :: "'a segment \<Rightarrow> 'a option" where
  "sg_label s = (if sg_type s = COVERED_SEGMENT then Some (sg_value s) else None)"

text \<open>\<open>tiles ss a b\<close>: the segments are not empty and follow each other from \<open>a\<close> to \<open>b\<close>.\<close>

fun tiles :: "'a segment list \<Rightarrow> u64 \<Rightarrow> u64 \<Rightarrow> bool" where
  "tiles [] a b \<longleftrightarrow> a = b"
| "tiles (s # ss) a b \<longleftrightarrow> sg_left s = a \<and> a < sg_right s \<and> tiles ss (sg_right s) b"

definition describes :: "'a segtree \<Rightarrow> u64 \<Rightarrow> u64 \<Rightarrow> 'a segment \<Rightarrow> bool" where
  "describes t l r s \<longleftrightarrow>
     sg_type s \<noteq> PARTIAL_SEGMENT \<and> sg_left s < r \<and> l < sg_right s
     \<and> (\<forall>x. sg_left s \<le> x \<and> x < sg_right s \<longrightarrow> seg_at t x = sg_label s)"

lemma tiles_append: "tiles (xs @ ys) a b \<longleftrightarrow> (\<exists>m. tiles xs a m \<and> tiles ys m b)"
  by (induction xs arbitrary: a) auto

lemma tiles_le: "tiles ss a b \<Longrightarrow> a \<le> b"
  by (induction ss arbitrary: a) force+

lemma tiles_ends:
  "tiles ss a b \<Longrightarrow> ss \<noteq> [] \<Longrightarrow> sg_left (hd ss) = a \<and> sg_right (last ss) = b"
  by (induction ss arbitrary: a) (auto split: if_splits)

lemma tiles_covers:
  "tiles ss a b \<Longrightarrow> a \<le> x \<Longrightarrow> x < b \<Longrightarrow> \<exists>s \<in> set ss. sg_left s \<le> x \<and> x < sg_right s"
proof (induction ss arbitrary: a)
  case (Cons s ss)
  then show ?case
    by (cases "x < sg_right s") auto
qed auto

text \<open>The leaves \<open>Collect2\<close> visits; the result is these leaves, pushed in order.\<close>

fun leaves_in :: "'a segtree \<Rightarrow> u64 \<Rightarrow> u64 \<Rightarrow> 'a segment list" where
  "leaves_in (SegNode ty value left right lc rc) l r =
     (if l \<ge> r then []
      else if ty \<noteq> PARTIAL_SEGMENT then
        [\<lparr>sg_type = ty, sg_value = value, sg_left = left, sg_right = right\<rparr>]
      else (if l < mid left right
            then (case lc of None \<Rightarrow> [] | Some c \<Rightarrow> leaves_in c l (min r (mid left right)))
            else [])
         @ (if r > mid left right
            then (case rc of None \<Rightarrow> [] | Some c \<Rightarrow> leaves_in c (max l (mid left right)) r)
            else []))"

lemma Collect2_leaves:
  "wf_st t \<Longrightarrow> Collect2 t l r res = Some (fold push_segment (leaves_in t l r) res)"
proof (induction t arbitrary: l r res)
  case (SegNode ty v L R lc rc)
  show ?case
  proof (cases rule: wf_st_cases [OF SegNode.prems(1)])
    case (2 v' l' r' a b)
    then have "Collect2 a p q acc = Some (fold push_segment (leaves_in a p q) acc)"
      and "Collect2 b p q acc = Some (fold push_segment (leaves_in b p q) acc)" for p q acc
      using SegNode.IH by simp_all
    with 2 show ?thesis by simp
  qed simp
qed

lemma describes_child:
  assumes n: "wf_st (SegNode PARTIAL_SEGMENT w L R (Some a) (Some b))" (is "wf_st ?n")
  shows "describes a l (min r (mid L R)) s \<Longrightarrow> sg_right s \<le> mid L R \<Longrightarrow> describes ?n l r s"
    and "describes b (max l (mid L R)) r s \<Longrightarrow> mid L R \<le> sg_left s \<Longrightarrow> describes ?n l r s"
proof -
  have "seg_at ?n x = seg_at a x" if "sg_right s \<le> mid L R" "x < sg_right s" for x
    using less_le_trans [OF that(2,1)] by simp
  then show "describes a l (min r (mid L R)) s \<Longrightarrow> sg_right s \<le> mid L R \<Longrightarrow> describes ?n l r s"
    by (simp add: describes_def del: seg_at.simps)
  have "seg_at ?n x = seg_at b x" if "mid L R \<le> sg_left s" "sg_left s \<le> x" for x
    using order_trans [OF that] by (simp add: not_less [symmetric])
  then show "describes b (max l (mid L R)) r s \<Longrightarrow> mid L R \<le> sg_left s \<Longrightarrow> describes ?n l r s"
    by (simp add: describes_def del: seg_at.simps)
qed

lemma tiles_within:
  "tiles ss a b \<Longrightarrow> s \<in> set ss \<Longrightarrow> a \<le> sg_left s \<and> sg_right s \<le> b"
  by (induction ss arbitrary: a) (auto dest: tiles_le, force)

definition leaves_ok :: "'a segtree \<Rightarrow> u64 \<Rightarrow> u64 \<Rightarrow> 'a segment list \<Rightarrow> u64 \<Rightarrow> u64 \<Rightarrow> bool" where
  "leaves_ok t l r ss a b \<longleftrightarrow>
     tiles ss a b \<and> st_left t \<le> a \<and> a \<le> l \<and> r \<le> b \<and> b \<le> st_right t
     \<and> list_all (describes t l r) ss"

lemma leaves_ok_leaf:
  assumes "ty \<noteq> PARTIAL_SEGMENT" "L \<le> l" "l < r" "r \<le> R"
  shows "leaves_ok (SegNode ty v L R None None) l r
    [\<lparr>sg_type = ty, sg_value = v, sg_left = L, sg_right = R\<rparr>] L R"
proof -
  have "L < r" "l < R" "L < R"
    using assms by (meson le_less_trans less_le_trans)+
  then show ?thesis
    using assms by (cases ty) (auto simp: leaves_ok_def describes_def sg_label_def)
qed

lemma leaves_ok_left:
  assumes n: "wf_st (SegNode PARTIAL_SEGMENT w L R (Some a) (Some b))"
    and a: "leaves_ok a l (min r (mid L R)) ss p q"
  shows "tiles ss p q" "L \<le> p" "p \<le> l" "min r (mid L R) \<le> q" "q \<le> mid L R"
    "list_all (describes (SegNode PARTIAL_SEGMENT w L R (Some a) (Some b)) l r) ss"
proof -
  show "tiles ss p q" "L \<le> p" "p \<le> l" "min r (mid L R) \<le> q" "q \<le> mid L R"
    using a n by (simp_all add: leaves_ok_def)
  then show "list_all (describes (SegNode PARTIAL_SEGMENT w L R (Some a) (Some b)) l r) ss"
    using a tiles_within [of ss p q] describes_child(1) [OF n]
    by (force simp: leaves_ok_def list_all_iff)
qed

lemma leaves_ok_right:
  assumes n: "wf_st (SegNode PARTIAL_SEGMENT w L R (Some a) (Some b))"
    and b: "leaves_ok b (max l (mid L R)) r ss p q"
  shows "tiles ss p q" "mid L R \<le> p" "p \<le> max l (mid L R)" "r \<le> q" "q \<le> R"
    "list_all (describes (SegNode PARTIAL_SEGMENT w L R (Some a) (Some b)) l r) ss"
proof -
  show "tiles ss p q" "mid L R \<le> p" "p \<le> max l (mid L R)" "r \<le> q" "q \<le> R"
    using b n by (simp_all add: leaves_ok_def)
  then show "list_all (describes (SegNode PARTIAL_SEGMENT w L R (Some a) (Some b)) l r) ss"
    using b tiles_within [of ss p q] describes_child(2) [OF n]
    by (force simp: leaves_ok_def list_all_iff)
qed

lemma leaves_in_ok:
  "wf_st t \<Longrightarrow> st_left t \<le> l \<Longrightarrow> l < r \<Longrightarrow> r \<le> st_right t
     \<Longrightarrow> \<exists>a b. leaves_ok t l r (leaves_in t l r) a b"
proof (induction t arbitrary: l r)
  case (SegNode ty v L R lc rc)
  show ?case
  proof (cases lc)
    case None
    with SegNode.prems have "leaves_ok (SegNode ty v L R lc rc) l r
        [\<lparr>sg_type = ty, sg_value = v, sg_left = L, sg_right = R\<rparr>] L R"
      using leaves_ok_leaf [of ty L l r R v] by simp
    with SegNode.prems None show ?thesis by auto
  next
    case (Some a)
    with SegNode.prems(1) obtain b where eq: "ty = PARTIAL_SEGMENT" "rc = Some b"
      by (auto split: option.splits)
    let ?m = "mid L R" and ?n = "SegNode PARTIAL_SEGMENT v L R (Some a) (Some b)"
    have n: "wf_st ?n" and lr: "L \<le> l" "l < r" "r \<le> R"
      using SegNode.prems Some eq by simp_all
    have A: "\<exists>p q. leaves_ok a l (min r ?m) (leaves_in a l (min r ?m)) p q" if "l < ?m"
      using SegNode.IH(1) [of a l "min r ?m"] that n lr Some by simp
    have B: "\<exists>p q. leaves_ok b (max l ?m) r (leaves_in b (max l ?m) r) p q" if "?m < r"
      using SegNode.IH(2) [of b "max l ?m" r] that n lr eq by simp
    show ?thesis
    proof (cases "l < ?m")
      case True
      then obtain p q where "leaves_ok a l (min r ?m) (leaves_in a l (min r ?m)) p q"
        using A by blast
      note a = leaves_ok_left [OF n this]
      show ?thesis
      proof (cases "?m < r")
        case True
        with B obtain p' q' where "leaves_ok b (max l ?m) r (leaves_in b (max l ?m) r) p' q'"
          by blast
        note b = leaves_ok_right [OF n this]
        have "q = p'"
          using a(4,5) b(2,3) \<open>l < ?m\<close> True by (simp add: min_def max_def split: if_splits)
        then have "leaves_ok ?n l r (leaves_in ?n l r) p q'"
          using a b \<open>l < ?m\<close> True lr by (auto simp: leaves_ok_def tiles_append)
        with Some eq show ?thesis by blast
      next
        case False
        have "q \<le> R" "r \<le> q"
          using order_trans [OF a(5), of R] a(4) False n mid_bounds(2) [of L R]
          by (auto simp: min_def not_less)
        then have "leaves_ok ?n l r (leaves_in ?n l r) p q"
          using a \<open>l < ?m\<close> False lr by (auto simp: leaves_ok_def)
        with Some eq show ?thesis by blast
      qed
    next
      case False
      with lr have "?m < r" by simp
      with B obtain p q where "leaves_ok b (max l ?m) r (leaves_in b (max l ?m) r) p q"
        by blast
      note b = leaves_ok_right [OF n this]
      have "L \<le> p" "p \<le> l"
        using b(2,3) False n mid_bounds(1) [of L R] by (auto simp: max_def)
      then have "leaves_ok ?n l r (leaves_in ?n l r) p q"
        using b False \<open>?m < r\<close> lr by (auto simp: leaves_ok_def)
      with Some eq show ?thesis by blast
    qed
  qed
qed

text \<open>
  What a list of collected segments says about a map \<open>f\<close> from addresses to values: the
  segments follow each other, cover \<open>[l, r)\<close>, each of them meets it, each is labelled with
  what \<open>f\<close> is on all of it, and neighbours differ (so they are the maximal runs of \<open>f\<close>).
\<close>

definition seg_ok :: "(u64 \<Rightarrow> 'a option) \<Rightarrow> u64 \<Rightarrow> u64 \<Rightarrow> 'a segment \<Rightarrow> bool" where
  "seg_ok f l r s \<longleftrightarrow>
     sg_type s \<noteq> PARTIAL_SEGMENT \<and> sg_left s < r \<and> l < sg_right s
     \<and> (\<forall>x. sg_left s \<le> x \<and> x < sg_right s \<longrightarrow> f x = sg_label s)"

definition collects :: "(u64 \<Rightarrow> 'a option) \<Rightarrow> u64 \<Rightarrow> u64 \<Rightarrow> 'a segment list \<Rightarrow> bool" where
  "collects f l r ss \<longleftrightarrow>
     ss \<noteq> [] \<and> tiles ss (sg_left (hd ss)) (sg_right (last ss))
     \<and> sg_left (hd ss) \<le> l \<and> r \<le> sg_right (last ss)
     \<and> list_all (seg_ok f l r) ss \<and> successively (\<lambda>a b. \<not> same_label a b) ss"

lemma same_label_iff:
  "sg_type a \<noteq> PARTIAL_SEGMENT \<Longrightarrow> sg_type b \<noteq> PARTIAL_SEGMENT \<Longrightarrow>
     same_label a b \<longleftrightarrow> sg_label a = sg_label b"
  by (cases "sg_type a"; cases "sg_type b") (auto simp: same_label_def sg_label_def)

text \<open>Pushing the next leaf keeps the segments in order, maximal and truthful.\<close>

lemma push_segment_step:
  assumes acc: "tiles acc a m" "list_all (seg_ok f l r) acc"
      "successively (\<lambda>a b. \<not> same_label a b) acc"
    and s: "seg_ok f l r s" "sg_left s = m" "m < sg_right s"
  shows "tiles (push_segment s acc) a (sg_right s)"
    and "list_all (seg_ok f l r) (push_segment s acc)"
    and "successively (\<lambda>a b. \<not> same_label a b) (push_segment s acc)"
proof -
  consider "acc = []" | ys z where "acc = ys @ [z]" by (cases acc rule: rev_cases) auto
  then have "tiles (push_segment s acc) a (sg_right s) \<and> list_all (seg_ok f l r) (push_segment s acc)
     \<and> successively (\<lambda>a b. \<not> same_label a b) (push_segment s acc)"
  proof cases
    case 1
    then show ?thesis using assms by (simp add: push_segment_def)
  next
    case 2
    let ?z = "z\<lparr>sg_right := sg_right s\<rparr>"
    have z: "sg_right z = m" "seg_ok f l r z" "sg_left z < m"
      using acc 2 by (auto simp: tiles_append)
    show ?thesis
    proof (cases "same_label z s")
      case True
      then have lab: "sg_label z = sg_label s"
        using z s same_label_iff by (auto simp: seg_ok_def)
      have "sg_label ?z = sg_label z" by (simp add: sg_label_def)
      with lab z s have ok: "seg_ok f l r ?z"
        by (auto simp: seg_ok_def) (metis linorder_not_less)
      have same: "same_label y ?z = same_label y z" for y
        by (simp add: same_label_def)
      have "push_segment s acc = ys @ [?z]"
        using 2 True z s by (simp add: push_segment_def)
      with acc 2 z s ok show ?thesis
        by (auto simp: tiles_append successively_append_iff same)
    next
      case False
      then have "push_segment s acc = acc @ [s]"
        using 2 by (simp add: push_segment_def)
      with assms 2 False show ?thesis
        by (auto simp: tiles_append successively_append_iff)
    qed
  qed
  then show "tiles (push_segment s acc) a (sg_right s)"
    "list_all (seg_ok f l r) (push_segment s acc)"
    "successively (\<lambda>a b. \<not> same_label a b) (push_segment s acc)" by auto
qed

lemma push_segments:
  assumes "tiles acc a m" "list_all (seg_ok f l r) acc"
      "successively (\<lambda>a b. \<not> same_label a b) acc" "tiles ss m b" "list_all (seg_ok f l r) ss"
  shows "tiles (fold push_segment ss acc) a b
    \<and> list_all (seg_ok f l r) (fold push_segment ss acc)
    \<and> successively (\<lambda>a b. \<not> same_label a b) (fold push_segment ss acc)"
  using assms
proof (induction ss arbitrary: acc m)
  case (Cons s ss)
  then show ?case
    using push_segment_step [of acc a m f l r s] by auto
qed auto

text \<open>The map a whole tree denotes: addresses below \<open>MAX_RANGE\<close> only.\<close>

definition st_map :: "'a segtree \<Rightarrow> u64 \<Rightarrow> 'a option" where
  "st_map t x = (if x < MAX_RANGE then seg_at t x else None)"

lemma Collect_st_full:
  assumes "full_st t" "l < r"
  obtains ss where "Collect_st t l r = Some ss" "collects (st_map t) l r ss"
proof -
  have wf: "wf_st t" and range: "st_left t = 0" "st_right t = MAX_RANGE"
    using assms(1) by (auto simp: full_st_def)
  obtain a b where lv: "leaves_ok t l r (leaves_in t l r) a b"
    using leaves_in_ok [OF wf, of l r] assms(2) range by auto
  let ?ss = "fold push_segment (leaves_in t l r) []"
  have t: "tiles (leaves_in t l r) a b" "a \<le> l" "r \<le> b"
    using lv by (auto simp: leaves_ok_def)
  have "seg_ok (st_map t) l r s" if "s \<in> set (leaves_in t l r)" for s
  proof -
    have "sg_right s \<le> b" using tiles_within [OF t(1) that] by simp
    then show ?thesis
      using lv that by (auto simp: leaves_ok_def list_all_iff describes_def seg_ok_def st_map_def
          intro: less_le_trans [OF _ le_MAX_RANGE])
  qed
  then have "list_all (seg_ok (st_map t) l r) (leaves_in t l r)"
    by (simp add: list_all_iff)
  then have ss: "tiles ?ss a b" "list_all (seg_ok (st_map t) l r) ?ss"
      "successively (\<lambda>a b. \<not> same_label a b) ?ss"
    using push_segments [of "[]" a a "st_map t" l r "leaves_in t l r" b] t by auto
  have "?ss \<noteq> []"
    using ss(1) t assms(2) by auto
  with ss t have "collects (st_map t) l r ?ss"
    using tiles_ends [OF ss(1)] by (auto simp: collects_def)
  then show ?thesis
    using that by (simp add: Collect_st_def Collect2_leaves [OF wf])
qed

lemma Collect_st_empty: "l \<ge> r \<Longrightarrow> Collect_st t l r = Some []"
  by (cases t) (simp add: Collect_st_def)

text \<open>What the callers use of the collected segments: the values met in the range.\<close>

definition covered_values :: "'a segment list \<Rightarrow> 'a list" where
  "covered_values ss = map sg_value (filter (\<lambda>s. sg_type s = COVERED_SEGMENT) ss)"

lemma collects_values:
  assumes "collects f l r ss" "l < r"
  shows "set (covered_values ss) = {v. \<exists>x. l \<le> x \<and> x < r \<and> f x = Some v}"
proof (intro set_eqI iffI)
  fix v assume "v \<in> set (covered_values ss)"
  then obtain s where s: "s \<in> set ss" "sg_label s = Some v" "seg_ok f l r s"
    using assms by (auto simp: covered_values_def collects_def sg_label_def list_all_iff)
  have "sg_left s < sg_right s"
    using assms(1) s(1) by (auto simp: collects_def list_all_iff seg_ok_def dest!: split_list)
      (auto simp: tiles_append)
  then have "f (max l (sg_left s)) = Some v" "l \<le> max l (sg_left s)" "max l (sg_left s) < r"
    using s assms(2) by (auto simp: seg_ok_def)
  then show "v \<in> {v. \<exists>x. l \<le> x \<and> x < r \<and> f x = Some v}" by blast
next
  fix v assume "v \<in> {v. \<exists>x. l \<le> x \<and> x < r \<and> f x = Some v}"
  then obtain x where x: "l \<le> x" "x < r" "f x = Some v" by auto
  have c: "tiles ss (sg_left (hd ss)) (sg_right (last ss))" "sg_left (hd ss) \<le> x"
      "x < sg_right (last ss)"
    using assms(1) x by (auto simp: collects_def)
  obtain s where s: "s \<in> set ss" "sg_left s \<le> x" "x < sg_right s"
    using tiles_covers [OF c] by blast
  then have "sg_label s = Some v"
    using assms(1) x(3) by (auto simp: collects_def list_all_iff seg_ok_def)
  then show "v \<in> set (covered_values ss)"
    using s(1) by (auto simp: covered_values_def sg_label_def image_iff split: if_splits)
qed

section \<open>The interface the analyses use\<close>

text \<open>Overwriting \<open>[l, r)\<close> in a map from addresses to values.\<close>

definition fill :: "u64 \<Rightarrow> u64 \<Rightarrow> 'v \<Rightarrow> (u64 \<Rightarrow> 'v option) \<Rightarrow> u64 \<Rightarrow> 'v option" where
  "fill l r v f x = (if l \<le> x \<and> x < r then Some v else f x)"

lemma fill_empty: "l \<ge> r \<Longrightarrow> fill l r v f = f"
  by (auto simp: fill_def fun_eq_iff)

text \<open>
  A map over ranges of addresses: every operation of an intact map returns, keeps it intact, and
  does to the denoted map what its name says.
\<close>

locale range_map =
  fixes intact :: "'m \<Rightarrow> bool"
    and denotes :: "'m \<Rightarrow> u64 \<Rightarrow> 'v option"
    and put :: "'m \<Rightarrow> u64 \<Rightarrow> u64 \<Rightarrow> 'v \<Rightarrow> 'm option"
    and point :: "'m \<Rightarrow> u64 \<Rightarrow> 'v \<Rightarrow> (bool \<times> 'v) option"
    and scan :: "'m \<Rightarrow> u64 \<Rightarrow> u64 \<Rightarrow> 'v segment list option"
  assumes put_ok: "intact m \<Longrightarrow>
      \<exists>m'. put m l r v = Some m' \<and> intact m' \<and> denotes m' = fill l r v (denotes m)"
    and point_ok: "intact m \<Longrightarrow> x < MAX_RANGE \<Longrightarrow>
      point m x v = Some (case denotes m x of None \<Rightarrow> (False, v) | Some w \<Rightarrow> (True, w))"
    and scan_ok: "intact m \<Longrightarrow> l < r \<Longrightarrow> \<exists>ss. scan m l r = Some ss \<and> collects (denotes m) l r ss"
    and scan_empty: "l \<ge> r \<Longrightarrow> scan m l r = Some []"
begin

lemma put_cases:
  assumes "intact m"
  obtains m' where "put m l r v = Some m'" "intact m'" "denotes m' = fill l r v (denotes m)"
  using put_ok [OF assms] by blast

lemma put_SomeD:
  "intact m \<Longrightarrow> put m l r v = Some m' \<Longrightarrow> intact m' \<and> denotes m' = fill l r v (denotes m)"
  using put_ok [of m l r v] by auto

lemma scan_SomeD:
  "intact m \<Longrightarrow> l < r \<Longrightarrow> scan m l r = Some ss \<Longrightarrow> collects (denotes m) l r ss"
  using scan_ok [of m l r] by auto

text \<open>Whether the range is empty or not, the covered values collected are those met in it.\<close>

lemma scan_values:
  assumes "intact m"
  obtains ss where "scan m l r = Some ss"
    "set (covered_values ss) = {v. \<exists>x. l \<le> x \<and> x < r \<and> denotes m x = Some v}"
proof (cases "l < r")
  case True
  with assms that show ?thesis
    using scan_ok [of m l r] collects_values by blast
next
  case False
  then have "{v. \<exists>x. l \<le> x \<and> x < r \<and> denotes m x = Some v} = {}" by auto
  with False that [of "[]"] show ?thesis
    by (simp add: scan_empty covered_values_def)
qed

end

lemma full_at_MAX: "x < MAX_RANGE \<Longrightarrow> seg_at t x = st_map t x"
  by (simp add: st_map_def)

lemma Set_st_map:
  assumes "full_st t"
  obtains t' where "Set_st t l r v = Some t'" "full_st t'" "st_map t' = fill l r v (st_map t)"
proof -
  obtain t' where t': "Set_st t l r v = Some t'" "full_st t'"
      "\<And>x. x < MAX_RANGE \<Longrightarrow> seg_at t' x = (if l \<le> x \<and> x < r then Some v else seg_at t x)"
    using Set_st_full [OF assms] by blast
  have "st_map t' = fill l r v (st_map t)"
    using t'(3) by (auto simp: st_map_def fill_def fun_eq_iff
        intro: less_le_trans [OF _ le_MAX_RANGE])
  with t' that show ?thesis by blast
qed

interpretation stree: range_map full_st st_map Set_st Get_st Collect_st
proof
  show "full_st t \<Longrightarrow> \<exists>t'. Set_st t l r v = Some t' \<and> full_st t' \<and> st_map t' = fill l r v (st_map t)"
    for t :: "'a segtree" and l r v
    using Set_st_map by metis
  show "full_st t \<Longrightarrow> x < MAX_RANGE \<Longrightarrow> Get_st t x v =
      Some (case st_map t x of None \<Rightarrow> (False, v) | Some w \<Rightarrow> (True, w))" for t :: "'a segtree" and x v
    by (simp add: full_st_def Get_st_wf st_map_def)
  show "full_st t \<Longrightarrow> l < r \<Longrightarrow> \<exists>ss. Collect_st t l r = Some ss \<and> collects (st_map t) l r ss"
    for t :: "'a segtree" and l r
    using Collect_st_full by metis
qed (rule Collect_st_empty)

lemma st_map_NewTree [simp]: "st_map (NewTree v0) = (\<lambda>x. None)"
  by (simp add: st_map_def fun_eq_iff)

text \<open>A sequence of updates denotes the sequence of fills.\<close>

lemma sets_denote:
  assumes "full_st t"
  shows "\<exists>t'. fold_opt (\<lambda>(l, r, v) t. Set_st t l r v) ops t = Some t' \<and> full_st t'
    \<and> (\<forall>x < MAX_RANGE. st_map t' x = fold (\<lambda>(l, r, v). fill l r v) ops (st_map t) x)"
  using assms
proof (induction ops arbitrary: t)
  case (Cons op ops)
  obtain l r v where op: "op = (l, r, v)" by (cases op) auto
  obtain t1 where t1: "Set_st t l r v = Some t1" "full_st t1" "st_map t1 = fill l r v (st_map t)"
    using Cons.prems by (rule stree.put_cases)
  with Cons.IH [OF t1(2)] op show ?case by simp
qed auto

definition painted :: "(u64 \<times> u64 \<times> 'v) list \<Rightarrow> u64 \<Rightarrow> 'v option" where
  "painted ops x = (if x < MAX_RANGE then fold (\<lambda>(l, r, v). fill l r v) ops Map.empty x else None)"

lemma sets_painted:
  obtains t where "fold_opt (\<lambda>(l, r, v) t. Set_st t l r v) ops (NewTree v0) = Some t" "full_st t"
    "st_map t = painted ops"
proof -
  obtain t where t: "fold_opt (\<lambda>(l, r, v) t. Set_st t l r v) ops (NewTree v0) = Some t" "full_st t"
    "\<forall>x < MAX_RANGE. st_map t x = fold (\<lambda>(l, r, v). fill l r v) ops Map.empty x"
    using sets_denote [OF full_NewTree, of ops v0] by auto
  moreover have "st_map t x = painted ops x" for x
    using t(3) by (cases "x < MAX_RANGE") (simp_all add: painted_def st_map_def)
  ultimately show thesis using that by blast
qed

end
