(* ===== verification/GroupMemory.thy ===== *)
theory GroupMemory
  imports SegmentTree Tools
begin

text \<open>
  \<open>GroupMemory\<close> (\<open>tools/PrintBug/GroupMemory.cpp\<close>): going through the block trace backwards, the
  addresses one instruction touches, and the pointers they are computed from, are put into one
  group. \<open>Addr2Group\<close> is a segment tree from addresses to groups, \<open>Group2Addr\<close> has one segment tree
  per group, covered exactly at the group's addresses; \<open>Ins2Group\<close> and \<open>Group2Ins\<close> relate pointer
  valued instructions and groups. Groups are numbered from one by an \<open>int\<close>; running out of
  numbers is an overflow.
\<close>

declare split_paired_All [simp del] split_paired_Ex [simp del]

section \<open>State\<close>

type_synonym ins_key = "u64 \<times> u32"

record group_state =
  MaxGroupID :: int
  Ins2Group :: "ins_key \<Rightarrow> int option"
  Group2Ins :: "int \<Rightarrow> ins_key set"
  Addr2Group :: "int segtree"
  Group2Addr :: "int \<Rightarrow> int segtree option"
  labeled_args :: "u64 \<Rightarrow> u32 set"

definition group_init :: group_state where
  "group_init = \<lparr>MaxGroupID = 0, Ins2Group = Map.empty, Group2Ins = (\<lambda>_. {}),
     Addr2Group = NewTree 0, Group2Addr = Map.empty, labeled_args = (\<lambda>_. {})\<rparr>"

section \<open>Collect\<close>

text \<open>The ends of the segments of a non-empty range are cut to the range.\<close>

definition cut_left :: "u64 \<Rightarrow> 'a segment list \<Rightarrow> 'a segment list" where
  "cut_left l ss = (case ss of [] \<Rightarrow> [] | s # rest \<Rightarrow> s\<lparr>sg_left := l\<rparr> # rest)"

definition cut_right :: "u64 \<Rightarrow> 'a segment list \<Rightarrow> 'a segment list" where
  "cut_right r ss = (case ss of [] \<Rightarrow> [] | _ \<Rightarrow> butlast ss @ [(last ss)\<lparr>sg_right := r\<rparr>])"

definition Collect_group :: "u64 \<Rightarrow> u64 \<Rightarrow> int segtree \<Rightarrow> int segment list option" where
  "Collect_group l r addr_group = do {
     segments \<leftarrow> Collect_st addr_group l r;
     require (segments \<noteq> []);
     Some (cut_right r (cut_left l segments))
   }"

section \<open>Merging the trees of several groups\<close>

text \<open>
  The loop over the trees: it stops at a covered one, otherwise it gathers the children of the
  partial ones. A partial node without children would be a null pointer.
\<close>

fun gather ::
  "int segtree list \<Rightarrow> (int segtree option \<times> int segtree list \<times> int segtree list) option" where
  "gather [] = Some (None, [], [])"
| "gather (SegNode ty v l r lc rc # ts) =
     (if ty = COVERED_SEGMENT then Some (Some (SegNode ty v l r lc rc), [], [])
      else if ty = PARTIAL_SEGMENT then do {
        a \<leftarrow> lc;
        b \<leftarrow> rc;
        (c, ls, rs) \<leftarrow> gather ts;
        Some (c, a # ls, b # rs)
      }
      else gather ts)"

fun tree_nodes :: "'a segtree \<Rightarrow> nat" where
  "tree_nodes (SegNode ty v l r lc rc) =
     1 + (case lc of None \<Rightarrow> 0 | Some a \<Rightarrow> tree_nodes a) + (case rc of None \<Rightarrow> 0 | Some b \<Rightarrow> tree_nodes b)"

lemma gather_nodes:
  "gather ts = Some (c, ls, rs) \<Longrightarrow>
   sum_list (map tree_nodes ls) + length ls \<le> sum_list (map tree_nodes ts) \<and>
   sum_list (map tree_nodes rs) + length ls \<le> sum_list (map tree_nodes ts) \<and> length rs = length ls"
proof (induction ts arbitrary: c ls rs rule: gather.induct)
  case (2 ty v l r lc rc ts)
  then show ?case
    by (fastforce simp: bind_Some_iff split: if_splits)
qed simp

function merge_trees ::
  "int segtree list \<Rightarrow> int \<Rightarrow> int segtree \<Rightarrow> (int segtree \<times> int segtree) option" where
  "merge_trees trees new_group addr_group =
     (case gather trees of
        None \<Rightarrow> None
      | Some (Some i, _) \<Rightarrow> do {
          addr_group' \<leftarrow> Set_st addr_group (st_left i) (st_right i) new_group;
          Some (SegNode COVERED_SEGMENT 1 (st_left i) (st_right i) None None, addr_group')
        }
      | Some (None, l_childs, r_childs) \<Rightarrow> do {
          t \<leftarrow> at trees 0;
          (if l_childs = []
           then Some (SegNode EMPTY_SEGMENT 0 (st_left t) (st_right t) None None, addr_group)
           else do {
             (a, addr_group1) \<leftarrow> merge_trees l_childs new_group addr_group;
             (b, addr_group2) \<leftarrow> merge_trees r_childs new_group addr_group1;
             Some (SegNode PARTIAL_SEGMENT (- 1) (st_left t) (st_right t) (Some a) (Some b), addr_group2)
           })
        })"
  by pat_completeness auto

termination merge_trees
proof (relation "measure (\<lambda>(trees, _). sum_list (map tree_nodes trees))", goal_cases)
  case 1
  show ?case by simp
next
  case 2
  then show ?case by (auto dest!: gather_nodes simp flip: length_greater_0_conv)
next
  case 3
  then show ?case by (auto dest!: gather_nodes simp flip: length_greater_0_conv)
qed

declare merge_trees.simps [simp del]

section \<open>Merging groups\<close>

definition new_group_id :: "group_state \<Rightarrow> (int \<times> group_state) option" where
  "new_group_id st = do {
     require (MaxGroupID st < 2 ^ 31 - 1);
     let g = MaxGroupID st + 1 in
     Some (g, st\<lparr>MaxGroupID := g, Group2Addr := (Group2Addr st)(g := Some (NewTree 0))\<rparr>)
   }"

text \<open>One round of the second loop: group \<open>i\<close> is dissolved into \<open>new_group\<close>.\<close>

definition dissolve :: "int \<Rightarrow> int \<Rightarrow> group_state \<Rightarrow> group_state" where
  "dissolve new_group i st =
     (if i = new_group then st
      else st\<lparr>Group2Addr := (Group2Addr st)(i := None),
              Ins2Group := (\<lambda>ins. if ins \<in> Group2Ins st i then Some new_group else Ins2Group st ins),
              Group2Ins := (Group2Ins st)(new_group := Group2Ins st new_group \<union> Group2Ins st i, i := {})\<rparr>)"

definition Merging :: "int set \<Rightarrow> group_state \<Rightarrow> (int \<times> group_state) option" where
  "Merging groups st =
     (case sorted_list_of_set groups of
        [] \<Rightarrow> new_group_id st
      | [g] \<Rightarrow> Some (g, st)
      | new_group # others \<Rightarrow> do {
          (tree, addr_group) \<leftarrow> merge_trees
             (List.map_filter (Group2Addr st) (new_group # others)) new_group (Addr2Group st);
          Some (new_group, fold (dissolve new_group) (new_group # others)
            (st\<lparr>Addr2Group := addr_group,
                Group2Addr := (Group2Addr st)(new_group := Some tree)\<rparr>))
        })"

section \<open>Merging what one instruction uses\<close>

definition pointer_dep :: "code_info \<Rightarrow> dep_type \<times> u32 \<Rightarrow> bool option" where
  "pointer_dep C dep =
     (if fst dep = Inst then do { x \<leftarrow> ins_at C (snd dep); Some (IsPointer x) }
      else Some (fst dep = PointerArg))"

text \<open>An argument is numbered after all the instructions.\<close>

definition dep_key :: "code_info \<Rightarrow> u64 \<Rightarrow> dep_type \<times> u32 \<Rightarrow> ins_key" where
  "dep_key C tid dep =
     (tid, if fst dep = PointerArg then snd dep + of_nat (length (Ins C)) else snd dep)"

fun dep_groups ::
  "code_info \<Rightarrow> u64 \<Rightarrow> (ins_key \<Rightarrow> int option) \<Rightarrow> (dep_type \<times> u32) list \<Rightarrow> int set option" where
  "dep_groups C tid i2g [] = Some {}"
| "dep_groups C tid i2g (dep # deps) = do {
     p \<leftarrow> pointer_dep C dep;
     gs \<leftarrow> dep_groups C tid i2g deps;
     Some (if p then (case i2g (dep_key C tid dep) of None \<Rightarrow> gs | Some g \<Rightarrow> insert g gs) else gs)
   }"

definition label_ins :: "int \<Rightarrow> ins_key \<Rightarrow> group_state \<Rightarrow> group_state" where
  "label_ins g ins st = st\<lparr>Ins2Group := (Ins2Group st)(ins := Some g),
     Group2Ins := (Group2Ins st)(g := insert ins (Group2Ins st g))\<rparr>"

definition clear_ins :: "ins_key \<Rightarrow> group_state \<Rightarrow> group_state" where
  "clear_ins ins st =
     (case Ins2Group st ins of
        None \<Rightarrow> st
      | Some g \<Rightarrow> st\<lparr>Group2Ins := (Group2Ins st)(g := Group2Ins st g - {ins}),
                     Ins2Group := (Ins2Group st)(ins := None)\<rparr>)"

definition note_arg :: "dep_type \<times> u32 \<Rightarrow> ins_key \<Rightarrow> group_state \<Rightarrow> group_state" where
  "note_arg dep key st =
     (if fst dep = PointerArg
      then st\<lparr>labeled_args := (labeled_args st)(fst key := insert (snd key) (labeled_args st (fst key)))\<rparr>
      else st)"

definition label_dep ::
  "code_info \<Rightarrow> u64 \<Rightarrow> int \<Rightarrow> dep_type \<times> u32 \<Rightarrow> group_state \<Rightarrow> group_state option" where
  "label_dep C tid g dep st = do {
     p \<leftarrow> pointer_dep C dep;
     let key = dep_key C tid dep in
     Some (if p then label_ins g key (note_arg dep key st) else st)
   }"

text \<open>The value behind a pointer argument joins the argument's group.\<close>

definition join_arg ::
  "dep_type \<times> u32 \<Rightarrow> ins_key \<Rightarrow> int \<Rightarrow> group_state \<Rightarrow> group_state option" where
  "join_arg used_arg key arg_group st = do {
     (g, st1) \<leftarrow> (case Ins2Group st key of
          None \<Rightarrow> Some (arg_group, note_arg used_arg key st)
        | Some g' \<Rightarrow> Merging {arg_group, g'} (note_arg used_arg key st));
     Some (label_ins g key st1)
   }"

text \<open>The caller's value for a labelled argument of the function whose first block this is.\<close>

definition map_arg ::
  "code_info \<Rightarrow> smallest_block \<Rightarrow> u32 \<Rightarrow> group_state \<Rightarrow> group_state option" where
  "map_arg C b i st =
     (case Ins2Group st (sb_TID b, i) of
        None \<Rightarrow> Some st
      | Some arg_group \<Rightarrow>
          let st1 = clear_ins (sb_TID b, i) st in
          (if IsFirst b = 1 \<and> Caller b \<noteq> - 1 then do {
             x \<leftarrow> ins_at C (Caller b);
             require (unat i \<ge> length (Ins C));
             used_arg \<leftarrow> at (SSADependencies x) (unat i - length (Ins C));
             p \<leftarrow> pointer_dep C used_arg;
             (if p then join_arg used_arg (dep_key C (sb_TID b) used_arg) arg_group st1 else Some st1)
           }
           else Some st1))"

definition MergeInst ::
  "code_info \<Rightarrow> int set \<Rightarrow> ins_key \<Rightarrow> smallest_block \<Rightarrow> group_state \<Rightarrow> (int \<times> group_state) option" where
  "MergeInst C should_merge ins b st = do {
     x \<leftarrow> ins_at C (snd ins);
     deps \<leftarrow> dep_groups C (sb_TID b) (Ins2Group st) (SSADependencies x);
     (new_group, st1) \<leftarrow> Merging (should_merge \<union> set_option (Ins2Group st ins) \<union> deps) st;
     st2 \<leftarrow> fold_opt (label_dep C (sb_TID b) new_group) (SSADependencies x) (clear_ins ins st1);
     st3 \<leftarrow> (if IsFirst b = 1 \<or> IsFirst b = 2
             then fold_opt (map_arg C b) (sorted_list_of_set (labeled_args st2 (sb_TID b)))
                    (st2\<lparr>labeled_args := (labeled_args st2)(sb_TID b := {})\<rparr>)
             else Some st2);
     Some (new_group, st3)
   }"

section \<open>The loop over the trace\<close>

definition empty_ranges :: "int segment list \<Rightarrow> (u64 \<times> u64) list" where
  "empty_ranges ss = map (\<lambda>s. (sg_left s, sg_right s)) (filter (\<lambda>s. sg_type s = EMPTY_SEGMENT) ss)"

definition met_groups :: "int segment list \<Rightarrow> int set" where
  "met_groups ss = sg_value ` set (filter (\<lambda>s. sg_type s \<noteq> EMPTY_SEGMENT) ss)"

definition put_range :: "int \<Rightarrow> u64 \<times> u64 \<Rightarrow> group_state \<Rightarrow> group_state option" where
  "put_range g rg st = do {
     t \<leftarrow> Group2Addr st g;
     t' \<leftarrow> Set_st t (fst rg) (snd rg) 1;
     a' \<leftarrow> Set_st (Addr2Group st) (fst rg) (snd rg) g;
     Some (st\<lparr>Group2Addr := (Group2Addr st)(g := Some t'), Addr2Group := a'\<rparr>)
   }"

definition group_access :: "code_info \<Rightarrow> smallest_block \<Rightarrow> group_state \<Rightarrow> group_state option" where
  "group_access C b st = do {
     l \<leftarrow> at (Addr b) 0;
     r \<leftarrow> at (Addr b) 1;
     (if l \<ge> r then Some st
      else do {
        i \<leftarrow> block_ins C b;
        ss \<leftarrow> Collect_group l r (Addr2Group st);
        ss2 \<leftarrow> (if sb_Type b = MemmoveBlock then do {
                  l2 \<leftarrow> at (Addr b) 2;
                  r2 \<leftarrow> at (Addr b) 3;
                  Collect_group l2 r2 (Addr2Group st)
                }
                else Some []);
        (g, st1) \<leftarrow> MergeInst C (met_groups (ss @ ss2)) (sb_TID b, i) b st;
        fold_opt (put_range g) (empty_ranges (ss @ ss2)) st1
      })
   }"

definition group_declare :: "smallest_block \<Rightarrow> group_state \<Rightarrow> group_state option" where
  "group_declare b st = do {
     l \<leftarrow> at (Addr b) 0;
     r \<leftarrow> at (Addr b) 1;
     ss \<leftarrow> Collect_group l r (Addr2Group st);
     (g, st1) \<leftarrow> Merging (met_groups ss) st;
     fold_opt (put_range g) (empty_ranges ss) st1
   }"

text \<open>An address passed to an external call and not accessed so far gets a group of its own.\<close>

definition group_arg :: "u64 \<Rightarrow> group_state \<Rightarrow> group_state option" where
  "group_arg a st = do {
     (found, _) \<leftarrow> Get_st (Addr2Group st) a 0;
     (if found then Some st
      else do {
        (g, st1) \<leftarrow> new_group_id st;
        put_range g (a, a + 1) st1
      })
   }"

definition group_inst :: "code_info \<Rightarrow> smallest_block \<Rightarrow> u32 \<Rightarrow> group_state \<Rightarrow> group_state option" where
  "group_inst C b i st = do {
     x \<leftarrow> ins_at C i;
     (if \<not> IsPointer x \<or> ii_Type x = CallInst then Some st
      else map_option snd (MergeInst C {} (sb_TID b, i) b st))
   }"

text \<open>The instructions of a block from its last to its first.\<close>

definition block_insts :: "code_info \<Rightarrow> smallest_block \<Rightarrow> u32 list option" where
  "block_insts C b =
     (if End b \<le> Start b then Some []
      else do {
        is \<leftarrow> bb_at C (BBID b);
        require (unat (End b) \<le> length is);
        Some (rev (drop (unat (Start b)) (take (unat (End b)) is)))
      })"

definition group_block :: "code_info \<Rightarrow> smallest_block \<Rightarrow> group_state \<Rightarrow> group_state option" where
  "group_block C b st =
     (case sb_Type b of
        MemoryAccessBlock \<Rightarrow> group_access C b st
      | MemsetBlock \<Rightarrow> group_access C b st
      | MemmoveBlock \<Rightarrow> group_access C b st
      | DeclareBlock \<Rightarrow> group_declare b st
      | ExternalCallBlock \<Rightarrow> fold_opt group_arg (drop 1 (Addr b)) st
      | ImpactfulCallBlock \<Rightarrow> fold_opt group_arg (drop 1 (Addr b)) st
      | NormalBlock \<Rightarrow> do {
          is \<leftarrow> block_insts C b;
          fold_opt (group_inst C b) is st
        })"

text \<open>The trace is walked from its last block to its first.\<close>

definition GroupMemory :: "code_info \<Rightarrow> smallest_block list \<Rightarrow> group_state option" where
  "GroupMemory C block_trace = fold_opt (group_block C) (rev block_trace) group_init"

section \<open>Merging trees joins what they cover\<close>

definition same_range :: "u64 \<Rightarrow> u64 \<Rightarrow> int segtree list \<Rightarrow> bool" where
  "same_range l r ts \<longleftrightarrow> list_all (\<lambda>t. wf_st t \<and> st_left t = l \<and> st_right t = r) ts"

definition any_at :: "int segtree list \<Rightarrow> u64 \<Rightarrow> bool" where
  "any_at ts x \<longleftrightarrow> list_ex (\<lambda>t. seg_at t x \<noteq> None) ts"

lemma any_at_simps [simp]:
  "any_at [] x \<longleftrightarrow> False" "any_at (t # ts) x \<longleftrightarrow> seg_at t x \<noteq> None \<or> any_at ts x"
  by (simp_all add: any_at_def)

lemma gather_covered:
  "gather ts = Some (Some i, ls, rs) \<Longrightarrow> i \<in> set ts \<and> st_type i = COVERED_SEGMENT"
  by (induction ts arbitrary: ls rs rule: gather.induct) (auto simp: bind_Some_iff split: if_splits)

lemma gather_total:
  assumes "same_range l r ts"
  obtains c ls rs where "gather ts = Some (c, ls, rs)"
proof -
  have "gather ts \<noteq> None" using assms
  proof (induction ts rule: gather.induct)
    case (2 ty v l' r' lc rc ts)
    then show ?case
      by (auto simp del: not_None_eq simp: same_range_def Option.bind_eq_None_conv split: option.splits prod.splits)
  qed simp
  with that show ?thesis by (metis not_None_eq prod_cases3)
qed

lemma gather_children:
  assumes "same_range l r ts" "gather ts = Some (None, ls, rs)"
  shows "same_range l (mid l r) ls" "same_range (mid l r) r rs"
    and "any_at ts x \<longleftrightarrow> (if x < mid l r then any_at ls x else any_at rs x)"
proof -
  have "same_range l (mid l r) ls \<and> same_range (mid l r) r rs
      \<and> (any_at ts x \<longleftrightarrow> (if x < mid l r then any_at ls x else any_at rs x))"
    using assms
  proof (induction ts arbitrary: ls rs rule: gather.induct)
    case (2 ty v l' r' lc rc ts)
    have st: "same_range l r ts" using "2.prems" by (simp add: same_range_def)
    show ?case
    proof (cases "ty = PARTIAL_SEGMENT")
      case True
      with "2.prems" obtain a b ls' rs' where g: "lc = Some a" "rc = Some b"
        "gather ts = Some (None, ls', rs')" "ls = a # ls'" "rs = b # rs'"
        by (auto simp: bind_Some_iff split: if_splits)
      with "2.IH"(1) [of a b ls' rs'] st True "2.prems"(1) show ?thesis
        by (auto simp: same_range_def)
    next
      case False
      then have "ty = EMPTY_SEGMENT"
        using "2.prems"(2) by (cases ty) auto
      with "2.IH"(2) st "2.prems" show ?thesis
        by simp
    qed
  qed (simp add: same_range_def)
  then show "same_range l (mid l r) ls" "same_range (mid l r) r rs"
    and "any_at ts x \<longleftrightarrow> (if x < mid l r then any_at ls x else any_at rs x)" by auto
qed

text \<open>What merging promises: the covered addresses of the result and of \<open>Addr2Group\<close>.\<close>

definition merged ::
  "int segtree list \<Rightarrow> int \<Rightarrow> int segtree \<Rightarrow> u64 \<Rightarrow> u64 \<Rightarrow> int segtree \<Rightarrow> int segtree \<Rightarrow> bool" where
  "merged ts g A l r T A' \<longleftrightarrow>
     wf_st T \<and> st_left T = l \<and> st_right T = r \<and> full_st A'
     \<and> (\<forall>x. l \<le> x \<and> x < r \<longrightarrow> (seg_at T x \<noteq> None \<longleftrightarrow> any_at ts x))
     \<and> st_map A' = (\<lambda>x. if l \<le> x \<and> x < r \<and> any_at ts x then Some g else st_map A x)"

lemma merge_covered:
  assumes "same_range l r ts" "gather ts = Some (Some i, ls, rs)" "full_st A"
  shows "\<exists>T A'. merge_trees ts g A = Some (T, A') \<and> merged ts g A l r T A'"
proof -
  note i = gather_covered [OF assms(2)]
  then have wf: "wf_st i" "st_left i = l" "st_right i = r"
    using assms(1) by (auto simp: same_range_def list_all_iff)
  then have lr: "l < r" using wf_st_range by blast
  have any: "any_at ts x" for x
    using i by (cases i) (force simp: any_at_def list_ex_iff)
  obtain A' where A': "Set_st A l r g = Some A'" "full_st A'" "st_map A' = fill l r g (st_map A)"
    using stree.put_cases [OF assms(3)] by blast
  let ?T = "SegNode COVERED_SEGMENT 1 l r None None :: int segtree"
  have "merge_trees ts g A = Some (?T, A')"
    using assms(2) A'(1) wf by (simp add: merge_trees.simps [of ts])
  moreover have "merged ts g A l r ?T A'"
    using lr any A' by (auto simp: merged_def fill_def fun_eq_iff)
  ultimately show ?thesis by blast
qed

lemma merge_node:
  assumes "same_range l r ts" "ts \<noteq> []" "gather ts = Some (None, ls, rs)" "ls \<noteq> []"
    and a: "merge_trees ls g A = Some (a, A1)" "merged ls g A l (mid l r) a A1"
    and b: "merge_trees rs g A1 = Some (b, A2)" "merged rs g A1 (mid l r) r b A2"
  shows "\<exists>T A'. merge_trees ts g A = Some (T, A') \<and> merged ts g A l r T A'"
proof -
  obtain t where t: "at ts 0 = Some t" "st_left t = l" "st_right t = r" "wf_st t"
    using assms(1,2) by (cases ts) (auto simp: at_def same_range_def)
  then have lr: "l < r" using wf_st_range by blast
  note ch = gather_children [OF assms(1,3)]
  let ?T = "SegNode PARTIAL_SEGMENT (- 1) l r (Some a) (Some b)"
  have "merge_trees ts g A = Some (?T, A2)"
    using assms(3,4) a(1) b(1) t by (simp add: merge_trees.simps [of ts])
  moreover have "merged ts g A l r ?T A2"
  proof -
    have "l \<le> mid l r" "mid l r \<le> r" "l < mid l r \<or> mid l r = l"
      using mid_bounds [OF lr] by auto
    then show ?thesis
      using a(2) b(2) lr ch(3) by (auto simp: merged_def fun_eq_iff not_less)
  qed
  ultimately show ?thesis by blast
qed

lemma merge_trees_ok:
  "same_range l r ts \<Longrightarrow> ts \<noteq> [] \<Longrightarrow> full_st A \<Longrightarrow>
   \<exists>T A'. merge_trees ts g A = Some (T, A') \<and> merged ts g A l r T A'"
proof (induction "sum_list (map tree_nodes ts)" arbitrary: ts l r A rule: less_induct)
  case less
  obtain c ls rs where g: "gather ts = Some (c, ls, rs)"
    by (rule gather_total [OF less.prems(1)])
  show ?case
  proof (cases c)
    case (Some i)
    then show ?thesis using merge_covered g less.prems by blast
  next
    case None
    note ch = gather_children [OF less.prems(1) g [unfolded None]]
    have n: "length ls = length rs" "sum_list (map tree_nodes ls) + length ls \<le> sum_list (map tree_nodes ts)"
      "sum_list (map tree_nodes rs) + length ls \<le> sum_list (map tree_nodes ts)"
      using gather_nodes [OF g] by auto
    show ?thesis
    proof (cases "ls = []")
      case True
      then obtain t where t: "at ts 0 = Some t" "st_left t = l" "st_right t = r" "wf_st t"
        using less.prems(1,2) by (cases ts) (auto simp: at_def same_range_def)
      have "\<not> any_at ts x" for x
        using ch(3) [of x] True n(1) by simp
      then show ?thesis
        using t g None True less.prems(3) wf_st_range [OF t(4)]
        by (simp add: merge_trees.simps [of ts] merged_def)
    next
      case False
      then have lt: "sum_list (map tree_nodes ls) < sum_list (map tree_nodes ts)"
        "sum_list (map tree_nodes rs) < sum_list (map tree_nodes ts)" "rs \<noteq> []"
        using n by (auto simp flip: length_greater_0_conv)
      obtain a A1 where a: "merge_trees ls g A = Some (a, A1)" "merged ls g A l (mid l r) a A1"
        using less.hyps [OF lt(1) ch(1) False less.prems(3)] by blast
      then have "full_st A1" by (simp add: merged_def)
      then obtain b A2 where "merge_trees rs g A1 = Some (b, A2)" "merged rs g A1 (mid l r) r b A2"
        using less.hyps [OF lt(2) ch(2) lt(3)] by blast
      with a show ?thesis
        using merge_node [OF less.prems(1,2) g [unfolded None] False] by blast
    qed
  qed
qed

section \<open>The invariant of the group tables\<close>

definition groups_ok :: "group_state \<Rightarrow> bool" where
  "groups_ok st \<longleftrightarrow> full_st (Addr2Group st) \<and> 0 \<le> MaxGroupID st
     \<and> (\<forall>g t. Group2Addr st g = Some t \<longrightarrow> full_st t \<and> 1 \<le> g \<and> g \<le> MaxGroupID st)
     \<and> (\<forall>g x. st_map (Addr2Group st) x = Some g \<longleftrightarrow>
           (case Group2Addr st g of None \<Rightarrow> False | Some t \<Rightarrow> st_map t x \<noteq> None))
     \<and> (\<forall>ins g. ins \<in> Group2Ins st g \<longleftrightarrow> Ins2Group st ins = Some g)
     \<and> (\<forall>ins g. Ins2Group st ins = Some g \<longrightarrow> Group2Addr st g \<noteq> None)"

lemma groups_okD:
  assumes "groups_ok st"
  shows "full_st (Addr2Group st)" "0 \<le> MaxGroupID st"
    "Group2Addr st g = Some t \<Longrightarrow> full_st t" "Group2Addr st g = Some t \<Longrightarrow> 1 \<le> g"
    "Group2Addr st g = Some t \<Longrightarrow> g \<le> MaxGroupID st"
    "st_map (Addr2Group st) x = Some g \<longleftrightarrow>
       (case Group2Addr st g of None \<Rightarrow> False | Some t \<Rightarrow> st_map t x \<noteq> None)"
    "ins \<in> Group2Ins st g \<longleftrightarrow> Ins2Group st ins = Some g"
    "Ins2Group st ins = Some g \<Longrightarrow> Group2Addr st g \<noteq> None"
  using assms by (auto simp: groups_ok_def)

lemma addr_group_live: "groups_ok st \<Longrightarrow> st_map (Addr2Group st) x = Some g \<Longrightarrow> Group2Addr st g \<noteq> None"
  by (auto simp: groups_okD(6) split: option.splits)

lemma group_init_ok: "groups_ok group_init"
  by (simp add: groups_ok_def group_init_def full_NewTree)

text \<open>
  Groups only grow together: addresses in one group stay in one group.
\<close>

definition coarsens :: "group_state \<Rightarrow> group_state \<Rightarrow> bool" where
  "coarsens st st' \<longleftrightarrow> (\<forall>g. \<exists>g'. \<forall>x.
     st_map (Addr2Group st) x = Some g \<longrightarrow> st_map (Addr2Group st') x = Some g')"

lemma coarsens_refl: "coarsens st st"
  by (auto simp: coarsens_def)

lemma coarsens_trans: "coarsens s t \<Longrightarrow> coarsens t u \<Longrightarrow> coarsens s u"
  unfolding coarsens_def by meson

text \<open>
  More precisely: numbers are not used twice, and an address leaves its group only when the group
  is dissolved. While instructions are merged no address gains or loses a group.
\<close>

definition evolves :: "group_state \<Rightarrow> group_state \<Rightarrow> bool" where
  "evolves st st' \<longleftrightarrow> coarsens st st' \<and> MaxGroupID st \<le> MaxGroupID st'
     \<and> (\<forall>i \<le> MaxGroupID st. Group2Addr st' i \<noteq> None \<longrightarrow> Group2Addr st i \<noteq> None)
     \<and> (\<forall>x i. i \<le> MaxGroupID st \<longrightarrow> Group2Addr st' i \<noteq> None \<longrightarrow>
           st_map (Addr2Group st) x = Some i \<longrightarrow> st_map (Addr2Group st') x = Some i)"

definition regroups :: "group_state \<Rightarrow> group_state \<Rightarrow> bool" where
  "regroups st st' \<longleftrightarrow> evolves st st'
     \<and> (\<forall>x. st_map (Addr2Group st') x = None \<longleftrightarrow> st_map (Addr2Group st) x = None)"

lemma evolves_refl: "evolves st st"
  by (simp add: evolves_def coarsens_refl)

lemma evolves_trans: "evolves s t \<Longrightarrow> evolves t u \<Longrightarrow> evolves s u"
  using coarsens_trans [of s t u] unfolding evolves_def by (meson order_trans)

lemma regroups_refl: "regroups st st"
  by (simp add: regroups_def evolves_refl)

lemma regroups_trans: "regroups s t \<Longrightarrow> regroups t u \<Longrightarrow> regroups s u"
  using evolves_trans [of s t u] unfolding regroups_def by simp

text \<open>Steps that only touch the instruction tables.\<close>

definition same_addrs :: "group_state \<Rightarrow> group_state \<Rightarrow> bool" where
  "same_addrs st st' \<longleftrightarrow> Addr2Group st' = Addr2Group st \<and> Group2Addr st' = Group2Addr st
     \<and> MaxGroupID st' = MaxGroupID st"

lemma same_addrs_regroups: "same_addrs st st' \<Longrightarrow> regroups st st'"
  by (auto simp: same_addrs_def regroups_def evolves_def coarsens_def)

text \<open>What merging a set of groups into \<open>g\<close> does to the tables.\<close>

definition joined :: "int set \<Rightarrow> int \<Rightarrow> group_state \<Rightarrow> group_state \<Rightarrow> bool" where
  "joined groups g st st' \<longleftrightarrow>
     groups_ok st' \<and> Group2Addr st' g \<noteq> None \<and> labeled_args st' = labeled_args st
     \<and> (\<forall>x. st_map (Addr2Group st') x = (if st_map (Addr2Group st) x \<in> Some ` groups then Some g
           else st_map (Addr2Group st) x))
     \<and> (\<forall>ins. Ins2Group st' ins = (if Ins2Group st ins \<in> Some ` groups then Some g
           else Ins2Group st ins))
     \<and> (\<forall>i \<in> groups - {g}. Group2Addr st' i = None) \<and> MaxGroupID st \<le> MaxGroupID st'
     \<and> (\<forall>i \<le> MaxGroupID st. Group2Addr st' i \<noteq> None \<longrightarrow> Group2Addr st i \<noteq> None)"

lemma joined_regroups: "joined groups g st st' \<Longrightarrow> regroups st st'"
proof -
  assume j: "joined groups g st st'"
  have "coarsens st st'"
    unfolding coarsens_def
  proof
    fix h
    show "\<exists>g'. \<forall>x. st_map (Addr2Group st) x = Some h \<longrightarrow> st_map (Addr2Group st') x = Some g'"
      using j by (intro exI [of _ "if h \<in> groups then g else h"]) (auto simp: joined_def)
  qed
  moreover have "i = g" if "i \<in> groups" "Group2Addr st' i \<noteq> None" for i
  proof -
    have "\<forall>i \<in> groups - {g}. Group2Addr st' i = None"
      using j by (simp add: joined_def)
    with that show ?thesis by (cases "i = g") simp_all
  qed
  ultimately show "regroups st st'"
    using j unfolding regroups_def evolves_def joined_def by auto
qed

lemma new_group_id_ok:
  assumes "groups_ok st" "new_group_id st = Some (g, st')"
  shows "joined {} g st st'"
proof -
  have g: "g = MaxGroupID st + 1"
    and st': "st' = st\<lparr>MaxGroupID := g, Group2Addr := (Group2Addr st)(g := Some (NewTree 0))\<rparr>"
    using assms(2) by (auto simp: new_group_id_def Let_def bind_Some_iff)
  have fresh: "Group2Addr st g = None"
    using groups_okD(5) [OF assms(1), of g] g by fastforce
  moreover have "0 \<le> MaxGroupID st"
    using groups_okD(2) [OF assms(1)] .
  ultimately show ?thesis
    using assms(1) g unfolding joined_def st'
    by (auto simp: groups_ok_def full_NewTree split: if_splits)
      (fastforce dest: spec)+
qed

lemma dissolve_fold:
  fixes st :: group_state
  shows "Group2Addr (fold (dissolve g) gs st) i = (if i \<in> set gs - {g} then None else Group2Addr st i)"
    and "Ins2Group (fold (dissolve g) gs st) ins =
      (if \<exists>j \<in> set gs - {g}. ins \<in> Group2Ins st j then Some g else Ins2Group st ins)"
    and "Group2Ins (fold (dissolve g) gs st) i =
      (if i = g then \<Union> (Group2Ins st ` insert g (set gs)) else if i \<in> set gs then {} else Group2Ins st i)"
    and "Addr2Group (fold (dissolve g) gs st) = Addr2Group st"
    and "labeled_args (fold (dissolve g) gs st) = labeled_args st"
    and "MaxGroupID (fold (dissolve g) gs st) = MaxGroupID st"
proof (induction gs arbitrary: st)
  case Nil
  { case 1 show ?case by simp next case 2 show ?case by simp next case 3 show ?case by simp next
    case 4 show ?case by simp next case 5 show ?case by simp next case 6 show ?case by simp }
next
  case (Cons j gs)
  { case 1 show ?case using Cons.IH(1) by (auto simp: dissolve_def)
  next case 2
    have "(\<exists>k\<in>set (j # gs) - {g}. ins \<in> Group2Ins st k) \<longleftrightarrow> (j \<noteq> g \<and> ins \<in> Group2Ins st j)
        \<or> (\<exists>k\<in>set gs - {g}. ins \<in> Group2Ins (dissolve g j st) k)"
      by (cases "j = g"; cases "ins \<in> Group2Ins st j") (auto simp: dissolve_def)
    then show ?case using Cons.IH(2) [of "dissolve g j st"] by (simp add: dissolve_def)
  next case 3 show ?case using Cons.IH(3) by (auto simp: dissolve_def)
  next case 4 show ?case using Cons.IH(4) by (simp add: dissolve_def)
  next case 5 show ?case using Cons.IH(5) by (simp add: dissolve_def)
  next case 6 show ?case using Cons.IH(6) by (simp add: dissolve_def) }
qed

text \<open>The trees of live groups: their union covers the addresses of those groups.\<close>

lemma live_trees:
  assumes ok: "groups_ok st" and live: "\<forall>i \<in> set gs. Group2Addr st i \<noteq> None"
  shows "same_range 0 MAX_RANGE (List.map_filter (Group2Addr st) gs)"
    and "x < MAX_RANGE \<Longrightarrow> any_at (List.map_filter (Group2Addr st) gs) x
      \<longleftrightarrow> st_map (Addr2Group st) x \<in> Some ` set gs"
proof -
  have "same_range 0 MAX_RANGE (List.map_filter (Group2Addr st) gs)
      \<and> (x < MAX_RANGE \<longrightarrow> (any_at (List.map_filter (Group2Addr st) gs) x
          \<longleftrightarrow> st_map (Addr2Group st) x \<in> Some ` set gs))"
    using live
  proof (induction gs)
    case (Cons i gs)
    then obtain t where t: "Group2Addr st i = Some t" by auto
    then have "full_st t" "st_map (Addr2Group st) x = Some i \<longleftrightarrow> st_map t x \<noteq> None"
      using groups_okD(3) [OF ok t] groups_okD(6) [OF ok, of x i] by auto
    with Cons t show ?case
      by (auto simp: map_filter_simps same_range_def full_st_def st_map_def)
  qed (simp add: map_filter_simps same_range_def)
  then show "same_range 0 MAX_RANGE (List.map_filter (Group2Addr st) gs)"
    and "x < MAX_RANGE \<Longrightarrow> any_at (List.map_filter (Group2Addr st) gs) x
      \<longleftrightarrow> st_map (Addr2Group st) x \<in> Some ` set gs" by auto
qed

lemma join_many:
  assumes ok: "groups_ok st" and live: "\<forall>i \<in> groups. Group2Addr st i \<noteq> None"
    and gs: "set gs = groups" "g \<in> groups"
    and T: "merged (List.map_filter (Group2Addr st) gs) g (Addr2Group st) 0 MAX_RANGE T A'"
    and st': "st' = fold (dissolve g) gs (st\<lparr>Addr2Group := A', Group2Addr := (Group2Addr st)(g := Some T)\<rparr>)"
  shows "joined groups g st st'"
proof -
  have A': "st_map A' x = (if st_map (Addr2Group st) x \<in> Some ` groups then Some g
      else st_map (Addr2Group st) x)" for x
    using T live_trees(2) [OF ok, of gs x] live gs
    by (cases "x < MAX_RANGE") (auto simp: merged_def st_map_def)
  have T': "full_st T" "full_st A'" "st_map T x \<noteq> None \<longleftrightarrow> st_map (Addr2Group st) x \<in> Some ` groups" for x
    using T live_trees(2) [OF ok, of gs x] live gs by (auto simp: merged_def full_st_def st_map_def)
  have G: "Group2Addr st' i = (if i = g then Some T else if i \<in> groups then None else Group2Addr st i)" for i
    using dissolve_fold(1) [of g gs] gs unfolding st' by simp
  have I: "Ins2Group st' ins = (if Ins2Group st ins \<in> Some ` groups then Some g else Ins2Group st ins)" for ins
    using dissolve_fold(2) [of g gs] gs groups_okD(7) [OF ok] unfolding st' by auto
  have GI: "ins \<in> Group2Ins st' i \<longleftrightarrow> Ins2Group st' ins = Some i" for ins i
    using dissolve_fold(3) [of g gs] gs groups_okD(7) [OF ok] I [of ins] unfolding st' by auto
  have rest: "Addr2Group st' = A'" "labeled_args st' = labeled_args st" "MaxGroupID st' = MaxGroupID st"
    using dissolve_fold(4-6) [of g gs] unfolding st' by simp_all
  obtain t where "Group2Addr st g = Some t" using live gs(2) by auto
  then have g: "1 \<le> g" "g \<le> MaxGroupID st"
    using groups_okD(4,5) [OF ok] by blast+
  have "groups_ok st'"
    unfolding groups_ok_def rest
  proof (intro conjI allI impI)
    show "st_map A' x = Some h \<longleftrightarrow> (case Group2Addr st' h of None \<Rightarrow> False | Some t \<Rightarrow> st_map t x \<noteq> None)"
      for h x
      using groups_okD(6) [OF ok, of x h] T'(3) [of x] gs(2) by (auto simp: A' G split: option.splits)
    show "full_st t" "1 \<le> h" "h \<le> MaxGroupID st" if "Group2Addr st' h = Some t" for h t
      using that T' g groups_okD(3-5) [OF ok] by (auto simp: G split: if_splits)
    show "Group2Addr st' h \<noteq> None" if "Ins2Group st' ins = Some h" for ins h
      using that groups_okD(8) [OF ok] by (auto simp: G I split: if_splits)
  qed (use T'(2) GI groups_okD(2) [OF ok] in auto)
  then show ?thesis
    using A' I G gs live by (auto simp: joined_def rest)
qed

lemma Merging_ok:
  assumes ok: "groups_ok st" and fin: "finite groups" and live: "\<forall>i \<in> groups. Group2Addr st i \<noteq> None"
    and m: "Merging groups st = Some (g, st')"
  shows "joined groups g st st'" and "groups \<noteq> {} \<Longrightarrow> g = Min groups"
proof -
  have "joined groups g st st' \<and> (groups \<noteq> {} \<longrightarrow> g = Min groups)"
  proof (cases "sorted_list_of_set groups")
    case Nil
    then have "groups = {}" using fin by simp
    then show ?thesis
      using m new_group_id_ok [OF ok] Nil by (simp add: Merging_def)
  next
    case (Cons h others)
    then have set: "set (h # others) = groups"
      using set_sorted_list_of_set [OF fin] by simp
    then have "groups \<noteq> {}" by auto
    then have min: "h = Min groups"
      using sorted_list_of_set_nonempty [OF fin] Cons by simp
    show ?thesis
    proof (cases others)
      case Nil
      then have "g = h" "st' = st" "groups = {h}"
        using m Cons set by (auto simp: Merging_def)
      then show ?thesis
        using ok live by (auto simp: joined_def)
    next
      case (Cons o2 os)
      let ?ts = "List.map_filter (Group2Addr st) (h # others)"
      have "same_range 0 MAX_RANGE ?ts"
        using live_trees(1) [OF ok] live set by blast
      moreover have "?ts \<noteq> []"
        using live set by (auto simp: map_filter_simps split: option.splits)
      ultimately obtain T A' where T: "merge_trees ?ts h (Addr2Group st) = Some (T, A')"
        "merged ?ts h (Addr2Group st) 0 MAX_RANGE T A'"
        using merge_trees_ok groups_okD(1) [OF ok] by blast
      then have "g = h" "st' = fold (dissolve h) (h # others)
          (st\<lparr>Addr2Group := A', Group2Addr := (Group2Addr st)(h := Some T)\<rparr>)"
        using m \<open>sorted_list_of_set groups = h # others\<close> Cons by (auto simp: Merging_def)
      then show ?thesis
        using join_many [OF ok live set _ T(2)] set min by auto
    qed
  qed
  then show "joined groups g st st'" and "groups \<noteq> {} \<Longrightarrow> g = Min groups" by auto
qed

section \<open>Labelling instructions\<close>

lemma groups_ok_same:
  assumes "groups_ok st" "same_addrs st st'"
    and "\<And>ins g. ins \<in> Group2Ins st' g \<longleftrightarrow> Ins2Group st' ins = Some g"
    and "\<And>ins g. Ins2Group st' ins = Some g \<Longrightarrow> Group2Addr st g \<noteq> None"
  shows "groups_ok st'"
  using assms unfolding groups_ok_def same_addrs_def by simp

lemma label_ins_ok:
  assumes "groups_ok st" "Group2Addr st g \<noteq> None" "Ins2Group st ins \<in> {None, Some g}"
  shows "groups_ok (label_ins g ins st) \<and> same_addrs st (label_ins g ins st)"
proof -
  have same: "same_addrs st (label_ins g ins st)"
    by (simp add: label_ins_def same_addrs_def)
  have "groups_ok (label_ins g ins st)"
    by (rule groups_ok_same [OF assms(1) same])
      (use assms groups_okD(7,8) [OF assms(1)] in \<open>auto simp: label_ins_def split: if_splits\<close>)
  with same show ?thesis by blast
qed

lemma clear_ins_ok:
  assumes "groups_ok st"
  shows "groups_ok (clear_ins ins st) \<and> same_addrs st (clear_ins ins st)"
proof -
  have same: "same_addrs st (clear_ins ins st)"
    by (simp add: clear_ins_def same_addrs_def split: option.splits)
  have "groups_ok (clear_ins ins st)"
    by (rule groups_ok_same [OF assms same])
      (use groups_okD(7,8) [OF assms] in \<open>auto simp: clear_ins_def split: option.splits if_splits\<close>)
  with same show ?thesis by blast
qed

lemma clear_ins_Ins2Group: "Ins2Group (clear_ins ins st) k = (if k = ins then None else Ins2Group st k)"
  by (auto simp: clear_ins_def split: option.splits)

lemma note_arg_ok: "groups_ok st \<Longrightarrow> groups_ok (note_arg dep key st)"
  by (simp add: note_arg_def groups_ok_def)

lemma note_arg_same [simp]:
  "same_addrs st (note_arg dep key st)" "Ins2Group (note_arg dep key st) = Ins2Group st"
  "Group2Addr (note_arg dep key st) = Group2Addr st"
  by (simp_all add: note_arg_def same_addrs_def)

lemma same_addrs_trans: "same_addrs s t \<Longrightarrow> same_addrs t u \<Longrightarrow> same_addrs s u"
  by (simp add: same_addrs_def)

text \<open>The groups of the pointers an instruction depends on.\<close>

lemma dep_groups_spec:
  assumes "dep_groups C tid i2g deps = Some gs"
  shows "finite gs" "i \<in> gs \<Longrightarrow> \<exists>k. i2g k = Some i"
    and "dep \<in> set deps \<Longrightarrow> pointer_dep C dep = Some True \<Longrightarrow> i2g (dep_key C tid dep) = Some i \<Longrightarrow> i \<in> gs"
proof -
  have "finite gs \<and> (i \<in> gs \<longrightarrow> (\<exists>k. i2g k = Some i)) \<and> (dep \<in> set deps \<longrightarrow>
      pointer_dep C dep = Some True \<longrightarrow> i2g (dep_key C tid dep) = Some i \<longrightarrow> i \<in> gs)"
    using assms
  proof (induction deps arbitrary: gs)
    case (Cons d deps)
    then obtain p gs' where p: "pointer_dep C d = Some p" "dep_groups C tid i2g deps = Some gs'"
      "gs = (if p then (case i2g (dep_key C tid d) of None \<Rightarrow> gs' | Some g \<Rightarrow> insert g gs') else gs')"
      by (auto simp: bind_Some_iff)
    show ?case
      using Cons.IH [OF p(2)] p by (auto split: option.splits if_splits)
  qed simp
  then show "finite gs" "i \<in> gs \<Longrightarrow> \<exists>k. i2g k = Some i"
    and "dep \<in> set deps \<Longrightarrow> pointer_dep C dep = Some True \<Longrightarrow> i2g (dep_key C tid dep) = Some i \<Longrightarrow> i \<in> gs"
    by auto
qed

text \<open>Labelling the dependencies with the merged group.\<close>

lemma label_deps_ok:
  assumes "groups_ok st" "Group2Addr st g \<noteq> None"
    and "\<And>dep. dep \<in> set deps \<Longrightarrow> pointer_dep C dep = Some True \<Longrightarrow>
           Ins2Group st (dep_key C tid dep) \<in> {None, Some g}"
    and "fold_opt (label_dep C tid g) deps st = Some st'"
  shows "groups_ok st' \<and> same_addrs st st'"
  using assms
proof (induction deps arbitrary: st)
  case (Cons d deps)
  from Cons.prems(4) obtain st1 where st1: "label_dep C tid g d st = Some st1"
    "fold_opt (label_dep C tid g) deps st1 = Some st'" by (auto simp: bind_Some_iff)
  from st1(1) obtain p where p: "pointer_dep C d = Some p"
    "st1 = (if p then label_ins g (dep_key C tid d) (note_arg d (dep_key C tid d) st) else st)"
    by (auto simp: label_dep_def Let_def bind_Some_iff)
  have ok1: "groups_ok st1 \<and> same_addrs st st1"
  proof (cases p)
    case True
    have "Ins2Group (note_arg d (dep_key C tid d) st) (dep_key C tid d) \<in> {None, Some g}"
      using Cons.prems(3) [of d] p(1) True by simp
    from label_ins_ok [OF note_arg_ok [OF Cons.prems(1)] _ this] Cons.prems(2) p(2) True
    show ?thesis
      using same_addrs_trans [OF note_arg_same(1) [of st d "dep_key C tid d"]] by auto
  qed (use p(2) Cons.prems(1) in \<open>simp add: same_addrs_def\<close>)
  have free: "Ins2Group st1 (dep_key C tid dep) \<in> {None, Some g}"
    if "dep \<in> set deps" "pointer_dep C dep = Some True" for dep
    using Cons.prems(3) [of dep] that p(2) by (auto simp: label_ins_def)
  have "Group2Addr st1 g \<noteq> None"
    using ok1 Cons.prems(2) by (simp add: same_addrs_def)
  from Cons.IH [OF _ this free st1(2)] ok1 show ?case
    using same_addrs_trans by blast
qed (simp add: same_addrs_def)

text \<open>Mapping the arguments of a function to its caller's values.\<close>

lemma join_arg_ok:
  assumes ok: "groups_ok st" and live: "Group2Addr st ag \<noteq> None"
    and j: "join_arg dep key ag st = Some st'"
  shows "groups_ok st' \<and> regroups st st'"
proof -
  let ?st2 = "note_arg dep key st"
  obtain g st3 where d: "(case Ins2Group st key of None \<Rightarrow> Some (ag, ?st2)
      | Some g' \<Rightarrow> Merging {ag, g'} ?st2) = Some (g, st3)" "st' = label_ins g key st3"
    using j by (auto simp: join_arg_def bind_Some_iff)
  have n: "groups_ok ?st2" "regroups st ?st2"
    using note_arg_ok [OF ok] same_addrs_regroups by simp_all
  have r: "groups_ok st3 \<and> regroups ?st2 st3 \<and> Group2Addr st3 g \<noteq> None
      \<and> Ins2Group st3 key \<in> {None, Some g}"
  proof (cases "Ins2Group st key")
    case None
    then show ?thesis using d(1) n live regroups_refl by auto
  next
    case (Some g')
    then have "joined {ag, g'} g ?st2 st3"
      using Merging_ok(1) [OF n(1), of "{ag, g'}" g st3] d(1) live groups_okD(8) [OF ok, of key g'] by simp
    then show ?thesis
      using joined_regroups [of "{ag, g'}" g ?st2 st3] Some by (simp add: joined_def)
  qed
  then have "groups_ok st' \<and> regroups st3 st'"
    using label_ins_ok [of st3 g key] same_addrs_regroups d(2) by simp
  with r n show ?thesis
    using regroups_trans by blast
qed

lemma map_arg_ok:
  assumes ok: "groups_ok st" and m: "map_arg C b i st = Some st'"
  shows "groups_ok st' \<and> regroups st st'"
proof (cases "Ins2Group st (sb_TID b, i)")
  case None
  then show ?thesis
    using assms by (simp add: map_arg_def regroups_refl)
next
  case (Some ag)
  let ?st1 = "clear_ins (sb_TID b, i) st"
  have c: "groups_ok ?st1" "same_addrs st ?st1"
    using clear_ins_ok [OF ok] by blast+
  have live: "Group2Addr ?st1 ag \<noteq> None"
    using groups_okD(8) [OF ok Some] c(2) by (simp add: same_addrs_def)
  have "st' = ?st1 \<or> (\<exists>dep key. join_arg dep key ag ?st1 = Some st')"
    using m Some by (fastforce simp: map_arg_def Let_def elim!: bind_SomeE split: if_splits)
  then show ?thesis
  proof
    assume "st' = ?st1"
    then show ?thesis using c same_addrs_regroups by simp
  next
    assume "\<exists>dep key. join_arg dep key ag ?st1 = Some st'"
    then show ?thesis
      using join_arg_ok [OF c(1) live] same_addrs_regroups [OF c(2)] regroups_trans by blast
  qed
qed

interpretation args: loop_body "map_arg C b" groups_ok regroups for C b
  by unfold_locales (auto simp: regroups_refl intro: regroups_trans dest: map_arg_ok)

lemma MergeInst_ok:
  assumes ok: "groups_ok st" and fin: "finite sm" and live: "\<forall>i \<in> sm. Group2Addr st i \<noteq> None"
    and m: "MergeInst C sm ins b st = Some (g, st')"
  obtains st1 groups where "joined groups g st st1" "sm \<subseteq> groups" "regroups st1 st'" "groups_ok st'"
proof -
  obtain x :: inst_info and deps st1 st2 where
    deps: "dep_groups C (sb_TID b) (Ins2Group st) (SSADependencies x) = Some deps"
    and st1: "Merging (sm \<union> set_option (Ins2Group st ins) \<union> deps) st = Some (g, st1)"
    and st2: "fold_opt (label_dep C (sb_TID b) g) (SSADependencies x) (clear_ins ins st1) = Some st2"
    and st3: "(if IsFirst b = 1 \<or> IsFirst b = 2
             then fold_opt (map_arg C b) (sorted_list_of_set (labeled_args st2 (sb_TID b)))
                    (st2\<lparr>labeled_args := (labeled_args st2)(sb_TID b := {})\<rparr>)
             else Some st2) = Some st'"
    using m by (clarsimp simp: MergeInst_def elim!: bind_SomeE)
  note ds = dep_groups_spec [OF deps]
  let ?groups = "sm \<union> set_option (Ins2Group st ins) \<union> deps"
  have "finite ?groups"
    using fin ds(1) by (cases "Ins2Group st ins") simp_all
  moreover have "\<forall>i \<in> ?groups. Group2Addr st i \<noteq> None"
    using live ds(2) groups_okD(8) [OF ok] by fastforce
  ultimately have j: "joined ?groups g st st1"
    using Merging_ok(1) [OF ok _ _ st1] by blast
  have c: "groups_ok (clear_ins ins st1)" "same_addrs st1 (clear_ins ins st1)"
    using clear_ins_ok [of st1 ins] j by (auto simp: joined_def)
  have "Ins2Group (clear_ins ins st1) (dep_key C (sb_TID b) dep) \<in> {None, Some g}"
    if "dep \<in> set (SSADependencies x)" "pointer_dep C dep = Some True" for dep
    using ds(3) [OF that] j
    by (cases "Ins2Group st (dep_key C (sb_TID b) dep)") (auto simp: clear_ins_Ins2Group joined_def)
  moreover have "Group2Addr (clear_ins ins st1) g \<noteq> None"
    using c(2) j by (simp add: same_addrs_def joined_def)
  ultimately have l: "groups_ok st2" "same_addrs st1 st2"
    using label_deps_ok [OF c(1) _ _ st2] same_addrs_trans [OF c(2)] by blast+
  let ?st2 = "st2\<lparr>labeled_args := (labeled_args st2)(sb_TID b := {})\<rparr>"
  have "groups_ok ?st2" "same_addrs st1 ?st2"
    using l by (simp_all add: groups_ok_def same_addrs_def)
  then have "groups_ok st' \<and> regroups st1 st'"
  proof (cases "IsFirst b = 1 \<or> IsFirst b = 2")
    case True
    with st3 have loop: "fold_opt (map_arg C b)
        (sorted_list_of_set (labeled_args st2 (sb_TID b))) ?st2 = Some st'" by simp
    show ?thesis
      using args.loop_inv [OF \<open>groups_ok ?st2\<close> loop] args.loop_rel [OF \<open>groups_ok ?st2\<close> loop]
        regroups_trans [OF same_addrs_regroups [OF \<open>same_addrs st1 ?st2\<close>]] by blast
  next
    case False
    with st3 l same_addrs_regroups show ?thesis by simp
  qed
  with j that show ?thesis by blast
qed

section \<open>Giving a range to a group\<close>

lemma put_range_ok:
  assumes ok: "groups_ok st" and free: "\<And>x. l \<le> x \<Longrightarrow> x < r \<Longrightarrow> st_map (Addr2Group st) x \<in> {None, Some g}"
    and p: "put_range g (l, r) st = Some st'"
  shows "groups_ok st'" "st_map (Addr2Group st') = fill l r g (st_map (Addr2Group st))"
    "evolves st st'" "Group2Addr st g \<noteq> None"
proof -
  obtain t t' a' where t: "Group2Addr st g = Some t" and t': "Set_st t l r 1 = Some t'"
    and a': "Set_st (Addr2Group st) l r g = Some a'"
    and st': "st' = st\<lparr>Group2Addr := (Group2Addr st)(g := Some t'), Addr2Group := a'\<rparr>"
    using p by (auto simp: put_range_def elim!: bind_SomeE)
  have ft: "full_st t'" "st_map t' = fill l r 1 (st_map t)"
    using stree.put_SomeD [OF groups_okD(3) [OF ok t] t'] by simp_all
  have fa: "full_st a'" "st_map a' = fill l r g (st_map (Addr2Group st))"
    using stree.put_SomeD [OF groups_okD(1) [OF ok] a'] by simp_all
  have tg: "st_map (Addr2Group st) x = Some g \<longleftrightarrow> st_map t x \<noteq> None" for x
    using groups_okD(6) [OF ok, of x g] t by simp
  have sels: "Addr2Group st' = a'" "Group2Addr st' = (Group2Addr st)(g := Some t')"
    "MaxGroupID st' = MaxGroupID st" "Ins2Group st' = Ins2Group st" "Group2Ins st' = Group2Ins st"
    by (simp_all add: st')
  have "groups_ok st'"
    unfolding groups_ok_def sels
  proof (intro conjI allI impI)
    show "full_st a'" by (rule fa)
    show "0 \<le> MaxGroupID st" by (rule groups_okD(2) [OF ok])
    show "full_st u" "1 \<le> h" "h \<le> MaxGroupID st"
      if "((Group2Addr st)(g := Some t')) h = Some u" for h u
      using that ft(1) groups_okD(3-5) [OF ok] t by (auto split: if_splits)
    show "st_map a' x = Some h \<longleftrightarrow> (case ((Group2Addr st)(g := Some t')) h of None \<Rightarrow> False
        | Some u \<Rightarrow> st_map u x \<noteq> None)" for h x
      using groups_okD(6) [OF ok, of x h] tg [of x] free [of x] fa(2) ft(2)
      by (auto simp: fill_def split: option.splits)
    show "ins \<in> Group2Ins st h \<longleftrightarrow> Ins2Group st ins = Some h" for ins h
      by (rule groups_okD(7) [OF ok])
    show "((Group2Addr st)(g := Some t')) h \<noteq> None" if "Ins2Group st ins = Some h" for ins h
      using groups_okD(8) [OF ok that] by simp
  qed
  then show "groups_ok st'" .
  show map: "st_map (Addr2Group st') = fill l r g (st_map (Addr2Group st))"
    by (simp add: st' fa(2))
  have "st_map (Addr2Group st) x = Some i \<Longrightarrow> st_map (Addr2Group st') x = Some i" for x i
    using free [of x] by (auto simp: map fill_def)
  then show "evolves st st'"
    using t by (auto simp: evolves_def coarsens_def st')
  show "Group2Addr st g \<noteq> None" using t by simp
qed

lemma put_ranges_ok:
  assumes "groups_ok st" "fold_opt (put_range g) rgs st = Some st'"
    and "\<And>l r x. (l, r) \<in> set rgs \<Longrightarrow> l \<le> x \<Longrightarrow> x < r \<Longrightarrow> st_map (Addr2Group st) x \<in> {None, Some g}"
  shows "groups_ok st' \<and> evolves st st' \<and> (rgs \<noteq> [] \<longrightarrow> Group2Addr st g \<noteq> None) \<and>
    (\<forall>x. st_map (Addr2Group st') x = (if \<exists>(l, r) \<in> set rgs. l \<le> x \<and> x < r then Some g
       else st_map (Addr2Group st) x))"
  using assms
proof (induction rgs arbitrary: st)
  case Nil
  then show ?case by (simp add: evolves_refl)
next
  case (Cons rg rgs)
  obtain l r where rg: "rg = (l, r)" by (cases rg)
  obtain st1 where st1: "put_range g (l, r) st = Some st1" "fold_opt (put_range g) rgs st1 = Some st'"
    using Cons.prems(2) rg by (auto elim!: bind_SomeE)
  have free: "st_map (Addr2Group st) x \<in> {None, Some g}" if "l \<le> x" "x < r" for x
    using Cons.prems(3) [of l r x] that rg by simp
  note p = put_range_ok [OF Cons.prems(1) free st1(1)]
  have "st_map (Addr2Group st1) x \<in> {None, Some g}" if "(l', r') \<in> set rgs" "l' \<le> x" "x < r'" for l' r' x
    using Cons.prems(3) [of l' r' x] that by (auto simp: p(2) fill_def)
  from Cons.IH [OF p(1) st1(2) this] show ?case
    using evolves_trans [OF p(3)] p(2,4) rg by (auto simp: fill_def)
qed

section \<open>One group for a range\<close>

text \<open>Segments that say what the map holds.\<close>

definition truthful :: "(u64 \<Rightarrow> int option) \<Rightarrow> int segment list \<Rightarrow> bool" where
  "truthful f ss \<longleftrightarrow> list_all (\<lambda>s. sg_type s \<noteq> PARTIAL_SEGMENT \<and> sg_left s < sg_right s
     \<and> (\<forall>x. sg_left s \<le> x \<and> x < sg_right s \<longrightarrow> f x = sg_label s)) ss"

definition within :: "int segment list \<Rightarrow> u64 \<Rightarrow> bool" where
  "within ss x \<longleftrightarrow> list_ex (\<lambda>s. sg_left s \<le> x \<and> x < sg_right s) ss"

lemma truthful_append [simp]: "truthful f (xs @ ys) \<longleftrightarrow> truthful f xs \<and> truthful f ys"
  by (simp add: truthful_def)

lemma within_append [simp]: "within (xs @ ys) x \<longleftrightarrow> within xs x \<or> within ys x"
  by (simp add: within_def)

lemma cut_left_tiles:
  assumes "tiles ss a b" "a \<le> l" "truthful f ss" "ss \<noteq> []" "l < sg_right (hd ss)"
  shows "tiles (cut_left l ss) l b" "truthful f (cut_left l ss)" "cut_left l ss \<noteq> []"
    "sg_left (last (cut_left l ss)) < r \<longleftrightarrow> (if length ss = 1 then l else sg_left (last ss)) < r"
  using assms by (cases ss; auto simp: cut_left_def truthful_def sg_label_def)+

lemma cut_right_tiles:
  assumes "tiles ss a b" "r \<le> b" "truthful f ss" "ss \<noteq> []" "sg_left (last ss) < r"
  shows "tiles (cut_right r ss) a r" "truthful f (cut_right r ss)"
proof -
  obtain xs t where ss: "ss = xs @ [t]"
    using assms(4) by (cases ss rule: rev_cases) auto
  then have c: "cut_right r ss = xs @ [t\<lparr>sg_right := r\<rparr>]"
    by (cases xs) (simp_all add: cut_right_def)
  show "tiles (cut_right r ss) a r"
    unfolding c using assms(1,5) ss by (auto simp: tiles_append)
  have "x < r \<Longrightarrow> x < sg_right t" for x
    using assms(1,2) ss by (auto simp: tiles_append)
  then show "truthful f (cut_right r ss)"
    unfolding c using assms(3,5) ss by (auto simp: truthful_def sg_label_def)
qed

lemma Collect_group_ok:
  assumes "full_st A" "Collect_group l r A = Some ss"
  shows "l < r" "tiles ss l r" "truthful (st_map A) ss"
proof -
  obtain ss0 where ss0: "Collect_st A l r = Some ss0" "ss0 \<noteq> []" "ss = cut_right r (cut_left l ss0)"
    using assms(2) by (auto simp: Collect_group_def require_Some elim!: bind_SomeE)
  then show lr: "l < r"
    using stree.scan_empty [of r l A] by (cases "l < r") auto
  have c: "collects (st_map A) l r ss0"
    using stree.scan_SomeD [OF assms(1) lr ss0(1)] .
  then have t: "tiles ss0 (sg_left (hd ss0)) (sg_right (last ss0))" "sg_left (hd ss0) \<le> l"
    "r \<le> sg_right (last ss0)" and so: "\<And>s. s \<in> set ss0 \<Longrightarrow> seg_ok (st_map A) l r s"
    by (auto simp: collects_def list_all_iff)
  have tr: "truthful (st_map A) ss0"
    unfolding truthful_def list_all_iff
  proof
    fix s assume s: "s \<in> set ss0"
    then have "sg_left s < sg_right s"
      using t(1) by (auto dest!: split_list simp: tiles_append)
    with so [OF s] show "sg_type s \<noteq> PARTIAL_SEGMENT \<and> sg_left s < sg_right s
        \<and> (\<forall>x. sg_left s \<le> x \<and> x < sg_right s \<longrightarrow> st_map A x = sg_label s)"
      by (auto simp: seg_ok_def)
  qed
  have "l < sg_right (hd ss0)" "sg_left (last ss0) < r"
    using so [of "hd ss0"] so [of "last ss0"] ss0(2) by (simp_all add: seg_ok_def)
  note cl = cut_left_tiles [OF t(1,2) tr ss0(2) this(1)] and lr' = this(2)
  have "sg_left (last (cut_left l ss0)) < r"
    using cl(4) [of r] lr lr' by simp
  from cut_right_tiles [OF cl(1) t(3) cl(2,3) this] show "tiles ss l r" "truthful (st_map A) ss"
    by (simp_all add: ss0(3))
qed

lemma tiles_within_iff: "tiles ss l r \<Longrightarrow> l \<le> x \<Longrightarrow> x < r \<Longrightarrow> within ss x"
  using tiles_covers [of ss l r x] by (simp add: within_def list_ex_iff)

text \<open>
  The merged group takes the empty ranges, after the groups met have been merged into it.
\<close>

lemma fill_ranges_ok:
  assumes ok: "groups_ok st" and tr: "truthful (st_map (Addr2Group st)) ss"
    and j: "joined groups g st st1" "met_groups ss \<subseteq> groups" "regroups st1 st2" "groups_ok st2"
    and f: "fold_opt (put_range g) (empty_ranges ss) st2 = Some st3"
  shows "groups_ok st3 \<and> evolves st st3 \<and> (\<exists>h. \<forall>x. within ss x \<longrightarrow> st_map (Addr2Group st3) x = Some h)"
proof -
  have ok1: "groups_ok st1" using j(1) by (simp add: joined_def)
  have r12: "regroups st st2"
    using regroups_trans [OF joined_regroups [OF j(1)] j(3)] .
  have none: "st_map (Addr2Group st2) x = None"
    if "(l, r) \<in> set (empty_ranges ss)" "l \<le> x" "x < r" for l r x
  proof -
    have "st_map (Addr2Group st) x = None"
      using that tr by (auto simp: empty_ranges_def truthful_def list_all_iff sg_label_def)
    with r12 show ?thesis by (simp add: regroups_def)
  qed
  have p: "groups_ok st3" "evolves st2 st3" "empty_ranges ss \<noteq> [] \<Longrightarrow> Group2Addr st2 g \<noteq> None"
    "st_map (Addr2Group st3) x = (if \<exists>(l, r) \<in> set (empty_ranges ss). l \<le> x \<and> x < r then Some g
       else st_map (Addr2Group st2) x)" for x
    using put_ranges_ok [OF j(4) f] none by auto
  obtain h where h: "\<And>x. st_map (Addr2Group st1) x = Some g \<Longrightarrow> st_map (Addr2Group st2) x = Some h"
    using j(3) unfolding regroups_def evolves_def coarsens_def by blast
  have gmax: "g \<le> MaxGroupID st1"
    using j(1) groups_okD(5) [OF ok1] unfolding joined_def by blast
  define k where "k = (if empty_ranges ss = [] then h else g)"
  have "st_map (Addr2Group st3) x = Some k" if wi: "within ss x" for x
  proof -
    obtain s where s: "s \<in> set ss" "sg_left s \<le> x" "x < sg_right s"
      using wi by (auto simp: within_def list_ex_iff)
    then have lab: "st_map (Addr2Group st) x = sg_label s" "sg_type s \<noteq> PARTIAL_SEGMENT"
      using tr by (auto simp: truthful_def list_all_iff)
    show ?thesis
    proof (cases "sg_type s = EMPTY_SEGMENT")
      case True
      then have "(sg_left s, sg_right s) \<in> set (empty_ranges ss)"
        using s(1) by (auto simp: empty_ranges_def)
      with s show ?thesis by (auto simp: p(4) k_def)
    next
      case False
      then have cov: "sg_type s = COVERED_SEGMENT"
        using lab(2) by (cases "sg_type s") auto
      then have "sg_value s \<in> groups" "st_map (Addr2Group st) x = Some (sg_value s)"
        using j(2) s(1) lab(1) by (auto simp: met_groups_def sg_label_def)
      then have g1: "st_map (Addr2Group st1) x = Some g"
        using j(1) by (auto simp: joined_def)
      show ?thesis
      proof (cases "empty_ranges ss = []")
        case True
        then show ?thesis using h [OF g1] by (simp add: p(4) k_def)
      next
        case False
        then have "st_map (Addr2Group st2) x = Some g"
          using p(3) j(3) gmax g1 unfolding regroups_def evolves_def by blast
        with False show ?thesis by (simp add: p(4) k_def)
      qed
    qed
  qed
  moreover have "evolves st st3"
    using evolves_trans [OF _ p(2)] r12 by (auto simp: regroups_def)
  ultimately show ?thesis using p(1) by blast
qed

lemma met_groups_live:
  assumes "groups_ok st" "truthful (st_map (Addr2Group st)) ss"
  shows "finite (met_groups ss)" "\<forall>i \<in> met_groups ss. Group2Addr st i \<noteq> None"
proof -
  show "finite (met_groups ss)" by (simp add: met_groups_def)
  show "\<forall>i \<in> met_groups ss. Group2Addr st i \<noteq> None"
  proof
    fix i assume "i \<in> met_groups ss"
    then obtain s where s: "s \<in> set ss" "sg_type s \<noteq> EMPTY_SEGMENT" "i = sg_value s"
      by (auto simp: met_groups_def)
    then have "st_map (Addr2Group st) (sg_left s) = Some i"
      using assms(2) by (cases "sg_type s") (auto simp: truthful_def list_all_iff sg_label_def)
    then show "Group2Addr st i \<noteq> None"
      by (rule addr_group_live [OF assms(1)])
  qed
qed

text \<open>The ranges a block puts into one group.\<close>

fun grouped_ranges :: "smallest_block \<Rightarrow> (u64 \<times> u64) list" where
  "grouped_ranges b =
     (case sb_Type b of
        MemmoveBlock \<Rightarrow> (case Addr b of l # r # l2 # r2 # _ \<Rightarrow> if l < r then [(l, r), (l2, r2)] else [] | _ \<Rightarrow> [])
      | MemoryAccessBlock \<Rightarrow> (case Addr b of l # r # _ \<Rightarrow> [(l, r)] | _ \<Rightarrow> [])
      | MemsetBlock \<Rightarrow> (case Addr b of l # r # _ \<Rightarrow> [(l, r)] | _ \<Rightarrow> [])
      | DeclareBlock \<Rightarrow> (case Addr b of l # r # _ \<Rightarrow> [(l, r)] | _ \<Rightarrow> [])
      | _ \<Rightarrow> [])"

definition one_group :: "(u64 \<Rightarrow> int option) \<Rightarrow> (u64 \<times> u64) list \<Rightarrow> bool" where
  "one_group f rgs \<longleftrightarrow>
     (\<exists>h. \<forall>(l, r) \<in> set rgs. \<forall>x. l \<le> x \<and> x < r \<longrightarrow> f x = Some h)"

lemma one_group_coarsens:
  "one_group (st_map (Addr2Group s)) rgs \<Longrightarrow> coarsens s t \<Longrightarrow> one_group (st_map (Addr2Group t)) rgs"
  unfolding one_group_def coarsens_def by fast

lemma access_ranges:
  assumes ok: "groups_ok st" and ss: "truthful (st_map (Addr2Group st)) ss"
    and cover: "\<And>l r x. (l, r) \<in> set rgs \<Longrightarrow> l \<le> x \<Longrightarrow> x < r \<Longrightarrow> within ss x"
    and m: "MergeInst C (met_groups ss) ins b st = Some (g, st2)"
    and f: "fold_opt (put_range g) (empty_ranges ss) st2 = Some st3"
  shows "groups_ok st3 \<and> evolves st st3 \<and> one_group (st_map (Addr2Group st3)) rgs"
proof -
  obtain st1 groups where "joined groups g st st1" "met_groups ss \<subseteq> groups" "regroups st1 st2" "groups_ok st2"
    using MergeInst_ok [OF ok met_groups_live [OF ok ss] m] by blast
  from fill_ranges_ok [OF ok ss this f] cover show ?thesis
    unfolding one_group_def by fast
qed

lemma group_access_ok:
  assumes ok: "groups_ok st" and a: "group_access C b st = Some st'"
    and kind: "sb_Type b \<in> {MemoryAccessBlock, MemsetBlock, MemmoveBlock}"
  shows "groups_ok st' \<and> evolves st st' \<and> one_group (st_map (Addr2Group st')) (grouped_ranges b)"
proof -
  obtain l r where lr: "at (Addr b) 0 = Some l" "at (Addr b) 1 = Some r"
    using a by (auto simp: group_access_def elim!: bind_SomeE)
  then obtain as where as: "Addr b = l # r # as"
    by (cases "Addr b"; cases "tl (Addr b)") (auto simp: at_Some)
  show ?thesis
  proof (cases "l < r")
    case False
    then have "one_group f (grouped_ranges b)" for f
      using as kind by (auto simp: one_group_def split: list.splits block_type.splits)
    moreover have "r \<le> l" using False by simp
    ultimately show ?thesis
      using a lr ok by (simp add: group_access_def evolves_refl)
  next
    case True
    then have "\<not> r \<le> l" by simp
    with a lr obtain i ss ss2 g st2 where s:
      "Collect_group l r (Addr2Group st) = Some ss"
      "(if sb_Type b = MemmoveBlock then do {
                  l2 \<leftarrow> at (Addr b) 2;
                  r2 \<leftarrow> at (Addr b) 3;
                  Collect_group l2 r2 (Addr2Group st)
                }
                else Some []) = Some ss2"
      "MergeInst C (met_groups (ss @ ss2)) (sb_TID b, i) b st = Some (g, st2)"
      "fold_opt (put_range g) (empty_ranges (ss @ ss2)) st2 = Some st'"
      by (auto simp: group_access_def elim!: bind_SomeE)
    note c = Collect_group_ok [OF groups_okD(1) [OF ok] s(1)]
    have c2: "truthful (st_map (Addr2Group st)) ss2 \<and> (sb_Type b = MemmoveBlock \<longrightarrow>
        (\<exists>l2 r2 as'. as = l2 # r2 # as' \<and> tiles ss2 l2 r2))"
    proof (cases "sb_Type b = MemmoveBlock")
      case mm: True
      with s(2) obtain l2 r2 where "at (Addr b) 2 = Some l2" "at (Addr b) 3 = Some r2"
        "Collect_group l2 r2 (Addr2Group st) = Some ss2"
        by (auto elim!: bind_SomeE)
      then show ?thesis
        using Collect_group_ok [OF groups_okD(1) [OF ok]] as
        by (cases as; cases "tl as") (auto simp: at_Some)
    qed (use s(2) in \<open>simp add: truthful_def\<close>)
    have "within (ss @ ss2) x" if "(l', r') \<in> set (grouped_ranges b)" "l' \<le> x" "x < r'" for l' r' x
      using that kind as c(2) c2 tiles_within_iff [of _ l' r' x] by (auto split: if_splits)
    from access_ranges [OF ok _ this s(3,4)] c(3) c2 show ?thesis by simp
  qed
qed

lemma group_declare_ok:
  assumes ok: "groups_ok st" and a: "group_declare b st = Some st'" and kind: "sb_Type b = DeclareBlock"
  shows "groups_ok st' \<and> evolves st st' \<and> one_group (st_map (Addr2Group st')) (grouped_ranges b)"
proof -
  obtain l r ss g st1 where lr: "at (Addr b) 0 = Some l" "at (Addr b) 1 = Some r"
    and s: "Collect_group l r (Addr2Group st) = Some ss" "Merging (met_groups ss) st = Some (g, st1)"
      "fold_opt (put_range g) (empty_ranges ss) st1 = Some st'"
    using a by (auto simp: group_declare_def elim!: bind_SomeE)
  note c = Collect_group_ok [OF groups_okD(1) [OF ok] s(1)]
  have j: "joined (met_groups ss) g st st1"
    using Merging_ok(1) [OF ok met_groups_live [OF ok c(3)] s(2)] .
  then have "groups_ok st1" by (simp add: joined_def)
  from fill_ranges_ok [OF ok c(3) j subset_refl regroups_refl this s(3)] obtain h where
    r: "groups_ok st'" "evolves st st'" "\<And>x. within ss x \<Longrightarrow> st_map (Addr2Group st') x = Some h" by blast
  obtain as where "Addr b = l # r # as"
    using lr by (cases "Addr b"; cases "tl (Addr b)") (auto simp: at_Some)
  then have "set (grouped_ranges b) \<subseteq> {(l, r)}"
    using kind by simp
  then have "one_group (st_map (Addr2Group st')) (grouped_ranges b)"
    unfolding one_group_def using r(3) tiles_within_iff [OF c(2)] by fast
  with r show ?thesis by blast
qed

lemma group_arg_ok:
  assumes ok: "groups_ok st" and a: "group_arg x st = Some st'"
  shows "groups_ok st' \<and> evolves st st'"
proof -
  obtain found w where f: "Get_st (Addr2Group st) x 0 = Some (found, w)"
    using a by (auto simp: group_arg_def elim!: bind_SomeE)
  show ?thesis
  proof (cases found)
    case True
    then show ?thesis using a f ok by (simp add: group_arg_def evolves_refl)
  next
    case False
    with a f obtain g st1 where g: "new_group_id st = Some (g, st1)" "put_range g (x, x + 1) st1 = Some st'"
      by (auto simp: group_arg_def elim!: bind_SomeE)
    have j: "joined {} g st st1" by (rule new_group_id_ok [OF ok g(1)])
    have "st_map (Addr2Group st) y = None" if "x \<le> y" "y < x + 1" for y
    proof -
      have "y = x"
        using that by (metis inc_le leD le_neq_trans)
      moreover have "x < MAX_RANGE"
        using that le_MAX_RANGE by (metis order_less_le MAX_RANGE_def add.commute add_0 leD
            less_le_trans neg_eq_iff_add_eq_0 word_not_simps(1) \<open>y = x\<close>)
      ultimately show ?thesis
        using stree.point_ok [OF groups_okD(1) [OF ok], of x 0] f False by (auto split: option.splits)
    qed
    then have "st_map (Addr2Group st1) y \<in> {None, Some g}" if "x \<le> y" "y < x + 1" for y
      using j that by (simp add: joined_def)
    moreover have "groups_ok st1" using j by (simp add: joined_def)
    ultimately have "groups_ok st'" "evolves st1 st'"
      using put_range_ok [OF _ _ g(2)] by blast+
    with joined_regroups [OF j] evolves_trans show ?thesis
      unfolding regroups_def by blast
  qed
qed

lemma group_inst_ok:
  assumes ok: "groups_ok st" and a: "group_inst C b i st = Some st'"
  shows "groups_ok st' \<and> evolves st st'"
proof (cases "st' = st")
  case False
  then obtain g where g: "MergeInst C {} (sb_TID b, i) b st = Some (g, st')"
    using a by (auto simp: group_inst_def elim!: bind_SomeE split: if_splits)
  obtain st1 groups where "joined groups g st st1" "regroups st1 st'" "groups_ok st'"
    by (rule MergeInst_ok [OF ok _ _ g]) auto
  then show ?thesis
    using joined_regroups regroups_trans unfolding regroups_def by blast
qed (simp add: ok evolves_refl)

interpretation group_args: loop_body group_arg groups_ok evolves
  by unfold_locales (auto simp: evolves_refl intro: evolves_trans dest: group_arg_ok)

interpretation group_insts: loop_body "group_inst C b" groups_ok evolves for C b
  by unfold_locales (auto simp: evolves_refl intro: evolves_trans dest: group_inst_ok)

lemma group_block_ok:
  assumes ok: "groups_ok st" and a: "group_block C b st = Some st'"
  shows "groups_ok st' \<and> evolves st st' \<and> one_group (st_map (Addr2Group st')) (grouped_ranges b)"
proof (cases "sb_Type b \<in> {MemoryAccessBlock, MemsetBlock, MemmoveBlock}")
  case True
  then show ?thesis
    using group_access_ok [OF ok _ True] a by (auto simp: group_block_def)
next
  case False
  show ?thesis
  proof (cases "sb_Type b = DeclareBlock")
    case True
    then show ?thesis using group_declare_ok [OF ok _ True] a by (simp add: group_block_def)
  next
    case False
    with \<open>sb_Type b \<notin> _\<close> have "grouped_ranges b = []" by (auto split: block_type.splits)
    then show ?thesis
      using a False \<open>sb_Type b \<notin> _\<close> group_args.loop_inv [OF ok] group_args.loop_rel [OF ok]
        group_insts.loop_inv [OF ok] group_insts.loop_rel [OF ok]
      by (fastforce simp: group_block_def one_group_def elim!: bind_SomeE split: block_type.splits)
  qed
qed

interpretation group_trace: loop_body "group_block C" groups_ok evolves for C
  by unfold_locales (auto simp: evolves_refl intro: evolves_trans dest: group_block_ok)

text \<open>After the whole trace.\<close>

lemma group_memory_ok:
  assumes "GroupMemory C bt = Some st"
  shows "groups_ok st" and "b \<in> set bt \<Longrightarrow> one_group (st_map (Addr2Group st)) (grouped_ranges b)"
proof -
  show "groups_ok st"
    using assms group_trace.loop_inv [OF group_init_ok] by (simp add: GroupMemory_def)
  assume "b \<in> set bt"
  then obtain xs ys where "rev bt = xs @ b # ys"
    by (metis in_set_conv_decomp set_rev)
  then obtain s1 s2 where s: "fold_opt (group_block C) xs group_init = Some s1"
    "group_block C b s1 = Some s2" "fold_opt (group_block C) ys s2 = Some st"
    using assms by (auto simp: GroupMemory_def fold_opt_append elim!: bind_SomeE)
  have "groups_ok s1"
    using group_trace.loop_inv [OF group_init_ok s(1)] .
  from group_block_ok [OF this s(2)] have "groups_ok s2" "one_group (st_map (Addr2Group s2)) (grouped_ranges b)"
    by blast+
  then show "one_group (st_map (Addr2Group st)) (grouped_ranges b)"
    using group_trace.loop_rel [OF _ s(3)] one_group_coarsens by (auto simp: evolves_def)
qed

lemma group_declare_empty:
  "Addr b = [l, r] \<Longrightarrow> r \<le> l \<Longrightarrow> group_declare b st = None"
  by (simp add: group_declare_def at_def Collect_group_def Collect_st_empty require_def)

text \<open>A declared variable of size 0, or one whose range wraps, stops the grouping of the whole trace.\<close>

lemma empty_declaration_stops_grouping:
  assumes "DeclareOf a n \<in> set bt" "a + n \<le> a"
  shows "GroupMemory C bt = None"
  unfolding GroupMemory_def
  by (rule fold_opt_None [of "DeclareOf a n"])
    (use assms in \<open>simp_all add: group_block_def DeclareOf_def group_declare_empty\<close>)

end
