(* ===== verification/MemDep.thy ===== *)
theory MemDep
  imports GroupMemory "HOL-Library.Mapping" "HOL-Library.AList_Mapping"
begin

text \<open>
  \<open>ExtractMemoryDependency\<close> (\<open>tools/PrintBug/ExtractMemoryDependency.cpp\<close>): going through the block
  trace, a segment tree maps every address to the dynamic instruction that last wrote it; what an
  instruction reads depends on what is found there. The specification below does the same on a plain
  function from addresses to their last writer, and the tree is shown to implement it.
\<close>

section \<open>The extraction\<close>

record dep_state =
  dep_acc :: "(dynamic_inst, dynamic_inst set) mapping" \<comment> \<open>\<open>_mem_dep\<close>\<close>
  last_store :: "dynamic_inst segtree"
  ins_count :: "ins_key \<Rightarrow> u32"

definition dep_init :: dep_state where
  "dep_init = \<lparr>dep_acc = Mapping.empty, last_store = NewTree (DynamicInst 0 0 0), ins_count = (\<lambda>_. 0)\<rparr>"

definition next_inst :: "code_info \<Rightarrow> smallest_block \<Rightarrow> dep_state \<Rightarrow> (dynamic_inst \<times> dep_state) option" where
  "next_inst C b st = do {
     i \<leftarrow> block_ins C b;
     Some (DynamicInst (sb_TID b) i (ins_count st (sb_TID b, i)),
       st\<lparr>ins_count := (ins_count st)((sb_TID b, i) := ins_count st (sb_TID b, i) + 1)\<rparr>)
   }"

text \<open>\<open>_mem_dep[d].insert(j.value)\<close> for the covered segments.\<close>

definition add_deps :: "dynamic_inst \<Rightarrow> dynamic_inst segment list \<Rightarrow> dep_state \<Rightarrow> dep_state" where
  "add_deps d ss st =
     (if covered_values ss = [] then st
      else st\<lparr>dep_acc := Mapping.update d
        (Mapping.lookup_default {} (dep_acc st) d \<union> set (covered_values ss)) (dep_acc st)\<rparr>)"

definition record_store :: "u64 \<Rightarrow> u64 \<Rightarrow> dynamic_inst \<Rightarrow> dep_state \<Rightarrow> dep_state option" where
  "record_store l r d st = do {
     t \<leftarrow> Set_st (last_store st) l r d;
     Some (st\<lparr>last_store := t\<rparr>)
   }"

definition record_load :: "u64 \<Rightarrow> u64 \<Rightarrow> dynamic_inst \<Rightarrow> dep_state \<Rightarrow> dep_state option" where
  "record_load l r d st = do {
     ss \<leftarrow> Collect_st (last_store st) l r;
     Some (add_deps d ss st)
   }"

text \<open>The test for an atomic instruction is inside the branch of the loads, as in the source.\<close>

definition dep_access :: "code_info \<Rightarrow> smallest_block \<Rightarrow> dep_state \<Rightarrow> dep_state option" where
  "dep_access C b st = do {
     (d, st1) \<leftarrow> next_inst C b st;
     l \<leftarrow> at (Addr b) 0;
     r \<leftarrow> at (Addr b) 1;
     (if l \<ge> r then Some st1
      else do {
        x \<leftarrow> ins_at C (di_ID d);
        (if ii_Type x = StoreInst then record_store l r d st1
         else if ii_Type x = LoadInst then do {
           st2 \<leftarrow> record_load l r d st1;
           (if ii_Type x = AtomicInst then record_store l r d st2 else Some st2)
         }
         else Some st1)
      })
   }"

definition dep_memset :: "code_info \<Rightarrow> smallest_block \<Rightarrow> dep_state \<Rightarrow> dep_state option" where
  "dep_memset C b st = do {
     (d, st1) \<leftarrow> next_inst C b st;
     l \<leftarrow> at (Addr b) 0;
     r \<leftarrow> at (Addr b) 1;
     (if l \<ge> r then Some st1 else record_store l r d st1)
   }"

definition dep_memmove :: "code_info \<Rightarrow> smallest_block \<Rightarrow> dep_state \<Rightarrow> dep_state option" where
  "dep_memmove C b st = do {
     (d, st1) \<leftarrow> next_inst C b st;
     l \<leftarrow> at (Addr b) 0;
     r \<leftarrow> at (Addr b) 1;
     (if l \<ge> r then Some st1
      else do {
        l2 \<leftarrow> at (Addr b) 2;
        r2 \<leftarrow> at (Addr b) 3;
        st2 \<leftarrow> record_load l2 r2 d st1;
        record_store l r d st2
      })
   }"

text \<open>All the addresses of the group of an argument are read and written.\<close>

definition dep_segment :: "dynamic_inst \<Rightarrow> int segment \<Rightarrow> dep_state \<Rightarrow> dep_state option" where
  "dep_segment d s st =
     (if sg_type s = COVERED_SEGMENT then do {
        st1 \<leftarrow> record_load (sg_left s) (sg_right s) d st;
        record_store (sg_left s) (sg_right s) d st1
      }
      else Some st)"

definition dep_arg :: "group_state \<Rightarrow> dynamic_inst \<Rightarrow> u64 \<Rightarrow> dep_state \<Rightarrow> dep_state option" where
  "dep_arg G d a st = do {
     (found, group_id) \<leftarrow> Get_st (Addr2Group G) a (- 1);
     (if \<not> found then Some st
      else do {
        t \<leftarrow> Group2Addr G group_id;
        ss \<leftarrow> Collect_st t 0 MAX_RANGE;
        fold_opt (dep_segment d) ss st
      })
   }"

definition dep_call :: "group_state \<Rightarrow> code_info \<Rightarrow> smallest_block \<Rightarrow> dep_state \<Rightarrow> dep_state option" where
  "dep_call G C b st = do {
     (d, st1) \<leftarrow> next_inst C b st;
     fold_opt (dep_arg G d) (drop 1 (Addr b)) st1
   }"

definition dep_block :: "group_state \<Rightarrow> code_info \<Rightarrow> smallest_block \<Rightarrow> dep_state \<Rightarrow> dep_state option" where
  "dep_block G C b st =
     (case sb_Type b of
        MemoryAccessBlock \<Rightarrow> dep_access C b st
      | MemsetBlock \<Rightarrow> dep_memset C b st
      | MemmoveBlock \<Rightarrow> dep_memmove C b st
      | ExternalCallBlock \<Rightarrow> dep_call G C b st
      | ImpactfulCallBlock \<Rightarrow> dep_call G C b st
      | _ \<Rightarrow> Some st)"

text \<open>Counting from the last execution: \<open>0\<close>, then \<open>-1\<close>, and so on.\<close>

definition recount :: "(ins_key \<Rightarrow> u32) \<Rightarrow> dynamic_inst \<Rightarrow> dynamic_inst" where
  "recount cnt d = DynamicInst (di_TID d) (di_ID d) (Cnt d - (cnt (di_TID d, di_ID d) - 1))"

definition recount_all ::
  "dep_state \<Rightarrow> (dynamic_inst, dynamic_inst list) mapping" where
  "recount_all st =
     fold (\<lambda>d m. let a = recount (ins_count st) d in
             Mapping.update a (Mapping.lookup_default [] m a
               @ map (recount (ins_count st))
                   (sorted_list_of_set (Mapping.lookup_default {} (dep_acc st) d))) m)
       (Mapping.ordered_keys (dep_acc st)) Mapping.empty"

definition ExtractMemoryDependency ::
  "group_state \<Rightarrow> code_info \<Rightarrow> smallest_block list \<Rightarrow> (dynamic_inst, dynamic_inst list) mapping option"
where
  "ExtractMemoryDependency G C block_trace =
     map_option recount_all (fold_opt (dep_block G C) block_trace dep_init)"

section \<open>The specification: last writers\<close>

text \<open>
  The state is the last writer of every address, the dependencies found, and the counts. An access
  reads a set of addresses and then writes a set of addresses.
\<close>

record writers =
  writer :: "u64 \<Rightarrow> dynamic_inst option"
  depends :: "(dynamic_inst \<times> dynamic_inst) set"
  counts :: "ins_key \<Rightarrow> u32"

definition writers_init :: writers where
  "writers_init = \<lparr>writer = Map.empty, depends = {}, counts = (\<lambda>_. 0)\<rparr>"

definition reads :: "u64 set \<Rightarrow> dynamic_inst \<Rightarrow> writers \<Rightarrow> writers" where
  "reads X d w = w\<lparr>depends := depends w \<union> {(d, v) | v. \<exists>x \<in> X. writer w x = Some v}\<rparr>"

definition writes :: "u64 set \<Rightarrow> dynamic_inst \<Rightarrow> writers \<Rightarrow> writers" where
  "writes X d w = w\<lparr>writer := (\<lambda>x. if x \<in> X then Some d else writer w x)\<rparr>"

definition span :: "u64 \<Rightarrow> u64 \<Rightarrow> u64 set" where
  "span l r = {x. l \<le> x \<and> x < r}"

text \<open>The addresses in the group of an argument.\<close>

definition group_span :: "group_state \<Rightarrow> u64 \<Rightarrow> u64 set option" where
  "group_span G a =
     (case seg_at (Addr2Group G) a of
        None \<Rightarrow> Some {}
      | Some g \<Rightarrow> map_option (\<lambda>t. {x. st_map t x \<noteq> None}) (Group2Addr G g))"

definition spec_inst :: "code_info \<Rightarrow> smallest_block \<Rightarrow> writers \<Rightarrow> (dynamic_inst \<times> writers) option" where
  "spec_inst C b w = do {
     i \<leftarrow> block_ins C b;
     Some (DynamicInst (sb_TID b) i (counts w (sb_TID b, i)),
       w\<lparr>counts := (counts w)((sb_TID b, i) := counts w (sb_TID b, i) + 1)\<rparr>)
   }"

definition spec_arg :: "group_state \<Rightarrow> dynamic_inst \<Rightarrow> u64 \<Rightarrow> writers \<Rightarrow> writers option" where
  "spec_arg G d a w = do {
     X \<leftarrow> group_span G a;
     Some (writes X d (reads X d w))
   }"

definition spec_block :: "group_state \<Rightarrow> code_info \<Rightarrow> smallest_block \<Rightarrow> writers \<Rightarrow> writers option" where
  "spec_block G C b w =
     (case sb_Type b of
        NormalBlock \<Rightarrow> Some w
      | DeclareBlock \<Rightarrow> Some w
      | ExternalCallBlock \<Rightarrow> do { (d, w1) \<leftarrow> spec_inst C b w; fold_opt (spec_arg G d) (drop 1 (Addr b)) w1 }
      | ImpactfulCallBlock \<Rightarrow> do { (d, w1) \<leftarrow> spec_inst C b w; fold_opt (spec_arg G d) (drop 1 (Addr b)) w1 }
      | MemoryAccessBlock \<Rightarrow> do {
          (d, w1) \<leftarrow> spec_inst C b w;
          l \<leftarrow> at (Addr b) 0;
          r \<leftarrow> at (Addr b) 1;
          (if l \<ge> r then Some w1
           else do {
             x \<leftarrow> ins_at C (di_ID d);
             Some (if ii_Type x = StoreInst then writes (span l r) d w1
                   else if ii_Type x = LoadInst then reads (span l r) d w1
                   else w1)
           })
        }
      | MemsetBlock \<Rightarrow> do {
          (d, w1) \<leftarrow> spec_inst C b w;
          l \<leftarrow> at (Addr b) 0;
          r \<leftarrow> at (Addr b) 1;
          Some (writes (span l r) d w1)
        }
      | MemmoveBlock \<Rightarrow> do {
          (d, w1) \<leftarrow> spec_inst C b w;
          l \<leftarrow> at (Addr b) 0;
          r \<leftarrow> at (Addr b) 1;
          (if l \<ge> r then Some w1
           else do {
             l2 \<leftarrow> at (Addr b) 2;
             r2 \<leftarrow> at (Addr b) 3;
             Some (writes (span l r) d (reads (span l2 r2) d w1))
           })
        })"

section \<open>The tree implements the specification\<close>

definition implements :: "dep_state \<Rightarrow> writers \<Rightarrow> bool" where
  "implements st w \<longleftrightarrow> full_st (last_store st) \<and> st_map (last_store st) = writer w
     \<and> {(d, v). v \<in> Mapping.lookup_default {} (dep_acc st) d} = depends w
     \<and> ins_count st = counts w
     \<and> (\<forall>d. finite (Mapping.lookup_default {} (dep_acc st) d))"

lemma implements_init: "implements dep_init writers_init"
  by (simp add: implements_def dep_init_def writers_init_def full_NewTree Mapping.lookup_default_empty)

lemma impl_store:
  assumes "implements st w"
  shows "\<exists>st'. record_store l r d st = Some st' \<and> implements st' (writes (span l r) d w)"
proof -
  have full: "full_st (last_store st)" using assms by (simp add: implements_def)
  obtain t where "Set_st (last_store st) l r d = Some t" "full_st t" "st_map t = fill l r d (st_map (last_store st))"
    using stree.put_cases [OF full] by blast
  with assms show ?thesis
    by (auto simp: record_store_def implements_def writes_def span_def fill_def fun_eq_iff)
qed

lemma add_deps_lookup:
  "Mapping.lookup_default {} (dep_acc (add_deps d ss st)) e
     = Mapping.lookup_default {} (dep_acc st) e \<union> (if e = d then set (covered_values ss) else {})"
  by (auto simp: add_deps_def Mapping.lookup_default_update')

lemma add_deps_other [simp]:
  "last_store (add_deps d ss st) = last_store st" "ins_count (add_deps d ss st) = ins_count st"
  by (simp_all add: add_deps_def)

lemma impl_load:
  assumes "implements st w"
  shows "\<exists>st'. record_load l r d st = Some st' \<and> implements st' (reads (span l r) d w)"
proof -
  have full: "full_st (last_store st)" using assms by (simp add: implements_def)
  obtain ss where ss: "Collect_st (last_store st) l r = Some ss"
    "set (covered_values ss) = {v. \<exists>x. l \<le> x \<and> x < r \<and> st_map (last_store st) x = Some v}"
    using stree.scan_values [OF full] by blast
  then have "record_load l r d st = Some (add_deps d ss st)"
    by (simp add: record_load_def)
  moreover have "reads (span l r) d w = w\<lparr>depends := depends w \<union> {(d, v) | v. v \<in> set (covered_values ss)}\<rparr>"
    using assms ss(2) by (simp add: reads_def span_def implements_def)
  then have "implements (add_deps d ss st) (reads (span l r) d w)"
    using assms by (auto simp: implements_def add_deps_lookup split: if_splits)
  ultimately show ?thesis by blast
qed

lemma impl_inst:
  "implements st w \<Longrightarrow>
   rel_option (rel_prod (=) implements) (next_inst C b st) (spec_inst C b w)"
  by (auto simp: next_inst_def spec_inst_def implements_def intro!: rel_option_same)

text \<open>The segments of a group's tree: reading and writing them one by one, or all together.\<close>

definition covered_span :: "int segment list \<Rightarrow> u64 set" where
  "covered_span ss = {x. list_ex (\<lambda>s. sg_type s = COVERED_SEGMENT \<and> sg_left s \<le> x \<and> x < sg_right s) ss}"

lemma covered_span_simps:
  "covered_span [] = {}"
  "covered_span (s # ss) = (if sg_type s = COVERED_SEGMENT then span (sg_left s) (sg_right s) else {})
     \<union> covered_span ss"
  by (auto simp: covered_span_def span_def)

lemma covered_span_after: "tiles ss m b \<Longrightarrow> x \<in> covered_span ss \<Longrightarrow> m \<le> x"
  using tiles_within by (fastforce simp: covered_span_def list_ex_iff)

lemma reads_writes_disjoint:
  assumes "A \<inter> B = {}"
  shows "writes B d (reads B d (writes A d (reads A d w))) = writes (A \<union> B) d (reads (A \<union> B) d w)"
proof -
  have "x \<notin> A" if "x \<in> B" for x
    using assms that by blast
  then show ?thesis
    unfolding writes_def reads_def by (intro writers.equality) (auto simp: fun_eq_iff)
qed

lemma impl_segments:
  assumes "implements st w" "tiles ss m b"
  shows "\<exists>st'. fold_opt (dep_segment d) ss st = Some st'
    \<and> implements st' (writes (covered_span ss) d (reads (covered_span ss) d w))"
  using assms
proof (induction ss arbitrary: st w m)
  case Nil
  then show ?case by (simp add: covered_span_simps writes_def reads_def)
next
  case (Cons s ss)
  let ?A = "if sg_type s = COVERED_SEGMENT then span (sg_left s) (sg_right s) else {}"
  have t: "tiles ss (sg_right s) b" using Cons.prems(2) by simp
  obtain st1 where st1: "dep_segment d s st = Some st1" "implements st1 (writes ?A d (reads ?A d w))"
  proof (cases "sg_type s = COVERED_SEGMENT")
    case True
    obtain st0 where s0: "record_load (sg_left s) (sg_right s) d st = Some st0"
      "implements st0 (reads ?A d w)"
      using impl_load [OF Cons.prems(1), of "sg_left s" "sg_right s" d] True by auto
    obtain st1 where "record_store (sg_left s) (sg_right s) d st0 = Some st1"
      "implements st1 (writes ?A d (reads ?A d w))"
      using impl_store [OF s0(2), of "sg_left s" "sg_right s" d] True by auto
    with s0(1) True show ?thesis by (intro that [of st1]) (simp_all add: dep_segment_def)
  next
    case False
    with Cons.prems(1) show ?thesis
      by (intro that [of st]) (simp_all add: dep_segment_def writes_def reads_def)
  qed
  have "?A \<inter> covered_span ss = {}"
    by (auto simp: span_def dest!: covered_span_after [OF t])
  note eq = reads_writes_disjoint [OF this, of d w]
  from Cons.IH [OF st1(2) t] st1(1) show ?case
    by (simp add: eq covered_span_simps)
qed

lemma impl_arg:
  assumes G: "full_st (Addr2Group G)" "\<And>g t. Group2Addr G g = Some t \<Longrightarrow> full_st t"
    and st: "implements st w"
  shows "rel_option implements (dep_arg G d a st) (spec_arg G d a w)"
proof (cases "seg_at (Addr2Group G) a")
  case None
  then have "dep_arg G d a st = Some st"
    using G(1) by (simp add: dep_arg_def full_st_def Get_st_wf)
  moreover have "spec_arg G d a w = Some w"
    using None by (simp add: spec_arg_def group_span_def writes_def reads_def)
  ultimately show ?thesis using st by simp
next
  case (Some g)
  then have get: "Get_st (Addr2Group G) a (- 1) = Some (True, g)"
    using G(1) by (simp add: full_st_def Get_st_wf)
  show ?thesis
  proof (cases "Group2Addr G g")
    case None
    then show ?thesis using get Some by (simp add: dep_arg_def spec_arg_def group_span_def)
  next
    case t: (Some t)
    have "0 < MAX_RANGE" by (simp add: MAX_RANGE_def word_gt_0)
    then obtain ss where ss: "Collect_st t 0 MAX_RANGE = Some ss" "collects (st_map t) 0 MAX_RANGE ss"
      using stree.scan_ok [OF G(2) [OF t]] by blast
    then have tl: "tiles ss (sg_left (hd ss)) (sg_right (last ss))" "sg_left (hd ss) = 0" "sg_right (last ss) = MAX_RANGE"
      and lab: "\<And>s x. s \<in> set ss \<Longrightarrow> sg_left s \<le> x \<Longrightarrow> x < sg_right s \<Longrightarrow> st_map t x = sg_label s"
      by (auto simp: collects_def list_all_iff seg_ok_def intro: antisym)
    have "covered_span ss = {x. st_map t x \<noteq> None}"
    proof (intro set_eqI iffI)
      fix x assume "x \<in> covered_span ss"
      then show "x \<in> {x. st_map t x \<noteq> None}"
        using lab by (fastforce simp: covered_span_def list_ex_iff sg_label_def)
    next
      fix x assume x: "x \<in> {x. st_map t x \<noteq> None}"
      then have "x < MAX_RANGE" by (auto simp: st_map_def split: if_splits)
      then obtain s where "s \<in> set ss" "sg_left s \<le> x" "x < sg_right s"
        using tiles_covers [OF tl(1), of x] tl by auto
      with x lab [of s x] show "x \<in> covered_span ss"
        by (auto simp: covered_span_def list_ex_iff sg_label_def split: if_splits)
    qed
    with impl_segments [OF st tl(1), of d] get ss(1) t Some show ?thesis
      by (auto simp: dep_arg_def spec_arg_def group_span_def)
  qed
qed

lemma fold_opt_rel:
  assumes "\<And>e s w. R s w \<Longrightarrow> rel_option R (f e s) (g e w)" "R s w"
  shows "rel_option R (fold_opt f es s) (fold_opt g es w)"
  using assms(2)
proof (induction es arbitrary: s w)
  case (Cons e es)
  then show ?case
    using assms(1) [OF Cons.prems, of e] by (auto intro: rel_option_bind)
qed simp

lemma impl_store_rel:
  "implements st w \<Longrightarrow> rel_option implements (record_store l r d st) (Some (writes (span l r) d w))"
  using impl_store [of st w l r d] by auto

lemma impl_load_rel:
  "implements st w \<Longrightarrow> rel_option implements (record_load l r d st) (Some (reads (span l r) d w))"
  using impl_load [of st w l r d] by auto

lemma writes_empty: "l \<ge> r \<Longrightarrow> writes (span l r) d w = w"
  by (auto simp: writes_def span_def fun_eq_iff intro!: writers.equality)

text \<open>One block: the tree does what the specification says, and fails exactly when it does.\<close>

lemma impl_block:
  assumes G: "full_st (Addr2Group G)" "\<And>g t. Group2Addr G g = Some t \<Longrightarrow> full_st t"
    and st: "implements st w"
  shows "rel_option implements (dep_block G C b st) (spec_block G C b w)"
proof -
  have calls: "rel_option implements (dep_call G C b st)
      (do { (d, w1) \<leftarrow> spec_inst C b w; fold_opt (spec_arg G d) (drop 1 (Addr b)) w1 })"
    unfolding dep_call_def
    by (rule rel_option_bind [OF impl_inst [OF st]])
      (auto intro!: fold_opt_rel [of implements] impl_arg [OF G])
  show ?thesis
  proof (cases "sb_Type b")
    case MemoryAccessBlock
    have "rel_option implements (Option.bind (record_load l r d s1) Some) (Some (reads (span l r) d w1))"
      if "implements s1 w1" for s1 w1 l r d
      using impl_load_rel [OF that] by simp
    with MemoryAccessBlock show ?thesis
      by (auto simp: dep_block_def spec_block_def dep_access_def
          intro!: rel_option_bind [OF impl_inst [OF st]] rel_option_same impl_store_rel)
  next
    case MemsetBlock
    then show ?thesis
      by (auto simp: dep_block_def spec_block_def dep_memset_def writes_empty
          intro!: rel_option_bind [OF impl_inst [OF st]] rel_option_same impl_store_rel)
  next
    case MemmoveBlock
    have "rel_option implements (do { s2 \<leftarrow> record_load l2 r2 d s1; record_store l r d s2 })
        (Some (writes (span l r) d (reads (span l2 r2) d w1)))" if "implements s1 w1" for s1 w1 l r l2 r2 d
      using impl_load [OF that, of l2 r2 d] impl_store_rel by auto
    with MemmoveBlock show ?thesis
      by (auto simp: dep_block_def spec_block_def dep_memmove_def
          intro!: rel_option_bind [OF impl_inst [OF st]] rel_option_same)
  qed (use st calls in \<open>simp_all add: dep_block_def spec_block_def\<close>)
qed

lemma impl_trace:
  assumes "full_st (Addr2Group G)" "\<And>g t. Group2Addr G g = Some t \<Longrightarrow> full_st t"
  shows "rel_option implements (fold_opt (dep_block G C) bs dep_init) (fold_opt (spec_block G C) bs writers_init)"
  by (rule fold_opt_rel [where R = implements, OF impl_block [OF assms] implements_init])

section \<open>The result\<close>

lemma recount_fold:
  "set (Mapping.lookup_default [] (fold (\<lambda>d m. let a = recount cnt d in
       Mapping.update a (Mapping.lookup_default [] m a
         @ map (recount cnt) (sorted_list_of_set (D d))) m) ks m) a)
   = set (Mapping.lookup_default [] m a)
     \<union> (\<Union>d \<in> {d \<in> set ks. recount cnt d = a}. recount cnt ` set (sorted_list_of_set (D d)))"
  by (induction ks arbitrary: m) (auto simp: Let_def Mapping.lookup_default_update')

lemma recount_all_deps:
  assumes "\<And>d. finite (Mapping.lookup_default {} (dep_acc st) d)"
    and "finite (Mapping.keys (dep_acc st))"
  shows "b \<in> set (Mapping.lookup_default [] (recount_all st) a) \<longleftrightarrow>
    (\<exists>d v. v \<in> Mapping.lookup_default {} (dep_acc st) d
       \<and> a = recount (ins_count st) d \<and> b = recount (ins_count st) v)"
proof -
  have "d \<in> Mapping.keys (dep_acc st)" if "v \<in> Mapping.lookup_default {} (dep_acc st) d" for d v
    using that by (auto simp: Mapping.lookup_default_def keys_is_none_rep Option.is_none_def split: option.splits)
  moreover have "set (Mapping.ordered_keys (dep_acc st)) = Mapping.keys (dep_acc st)"
    using assms(2) by (simp add: Mapping.ordered_keys_def)
  ultimately show ?thesis
    unfolding recount_all_def recount_fold
    using assms(1) by (auto simp: Mapping.lookup_default_empty)
qed

text \<open>The map of dependencies stays finite.\<close>

definition few_keys :: "dep_state \<Rightarrow> bool" where
  "few_keys st \<longleftrightarrow> finite (Mapping.keys (dep_acc st))"

lemma few_add_deps: "few_keys st \<Longrightarrow> few_keys (add_deps d ss st)"
  by (simp add: few_keys_def add_deps_def)

lemma few_store: "record_store l r d st = Some st' \<Longrightarrow> few_keys st \<Longrightarrow> few_keys st'"
  by (auto simp: record_store_def few_keys_def elim!: bind_SomeE)

lemma few_load: "record_load l r d st = Some st' \<Longrightarrow> few_keys st \<Longrightarrow> few_keys st'"
  by (auto simp: record_load_def few_add_deps elim!: bind_SomeE)

lemma few_inst: "next_inst C b st = Some (d, st') \<Longrightarrow> few_keys st \<Longrightarrow> few_keys st'"
  by (auto simp: next_inst_def few_keys_def elim!: bind_SomeE)

lemma few_segment: "dep_segment d s st = Some st' \<Longrightarrow> few_keys st \<Longrightarrow> few_keys st'"
  by (auto simp: dep_segment_def elim!: bind_SomeE split: if_splits intro: few_store few_load)

interpretation segments: loop_body "dep_segment d" few_keys "\<lambda>_ _. True" for d
  by unfold_locales (auto intro: few_segment)

lemma few_arg: "dep_arg G d a st = Some st' \<Longrightarrow> few_keys st \<Longrightarrow> few_keys st'"
  by (auto simp: dep_arg_def elim!: bind_SomeE split: if_splits dest: segments.loop_inv)

interpretation call_args: loop_body "dep_arg G d" few_keys "\<lambda>_ _. True" for G d
  by unfold_locales (auto intro: few_arg)

lemma few_block: "dep_block G C b st = Some st' \<Longrightarrow> few_keys st \<Longrightarrow> few_keys st'"
  by (cases "sb_Type b";
      auto simp: dep_block_def dep_access_def dep_memset_def dep_memmove_def dep_call_def
        elim!: bind_SomeE split: if_splits;
      metis few_inst few_store few_load call_args.loop_inv)

interpretation dep_trace: loop_body "dep_block G C" few_keys "\<lambda>_ _. True" for G C
  by unfold_locales (auto intro: few_block)

text \<open>
  The extraction succeeds exactly when the specification does, and its result are the
  specification's dependencies, recounted.
\<close>

lemma extract_deps:
  assumes "groups_ok G"
  shows "case fold_opt (spec_block G C) bs writers_init of
      None \<Rightarrow> ExtractMemoryDependency G C bs = None
    | Some w \<Rightarrow> (\<exists>m. ExtractMemoryDependency G C bs = Some m \<and>
        (\<forall>a b. b \<in> set (Mapping.lookup_default [] m a) \<longleftrightarrow>
           (\<exists>(d, v) \<in> depends w. a = recount (counts w) d \<and> b = recount (counts w) v)))"
proof -
  have r: "rel_option implements (fold_opt (dep_block G C) bs dep_init) (fold_opt (spec_block G C) bs writers_init)"
    using impl_trace groups_okD(1,3) [OF assms] by blast
  show ?thesis
  proof (cases "fold_opt (spec_block G C) bs writers_init")
    case None
    with r show ?thesis by (simp add: ExtractMemoryDependency_def)
  next
    case (Some w)
    with r obtain st where st: "fold_opt (dep_block G C) bs dep_init = Some st" "implements st w"
      by (auto simp: option_rel_Some2)
    have "few_keys dep_init" by (simp add: few_keys_def dep_init_def)
    then have "finite (Mapping.keys (dep_acc st))"
      using dep_trace.loop_inv [OF _ st(1)] by (simp add: few_keys_def)
    have D: "(d, v) \<in> depends w \<longleftrightarrow> v \<in> Mapping.lookup_default {} (dep_acc st) d" for d v
      using st(2) by (auto simp: implements_def)
    have f: "finite (Mapping.lookup_default {} (dep_acc st) d)" for d
      using st(2) by (simp add: implements_def)
    have "b \<in> set (Mapping.lookup_default [] (recount_all st) a) \<longleftrightarrow>
        (\<exists>(d, v) \<in> depends w. a = recount (counts w) d \<and> b = recount (counts w) v)" for a b
      using recount_all_deps [OF f \<open>finite (Mapping.keys (dep_acc st))\<close>, of b a] st(2)
      by (simp add: Bex_def split_paired_Ex D implements_def)
    with st(1) Some show ?thesis by (simp add: ExtractMemoryDependency_def)
  qed
qed

text \<open>An atomic read-modify-write is recorded neither as a writer nor as a reader: later loads keep the previous writer.\<close>

lemma atomic_access_not_recorded:
  assumes "sb_Type b = MemoryAccessBlock" "block_ins C b = Some i" "ins_at C i = Some x" "ii_Type x = AtomicInst"
    and "dep_block G C b st = Some st'"
  shows "last_store st' = last_store st \<and> dep_acc st' = dep_acc st"
  using assms by (auto simp: dep_block_def dep_access_def next_inst_def fail_simps split: if_splits)

end
