(* ===== verification/PostDominator.thy ===== *)
theory PostDominator
  imports Prelude "HOL-Library.Mapping" "HOL-Library.AList_Mapping"
begin

text \<open>
  \<open>PreparePostDominator\<close> (\<open>tools/PrintBug/PrintBug.cpp\<close>): from the edges between basic blocks, for
  every block the set of blocks meant to be on every path from it. The sets start as what a depth
  first search reaches and are then intersected over the successors until nothing changes.

  \<open>operator[]\<close> on \<open>successor\<close> adds the blocks without successors to the map while it is iterated;
  blocks added behind the current one are not searched from. In the second loop \<open>res\<close> keeps the
  value of the block before when a block has no successor.
\<close>

type_synonym bb_graph = "(u32, u32 list) mapping"

section \<open>Depth first search\<close>

definition succs :: "bb_graph \<Rightarrow> u32 \<Rightarrow> u32 list" where
  "succs g i = Mapping.lookup_default [] g i"

text \<open>\<open>successor[i]\<close> creates an empty vector if there is none.\<close>

definition touch :: "u32 \<Rightarrow> bb_graph \<Rightarrow> bb_graph" where
  "touch i g = (case Mapping.lookup g i of None \<Rightarrow> Mapping.update i [] g | Some _ \<Rightarrow> g)"

text \<open>The loop of \<open>DFSOnBBGraph\<close> over the successors, with the recursive call unfolded.\<close>

function dfs_list :: "u32 list \<Rightarrow> u32 set \<Rightarrow> bb_graph \<Rightarrow> u32 set \<times> bb_graph" where
  "dfs_list [] mark g = (mark, g)"
| "dfs_list (i # is) mark g =
     (if i \<in> mark then dfs_list is mark g
      else (let (mark1, g1) = dfs_list (succs g i) (insert i mark) (touch i g)
            in dfs_list is mark1 g1))"
  by pat_completeness auto

lemma dfs_grows: "dfs_list_dom (is, mark, g) \<Longrightarrow> mark \<subseteq> fst (dfs_list is mark g)"
proof (induction "is" mark g rule: dfs_list.pinduct)
  case (1 mark g)
  then show ?case by (simp add: dfs_list.psimps)
next
  case (2 i "is" mark g)
  show ?case
  proof (cases "i \<in> mark")
    case True
    then show ?thesis using 2 by (simp add: dfs_list.psimps)
  next
    case False
    obtain m1 g1 where r: "dfs_list (succs g i) (insert i mark) (touch i g) = (m1, g1)"
      by (rule prod.exhaust)
    have "insert i mark \<subseteq> m1" using 2(3) [OF False] r by simp
    moreover have "m1 \<subseteq> fst (dfs_list is m1 g1)" using 2(4) [OF False r [symmetric]] r by simp
    ultimately show ?thesis using 2(1) False r by (auto simp: dfs_list.psimps)
  qed
qed

termination dfs_list
proof (relation "measures [\<lambda>(_, mark, _). card (UNIV - mark), \<lambda>(is, _). length is]", goal_cases)
  case (3 i "is" mark g)
  then have "UNIV - insert i mark \<subset> UNIV - mark" by auto
  then show ?case by (simp add: psubset_card_mono)
next
  case (4 i "is" mark g x xa y)
  then have "insert i mark \<subseteq> xa"
    using dfs_grows [of "succs g i" "insert i mark" "touch i g"] by (metis fst_conv)
  then have "UNIV - xa \<subset> UNIV - mark" using 4 by auto
  then show ?case by (simp add: psubset_card_mono)
qed simp_all

definition DFSOnBBGraph :: "u32 \<Rightarrow> u32 set \<Rightarrow> bb_graph \<Rightarrow> u32 set \<times> bb_graph" where
  "DFSOnBBGraph bb_id mark g = dfs_list (succs g bb_id) (insert bb_id mark) (touch bb_id g)"

section \<open>The two loops\<close>

definition SetIntersection :: "u32 set \<Rightarrow> u32 set \<Rightarrow> u32 set" where
  "SetIntersection a b = Set.filter (\<lambda>i. i \<in> b) a"

definition add_edge :: "u32 \<times> u32 \<Rightarrow> bb_graph \<Rightarrow> bb_graph" where
  "add_edge e g = Mapping.update (fst e) (succs g (fst e) @ [snd e]) g"

text \<open>The first loop: the next key at or after \<open>cur\<close>, in the map as it is by then.\<close>

function reach_loop :: "nat \<Rightarrow> bb_graph \<Rightarrow> (u32 \<Rightarrow> u32 set) \<Rightarrow> bb_graph \<times> (u32 \<Rightarrow> u32 set)" where
  "reach_loop cur g pd =
     (case filter (\<lambda>k. cur \<le> unat k) (Mapping.ordered_keys g) of
        [] \<Rightarrow> (g, pd)
      | k # _ \<Rightarrow>
          let (mark, g1) = DFSOnBBGraph k (pd k) g
          in reach_loop (Suc (unat k)) g1 (pd(k := mark)))"
  by pat_completeness auto

termination reach_loop
proof (relation "measure (\<lambda>(cur, _). 2 ^ 32 - cur)", goal_cases)
  case (2 cur g pd k ks x mark g1)
  then have "cur \<le> unat k" by (auto simp: filter_eq_Cons_iff)
  moreover have "unat k < 2 ^ 32" using unsigned_less [of k] by simp
  ultimately show ?case by simp
qed simp

declare reach_loop.simps [simp del]

text \<open>One block of the second loop: \<open>res\<close>, the sets and \<open>changed\<close>.\<close>

definition refine_block ::
  "bb_graph \<Rightarrow> u32 \<Rightarrow> u32 set \<times> (u32 \<Rightarrow> u32 set) \<times> bool \<Rightarrow> u32 set \<times> (u32 \<Rightarrow> u32 set) \<times> bool" where
  "refine_block g i s =
     (let (res, pd, changed) = s;
          res1 = (if succs g i \<noteq> [] then pd i else res);
          res2 = fold (\<lambda>j r. SetIntersection r (insert j (pd j))) (succs g i) res1
      in if card res2 \<noteq> card (pd i) then (res2, pd(i := res2), True) else (res2, pd, changed))"

definition refine_pass :: "bb_graph \<Rightarrow> (u32 \<Rightarrow> u32 set) \<Rightarrow> (u32 \<Rightarrow> u32 set) \<times> bool" where
  "refine_pass g pd = snd (fold (refine_block g) (Mapping.ordered_keys g) ({}, pd, False))"

partial_function (option) refine_loop :: "bb_graph \<Rightarrow> (u32 \<Rightarrow> u32 set) \<Rightarrow> (u32 \<Rightarrow> u32 set) option" where
  "refine_loop g pd =
     (let (pd1, changed) = refine_pass g pd in
      if changed then refine_loop g pd1 else Some pd1)"

declare refine_loop.simps [code]

definition PreparePostDominator :: "(u32 \<times> u32) list \<Rightarrow> (u32 \<Rightarrow> u32 set) option" where
  "PreparePostDominator edges =
     (let (g, pd) = reach_loop 0 (fold add_edge edges Mapping.empty) (\<lambda>_. {})
      in refine_loop g pd)"

section \<open>The search finds what is reachable\<close>

definition edge :: "bb_graph \<Rightarrow> (u32 \<times> u32) set" where
  "edge g = {(i, j). j \<in> set (succs g i)}"

lemma succs_touch [simp]: "succs (touch i g) = succs g"
  by (auto simp: fun_eq_iff succs_def touch_def Mapping.lookup_default_def lookup_update' split: option.splits)

lemma edge_touch [simp]: "edge (touch i g) = edge g"
  by (simp add: edge_def)

lemma dfs_keeps_edges: "succs (snd (dfs_list is mark g)) = succs g"
proof (induction "is" mark g rule: dfs_list.induct)
  case (2 i "is" mark g)
  obtain m1 g1 where r: "dfs_list (succs g i) (insert i mark) (touch i g) = (m1, g1)"
    by (rule prod.exhaust)
  show ?case
  proof (cases "i \<in> mark")
    case False
    then show ?thesis using 2(2) [OF False] 2(3) [OF False r [symmetric] refl] r by simp
  qed (use 2(1) in simp)
qed simp

lemma dfs_mark: "mark \<subseteq> fst (dfs_list is mark g)"
proof (induction "is" mark g rule: dfs_list.induct)
  case (2 i "is" mark g)
  obtain m1 g1 where r: "dfs_list (succs g i) (insert i mark) (touch i g) = (m1, g1)"
    by (rule prod.exhaust)
  show ?case
  proof (cases "i \<in> mark")
    case False
    then show ?thesis using 2(2) [OF False] 2(3) [OF False r [symmetric] refl] r by auto
  qed (use 2(1) in simp)
qed simp

lemma dfs_sound:
  "v \<in> fst (dfs_list is mark g) \<Longrightarrow> v \<in> mark \<or> (\<exists>i \<in> set is. (i, v) \<in> (edge g)\<^sup>*)"
proof (induction "is" mark g arbitrary: v rule: dfs_list.induct)
  case (2 i "is" mark g)
  show ?case
  proof (cases "i \<in> mark")
    case True
    then show ?thesis using 2 by auto
  next
    case False
    obtain m1 g1 where r: "dfs_list (succs g i) (insert i mark) (touch i g) = (m1, g1)"
      by (rule prod.exhaust)
    have g1: "edge g1 = edge g"
      using dfs_keeps_edges [of "succs g i" "insert i mark" "touch i g"] r by (simp add: edge_def)
    have "v \<in> m1 \<or> (\<exists>j \<in> set is. (j, v) \<in> (edge g)\<^sup>*)"
      using 2(3) [OF False r [symmetric] refl, of v] 2(4) False r g1 by simp
    moreover have "v \<in> insert i mark \<or> (\<exists>j \<in> set (succs g i). (j, v) \<in> (edge g)\<^sup>*)" if "v \<in> m1"
      using 2(2) [OF False, of v] r that by simp
    moreover have "(i, j) \<in> edge g" if "j \<in> set (succs g i)" for j
      using that by (simp add: edge_def)
    ultimately show ?thesis
      by (auto intro: converse_rtrancl_into_rtrancl)
  qed
qed simp

text \<open>Everything asked for is marked, and what is newly marked has its successors marked.\<close>

lemma dfs_closed:
  "set is \<subseteq> fst (dfs_list is mark g) \<and>
   (\<forall>v \<in> fst (dfs_list is mark g) - mark. set (succs g v) \<subseteq> fst (dfs_list is mark g))"
proof (induction "is" mark g rule: dfs_list.induct)
  case (2 i "is" mark g)
  show ?case
  proof (cases "i \<in> mark")
    case True
    then show ?thesis using 2(1) dfs_mark [of mark "is" g] by auto
  next
    case False
    obtain m1 g1 where r: "dfs_list (succs g i) (insert i mark) (touch i g) = (m1, g1)"
      by (rule prod.exhaust)
    have g1: "succs g1 = succs g"
      using dfs_keeps_edges [of "succs g i" "insert i mark" "touch i g"] r by simp
    have a: "set (succs g i) \<subseteq> m1" "\<forall>v \<in> m1 - insert i mark. set (succs g v) \<subseteq> m1" "insert i mark \<subseteq> m1"
      using 2(2) [OF False] r dfs_mark [of "insert i mark" "succs g i" "touch i g"] by auto
    have b: "set is \<subseteq> fst (dfs_list is m1 g1)"
      "\<forall>v \<in> fst (dfs_list is m1 g1) - m1. set (succs g v) \<subseteq> fst (dfs_list is m1 g1)"
      "m1 \<subseteq> fst (dfs_list is m1 g1)"
      using 2(3) [OF False r [symmetric] refl] g1 dfs_mark [of m1 "is" g1] by auto
    have "set (succs g v) \<subseteq> fst (dfs_list is m1 g1)" if "v \<in> fst (dfs_list is m1 g1)" "v \<notin> mark" for v
    proof (cases "v \<in> m1")
      case True
      then have "set (succs g v) \<subseteq> m1" using a(1,2) that(2) by (cases "v = i") auto
      with b(3) show ?thesis by blast
    qed (use b(2) that(1) in blast)
    then show ?thesis using a(3) b False r by auto
  qed
qed simp

lemma DFS_reachable: "fst (DFSOnBBGraph k {} g) = {v. (k, v) \<in> (edge g)\<^sup>*}"
proof (intro set_eqI iffI)
  fix v assume "v \<in> fst (DFSOnBBGraph k {} g)"
  then consider "v = k" | i where "i \<in> set (succs g k)" "(i, v) \<in> (edge g)\<^sup>*"
    using dfs_sound [of v "succs g k" "{k}" "touch k g"] by (auto simp: DFSOnBBGraph_def)
  then show "v \<in> {v. (k, v) \<in> (edge g)\<^sup>*}"
    by cases (auto simp: edge_def intro: converse_rtrancl_into_rtrancl)
next
  let ?R = "fst (DFSOnBBGraph k {} g)"
  have c: "set (succs g k) \<subseteq> ?R" "\<forall>v \<in> ?R - {k}. set (succs g v) \<subseteq> ?R" "k \<in> ?R"
    using dfs_closed [of "succs g k" "{k}" "touch k g"] dfs_mark [of "{k}" "succs g k" "touch k g"]
    by (auto simp: DFSOnBBGraph_def)
  fix v assume "v \<in> {v. (k, v) \<in> (edge g)\<^sup>*}"
  then have "(k, v) \<in> (edge g)\<^sup>*" by simp
  then show "v \<in> ?R"
    by (induction rule: rtrancl_induct) (use c in \<open>auto simp: edge_def\<close>)
qed

section \<open>The refinement ends\<close>

lemma inter_fold:
  "fold (\<lambda>j r. SetIntersection r (insert j (pd j))) js r = {p \<in> r. \<forall>j \<in> set js. p = j \<or> p \<in> pd j}"
  by (induction js arbitrary: r) (auto simp: SetIntersection_def)

text \<open>One block, by cases.\<close>

lemma refine_block_cases:
  obtains (inner) "succs g k \<noteq> []"
      "\<And>res pd c. refine_block g k (res, pd, c) =
         (let r = {p \<in> pd k. \<forall>j \<in> set (succs g k). p = j \<or> p \<in> pd j} in (r, pd(k := r), c \<or> r \<noteq> pd k))"
  | (exit_block) "succs g k = []"
      "\<And>res pd c. refine_block g k (res, pd, c) =
         (if card res \<noteq> card (pd k) then (res, pd(k := res), True) else (res, pd, c))"
proof (cases "succs g k = []")
  case True
  with exit_block show ?thesis by (simp add: refine_block_def)
next
  case False
  have "refine_block g k (res, pd, c) =
      (let r = {p \<in> pd k. \<forall>j \<in> set (succs g k). p = j \<or> p \<in> pd j} in (r, pd(k := r), c \<or> r \<noteq> pd k))"
    for res pd c
  proof -
    let ?r = "{p \<in> pd k. \<forall>j \<in> set (succs g k). p = j \<or> p \<in> pd j}"
    have "card ?r = card (pd k) \<longleftrightarrow> ?r = pd k"
      using card_subset_eq [of "pd k" ?r] by auto
    then show ?thesis
      using False by (auto simp: refine_block_def inter_fold Let_def)
  qed
  with inner False show ?thesis by blast
qed

text \<open>A run over some blocks: inner blocks only lose members, nothing outside the blocks moves.\<close>

lemma refine_shrinks:
  assumes "fold (refine_block g) ks (res, pd, c) = (res', pd', c')"
  shows "(k \<notin> set ks \<longrightarrow> pd' k = pd k) \<and> (succs g k \<noteq> [] \<longrightarrow> pd' k \<subseteq> pd k) \<and> (c \<longrightarrow> c')
    \<and> (\<not> c' \<longrightarrow> pd' = pd)"
  using assms
proof (induction ks arbitrary: res pd c)
  case (Cons i ks)
  obtain r1 pd1 c1 where s: "refine_block g i (res, pd, c) = (r1, pd1, c1)"
    by (rule prod_cases3)
  have "fold (refine_block g) ks (r1, pd1, c1) = (res', pd', c')"
    using Cons.prems s by simp
  note ih = Cons.IH [OF this]
  have "(k \<noteq> i \<longrightarrow> pd1 k = pd k) \<and> (succs g k \<noteq> [] \<longrightarrow> pd1 k \<subseteq> pd k) \<and> (c \<longrightarrow> c1) \<and> (\<not> c1 \<longrightarrow> pd1 = pd)"
    using s by (cases g i rule: refine_block_cases) (auto simp: Let_def split: if_splits)
  with ih show ?case by (auto simp del: fold.simps)
qed simp

text \<open>
  Two passes that leave the inner blocks alone: the first may still change the blocks without
  successors, the second finds them as it would set them.
\<close>

lemma refine_settles:
  assumes "distinct ks" "fold (refine_block g) ks (res, pd, c) = (r', pd', c')"
    and "fold (refine_block g) ks (res, q, d) = (r'', q', d')"
    and "\<forall>k \<in> set ks. succs g k \<noteq> [] \<longrightarrow> pd' k = pd k \<and> q' k = q k \<and> q k = pd k"
    and "\<forall>k \<in> set ks. succs g k = [] \<longrightarrow> q k = pd' k"
  shows "q' = q \<and> d' = d"
  using assms
proof (induction ks arbitrary: res pd c q d)
  case (Cons i ks)
  obtain r1 pd1 c1 where s: "refine_block g i (res, pd, c) = (r1, pd1, c1)" by (rule prod_cases3)
  obtain r2 q1 d1 where t: "refine_block g i (res, q, d) = (r2, q1, d1)" by (rule prod_cases3)
  have f: "fold (refine_block g) ks (r1, pd1, c1) = (r', pd', c')"
    "fold (refine_block g) ks (r2, q1, d1) = (r'', q', d')"
    using Cons.prems s t by simp_all
  have i: "pd' i = pd1 i" "q' i = q1 i"
    using refine_shrinks [OF f(1)] refine_shrinks [OF f(2)] Cons.prems(1) by simp_all
  have same: "r1 = r2 \<and> q1 = q \<and> d1 = d \<and> (\<forall>k. k \<noteq> i \<longrightarrow> pd1 k = pd k)"
  proof (cases g i rule: refine_block_cases)
    case inner
    define ri where "ri = {p \<in> pd i. \<forall>j \<in> set (succs g i). p = j \<or> p \<in> pd j}"
    define rq where "rq = {p \<in> q i. \<forall>j \<in> set (succs g i). p = j \<or> p \<in> q j}"
    have "r1 = ri" "pd1 = pd(i := ri)" "r2 = rq" "q1 = q(i := rq)" "d1 = (d \<or> rq \<noteq> q i)"
      using s t inner(2) by (auto simp: Let_def ri_def rq_def)
    moreover from this have "ri = pd i" "rq = q i" "q i = pd i"
      using i Cons.prems(4) inner(1) by auto
    ultimately show ?thesis by (auto simp: fun_eq_iff)
  next
    case exit_block
    then have "pd1 = (if card res \<noteq> card (pd i) then pd(i := res) else pd)" "r1 = res" "r2 = res"
      "(q1, d1) = (if card res \<noteq> card (q i) then (q(i := res), True) else (q, d))"
      using s t by (auto split: if_splits)
    moreover from this(1) have "card (q i) = card res"
      using i(1) Cons.prems(5) exit_block(1) by (auto split: if_splits)
    ultimately show ?thesis by simp
  qed
  have "\<forall>k \<in> set ks. pd1 k = pd k"
    using same Cons.prems(1) by auto
  then show ?case
    using Cons.IH [of r1 pd1 c1 q d] f same Cons.prems by auto
qed simp

definition inner_size :: "bb_graph \<Rightarrow> (u32 \<Rightarrow> u32 set) \<Rightarrow> nat" where
  "inner_size g pd = (\<Sum>k \<in> {k \<in> UNIV. succs g k \<noteq> []}. card (pd k))"

lemma inner_size_less:
  assumes "\<And>k. succs g k \<noteq> [] \<Longrightarrow> pd' k \<subseteq> pd k" "succs g k \<noteq> []" "pd' k \<noteq> pd k"
  shows "inner_size g pd' < inner_size g pd"
  unfolding inner_size_def
proof (rule sum_strict_mono_ex1)
  have "card (pd' k) < card (pd k)"
    using assms by (intro psubset_card_mono) auto
  with assms(2) show "\<exists>k \<in> {k \<in> UNIV. succs g k \<noteq> []}. card (pd' k) < card (pd k)" by auto
qed (use assms(1) in \<open>auto intro!: card_mono\<close>)

lemma refine_pass_result:
  assumes "refine_pass g pd = (pd', c)"
  obtains r where "fold (refine_block g) (Mapping.ordered_keys g) ({}, pd, False) = (r, pd', c)"
  using assms unfolding refine_pass_def by (metis prod.collapse)

lemma refine_loop_total: "\<exists>pd'. refine_loop g pd = Some pd'"
proof (induction "inner_size g pd" arbitrary: pd rule: less_induct)
  case less
  obtain pd1 c1 where p1: "refine_pass g pd = (pd1, c1)" by (rule prod.exhaust)
  obtain pd2 c2 where p2: "refine_pass g pd1 = (pd2, c2)" by (rule prod.exhaust)
  obtain r1 where f1: "fold (refine_block g) (Mapping.ordered_keys g) ({}, pd, False) = (r1, pd1, c1)"
    by (rule refine_pass_result [OF p1])
  obtain r2 where f2: "fold (refine_block g) (Mapping.ordered_keys g) ({}, pd1, False) = (r2, pd2, c2)"
    by (rule refine_pass_result [OF p2])
  have s1: "succs g k \<noteq> [] \<Longrightarrow> pd1 k \<subseteq> pd k" and s2: "succs g k \<noteq> [] \<Longrightarrow> pd2 k \<subseteq> pd1 k" for k
    using refine_shrinks [OF f1] refine_shrinks [OF f2] by blast+
  have eq1: "refine_loop g pd = (if c1 then refine_loop g pd1 else Some pd1)"
    by (subst refine_loop.simps) (simp add: p1)
  have eq2: "refine_loop g pd1 = (if c2 then refine_loop g pd2 else Some pd2)"
    by (subst refine_loop.simps) (simp add: p2)
  show ?case
  proof (cases "\<exists>k. succs g k \<noteq> [] \<and> pd1 k \<noteq> pd k")
    case True
    then have "inner_size g pd1 < inner_size g pd"
      using inner_size_less [of g pd1 pd] s1 by blast
    from less.hyps [OF this] eq1 show ?thesis by auto
  next
    case same1: False
    show ?thesis
    proof (cases "\<exists>k. succs g k \<noteq> [] \<and> pd2 k \<noteq> pd1 k")
      case True
      then have "inner_size g pd2 < inner_size g pd1"
        using inner_size_less [of g pd2 pd1] s2 by blast
      also have "inner_size g pd1 = inner_size g pd"
        unfolding inner_size_def by (rule sum.cong) (use same1 in auto)
      finally show ?thesis using less.hyps eq1 eq2 by auto
    next
      case False
      have "distinct (Mapping.ordered_keys g)"
        by (simp add: Mapping.ordered_keys_def)
      from refine_settles [OF this f1 f2] False same1 have "c2 = False" by auto
      then show ?thesis using eq1 eq2 by auto
    qed
  qed
qed

lemma PreparePostDominator_total: "\<exists>pd. PreparePostDominator edges = Some pd"
  using refine_loop_total by (simp add: PreparePostDominator_def split: prod.splits)

section \<open>What the sets mean\<close>

text \<open>Edges that do not enter \<open>p\<close>.\<close>

definition avoiding :: "bb_graph \<Rightarrow> u32 \<Rightarrow> (u32 \<times> u32) set" where
  "avoiding g p = {(i, j) \<in> edge g. j \<noteq> p}"

text \<open>\<open>p\<close> stays ahead of \<open>k\<close>: wherever one gets from \<open>k\<close> without entering \<open>p\<close>, \<open>p\<close> can still be reached.\<close>

definition inevitable :: "bb_graph \<Rightarrow> u32 \<Rightarrow> u32 \<Rightarrow> bool" where
  "inevitable g k p \<longleftrightarrow> (\<forall>t. (k, t) \<in> (avoiding g p)\<^sup>* \<longrightarrow> (t, p) \<in> (edge g)\<^sup>+)"

lemma inevitable_succs: "inevitable g k p \<Longrightarrow> succs g k \<noteq> []"
proof -
  assume "inevitable g k p"
  then have "(k, p) \<in> (edge g)\<^sup>+" unfolding inevitable_def by blast
  then show ?thesis by (auto dest!: tranclD simp: edge_def)
qed

lemma inevitable_step:
  "inevitable g k p \<Longrightarrow> j \<in> set (succs g k) \<Longrightarrow> j \<noteq> p \<Longrightarrow> inevitable g j p"
  unfolding inevitable_def
  by (auto simp: avoiding_def edge_def intro!: converse_rtrancl_into_rtrancl [of k j])

definition keeps_inevitable :: "bb_graph \<Rightarrow> (u32 \<Rightarrow> u32 set) \<Rightarrow> bool" where
  "keeps_inevitable g pd \<longleftrightarrow> (\<forall>k p. inevitable g k p \<longrightarrow> p \<in> pd k)"

lemma refine_block_keeps:
  assumes "keeps_inevitable g pd" "refine_block g k (res, pd, c) = (res', pd', c')"
  shows "keeps_inevitable g pd'"
proof (cases g k rule: refine_block_cases)
  case inner
  then have "pd' = pd(k := {p \<in> pd k. \<forall>j \<in> set (succs g k). p = j \<or> p \<in> pd j})"
    using assms(2) by (auto simp: Let_def)
  then show ?thesis
    using assms(1) inevitable_step [of g k] unfolding keeps_inevitable_def by auto
next
  case exit_block
  then have "\<not> inevitable g k p" for p using inevitable_succs by blast
  moreover have "pd' j = pd j" if "j \<noteq> k" for j
    using exit_block assms(2) that by (auto split: if_splits)
  ultimately show ?thesis
    using assms(1) unfolding keeps_inevitable_def by metis
qed

lemma refine_fold_keeps:
  "keeps_inevitable g pd \<Longrightarrow> fold (refine_block g) ks (res, pd, c) = (res', pd', c') \<Longrightarrow> keeps_inevitable g pd'"
proof (induction ks arbitrary: res pd c)
  case (Cons k ks)
  obtain r1 pd1 c1 where s: "refine_block g k (res, pd, c) = (r1, pd1, c1)" by (rule prod_cases3)
  with Cons.prems Cons.IH [OF refine_block_keeps [OF Cons.prems(1) s]] show ?case by simp
qed simp

text \<open>At the end no set changes any more: members are passed on to the successors.\<close>

definition stable :: "bb_graph \<Rightarrow> (u32 \<Rightarrow> u32 set) \<Rightarrow> bool" where
  "stable g pd \<longleftrightarrow> (\<forall>(k, j) \<in> edge g. \<forall>p \<in> pd k. p = j \<or> p \<in> pd j)"

lemma refine_fold_stable:
  assumes "fold (refine_block g) ks (res, pd, c) = (res', pd', False)"
  shows "pd' = pd \<and> (\<forall>k \<in> set ks. \<forall>j \<in> set (succs g k). \<forall>p \<in> pd k. p = j \<or> p \<in> pd j)"
  using assms
proof (induction ks arbitrary: res pd c)
  case (Cons k ks)
  obtain r1 pd1 c1 where s: "refine_block g k (res, pd, c) = (r1, pd1, c1)" by (rule prod_cases3)
  then have f: "fold (refine_block g) ks (r1, pd1, c1) = (res', pd', False)"
    using Cons.prems by simp
  have "\<not> c1" using refine_shrinks [OF f] by blast
  then have "pd1 = pd \<and> (\<forall>j \<in> set (succs g k). \<forall>p \<in> pd k. p = j \<or> p \<in> pd j)"
    using s by (cases g k rule: refine_block_cases) (auto simp: Let_def split: if_splits)
  with Cons.IH [OF f] show ?case by auto
qed simp

lemma refine_loop_result:
  assumes keys: "\<And>k. succs g k \<noteq> [] \<Longrightarrow> k \<in> set (Mapping.ordered_keys g)"
    and loop: "refine_loop g pd = Some pd'" and "keeps_inevitable g pd"
  shows "keeps_inevitable g pd' \<and> stable g pd'"
  using loop keys assms(3)
proof (induction rule: refine_loop.raw_induct [rotated, consumes 1])
  case (1 rec g pd pd')
  obtain pd1 c where p: "refine_pass g pd = (pd1, c)" by (rule prod.exhaust)
  obtain r where f: "fold (refine_block g) (Mapping.ordered_keys g) ({}, pd, False) = (r, pd1, c)"
    by (rule refine_pass_result [OF p])
  have k: "keeps_inevitable g pd1" by (rule refine_fold_keeps [OF 1(4) f])
  show ?case
  proof (cases c)
    case True
    with 1 p k show ?thesis by auto
  next
    case False
    then have e: "pd' = pd1" using 1(2) p by simp
    have "pd1 = pd \<and> (\<forall>k \<in> set (Mapping.ordered_keys g). \<forall>j \<in> set (succs g k). \<forall>p \<in> pd k. p = j \<or> p \<in> pd j)"
      using refine_fold_stable [of g _ "{}" pd False r pd1] f False by simp
    moreover have "k \<in> set (Mapping.ordered_keys g)" if "j \<in> set (succs g k)" for k j
    proof -
      have "succs g k \<noteq> []" using that by auto
      then show ?thesis by (rule 1(3))
    qed
    ultimately have "pd' = pd" "stable g pd"
      using e unfolding stable_def edge_def by blast+
    with 1(4) show ?thesis by simp
  qed
qed

section \<open>The search over all blocks\<close>

lemma reach_loop_unfold:
  obtains (stop) "reach_loop cur g pd = (g, pd)" "\<And>k. k \<in> Mapping.keys g \<Longrightarrow> finite (Mapping.keys g) \<Longrightarrow> unat k < cur"
  | (go) k mark g1 where "k \<in> Mapping.keys g" "cur \<le> unat k" "DFSOnBBGraph k (pd k) g = (mark, g1)"
      "reach_loop cur g pd = reach_loop (Suc (unat k)) g1 (pd(k := mark))"
      "\<And>i. i \<in> Mapping.keys g \<Longrightarrow> finite (Mapping.keys g) \<Longrightarrow> cur \<le> unat i \<Longrightarrow> k \<le> i"
proof (cases "filter (\<lambda>k. cur \<le> unat k) (Mapping.ordered_keys g)")
  case Nil
  have "unat k < cur" if "k \<in> Mapping.keys g" "finite (Mapping.keys g)" for k
  proof -
    have "k \<in> set (Mapping.ordered_keys g)"
      using that by (simp add: Mapping.ordered_keys_def)
    with Nil show ?thesis by (auto simp: filter_empty_conv)
  qed
  with Nil stop show ?thesis by (simp add: reach_loop.simps [of cur])
next
  case (Cons k ks)
  obtain mark g1 where d: "DFSOnBBGraph k (pd k) g = (mark, g1)" by (rule prod.exhaust)
  have "k \<in> set (filter (\<lambda>k. cur \<le> unat k) (Mapping.ordered_keys g))" by (simp add: Cons)
  then have k: "k \<in> Mapping.keys g" "cur \<le> unat k"
    by (auto simp: Mapping.ordered_keys_def split: if_splits)
  have sorted: "sorted (k # ks)"
    unfolding Cons [symmetric] by (simp add: Mapping.ordered_keys_def sorted_wrt_filter)
  have "k \<le> i" if "i \<in> Mapping.keys g" "finite (Mapping.keys g)" "cur \<le> unat i" for i
  proof -
    have "i \<in> set (filter (\<lambda>k. cur \<le> unat k) (Mapping.ordered_keys g))"
      using that by (simp add: Mapping.ordered_keys_def)
    then show ?thesis using sorted by (auto simp: Cons)
  qed
  with d k Cons go show ?thesis by (simp add: reach_loop.simps [of cur])
qed

lemma dfs_keys: "Mapping.keys g \<subseteq> Mapping.keys (snd (dfs_list is mark g))"
proof (induction "is" mark g rule: dfs_list.induct)
  case (2 i "is" mark g)
  obtain m1 g1 where r: "dfs_list (succs g i) (insert i mark) (touch i g) = (m1, g1)"
    by (rule prod.exhaust)
  have "Mapping.keys g \<subseteq> Mapping.keys (touch i g)"
    by (auto simp: touch_def split: option.splits)
  then show ?case
    using 2(1) 2(2) 2(3) [OF _ r [symmetric] refl] r by (cases "i \<in> mark") auto
qed simp

lemma DFS_graph:
  assumes "DFSOnBBGraph k m g = (mark, g1)"
  shows "succs g1 = succs g" "Mapping.keys g \<subseteq> Mapping.keys g1"
proof -
  have "succs (snd (DFSOnBBGraph k m g)) = succs g"
    by (simp add: DFSOnBBGraph_def dfs_keeps_edges)
  then show "succs g1 = succs g" using assms by simp
  have "Mapping.keys (touch k g) \<subseteq> Mapping.keys (snd (DFSOnBBGraph k m g))"
    unfolding DFSOnBBGraph_def by (rule dfs_keys)
  moreover have "Mapping.keys g \<subseteq> Mapping.keys (touch k g)"
    by (auto simp: touch_def split: option.splits)
  ultimately show "Mapping.keys g \<subseteq> Mapping.keys g1" using assms by auto
qed

lemma finite_keys32 [simp]: "finite (Mapping.keys (g :: bb_graph))"
  by (rule finite)

lemma reach_loop_result:
  assumes "reach_loop cur g pd = (g', pd')" "\<And>i. cur \<le> unat i \<Longrightarrow> pd i = {}"
  shows "succs g' = succs g \<and> Mapping.keys g \<subseteq> Mapping.keys g'
    \<and> (\<forall>i. unat i < cur \<longrightarrow> pd' i = pd i)
    \<and> (\<forall>i \<in> Mapping.keys g. cur \<le> unat i \<longrightarrow> pd' i = {v. (i, v) \<in> (edge g)\<^sup>*})"
  using assms
proof (induction "2 ^ 32 - cur" arbitrary: cur g pd rule: less_induct)
  case less
  show ?case
  proof (cases rule: reach_loop_unfold [of cur g pd])
    case stop
    then have "\<not> cur \<le> unat i" if "i \<in> Mapping.keys g" for i
      using that by (simp add: not_le)
    with stop(1) show ?thesis using less.prems(1) by simp
  next
    case (go k mark g1)
    have "unat k < 2 ^ 32" using unsigned_less [of k] by simp
    then have lt: "2 ^ 32 - Suc (unat k) < 2 ^ 32 - cur" using go(2) by simp
    have fresh: "(pd(k := mark)) i = {}" if "Suc (unat k) \<le> unat i" for i
      using less.prems(2) [of i] that go(2) by auto
    have r: "reach_loop (Suc (unat k)) g1 (pd(k := mark)) = (g', pd')"
      using go(4) less.prems(1) by simp
    note ih = less.hyps [OF lt r fresh]
    note gr = DFS_graph [OF go(3)]
    have mark: "mark = {v. (k, v) \<in> (edge g)\<^sup>*}"
      using DFS_reachable [of k g] go(2,3) less.prems(2) [of k] by simp
    have e: "edge g1 = edge g" by (simp add: edge_def gr(1))
    have "pd' i = {v. (i, v) \<in> (edge g)\<^sup>*}" if "i \<in> Mapping.keys g" "cur \<le> unat i" for i
    proof (cases "i = k")
      case True
      then show ?thesis using ih mark by simp
    next
      case False
      then have "k < i" using go(5) [OF that(1) _ that(2)] by (simp add: order_less_le)
      then have "Suc (unat k) \<le> unat i" by (simp add: word_less_nat_alt)
      then show ?thesis using ih gr(2) that(1) e by auto
    qed
    moreover have "pd' i = pd i" if "unat i < cur" for i
      using ih that go(2) by auto
    ultimately show ?thesis using ih gr by auto
  qed
qed

lemma keys_of_succs: "succs g k \<noteq> [] \<Longrightarrow> k \<in> Mapping.keys g"
  by (auto simp: succs_def Mapping.lookup_default_def keys_is_none_rep Option.is_none_def split: option.splits)

lemma inevitable_cong: "succs g = succs g' \<Longrightarrow> inevitable g = inevitable g'"
  by (simp add: fun_eq_iff inevitable_def avoiding_def edge_def)

text \<open>The whole function.\<close>

definition bb_edges :: "(u32 \<times> u32) list \<Rightarrow> bb_graph" where
  "bb_edges edges = fold add_edge edges Mapping.empty"

lemma post_dominator_result:
  assumes "PreparePostDominator edges = Some pd"
  shows "keeps_inevitable (bb_edges edges) pd \<and> stable (bb_edges edges) pd"
proof -
  let ?g = "bb_edges edges"
  obtain g pd0 where r: "reach_loop 0 ?g (\<lambda>_. {}) = (g, pd0)" by (rule prod.exhaust)
  note rl = reach_loop_result [OF r]
  have s: "succs g = succs ?g" using rl by simp
  have "keeps_inevitable ?g pd0"
    unfolding keeps_inevitable_def
  proof (intro allI impI)
    fix k p assume i: "inevitable ?g k p"
    then have "k \<in> Mapping.keys ?g" by (intro keys_of_succs inevitable_succs)
    moreover have "(k, p) \<in> (edge ?g)\<^sup>*"
      using i unfolding inevitable_def by (auto intro: trancl_into_rtrancl)
    ultimately show "p \<in> pd0 k" using rl by simp
  qed
  then have "keeps_inevitable g pd0"
    using inevitable_cong [OF s] by (simp add: keeps_inevitable_def)
  moreover have "refine_loop g pd0 = Some pd"
    using assms r by (simp add: PreparePostDominator_def bb_edges_def)
  moreover have "k \<in> set (Mapping.ordered_keys g)" if "succs g k \<noteq> []" for k
    using keys_of_succs [OF that] by (simp add: Mapping.ordered_keys_def)
  ultimately have "keeps_inevitable g pd \<and> stable g pd"
    using refine_loop_result by blast
  then show ?thesis
    using inevitable_cong [OF s] s by (simp add: keeps_inevitable_def stable_def edge_def)
qed

text \<open>Along a path that does not enter \<open>p\<close>, membership is passed on.\<close>

lemma stable_path:
  assumes "stable g pd" "(k, t) \<in> (avoiding g p)\<^sup>*" "p \<in> pd k"
  shows "p \<in> pd t"
  using assms(2)
proof (induction rule: rtrancl_induct)
  case (step y z)
  then show ?case using assms(1) by (auto simp: stable_def avoiding_def)
qed (rule assms(3))

text \<open>The graph read from the file has exactly the edges of the file.\<close>

lemma succs_add_edge: "succs (add_edge e g) i = succs g i @ (if fst e = i then [snd e] else [])"
  by (simp add: succs_def add_edge_def Mapping.lookup_default_def lookup_update' split: option.split)

lemma succs_bb_edges: "succs (bb_edges es) i = map snd (filter (\<lambda>e. fst e = i) es)"
proof -
  have "succs (fold add_edge es g) i = succs g i @ map snd (filter (\<lambda>e. fst e = i) es)" for g
    by (induction es arbitrary: g) (simp_all add: succs_add_edge)
  from this [of Mapping.empty] show ?thesis
    by (simp add: bb_edges_def succs_def Mapping.lookup_default_def)
qed

lemma edge_bb_edges: "edge (bb_edges es) = set es"
  by (force simp: edge_def succs_bb_edges)

end
