(* ===== verification/Unneeded.thy ===== *)
theory Unneeded
  imports GroupMemory "HOL-Library.Mapping" "HOL-Library.AList_Mapping"
begin

text \<open>
  \<open>ExtractUneededOperation\<close> (\<open>tools/PrintBug/PrintBug.cpp\<close>): the block trace is walked backwards;
  what an impactful call uses is needed, what a needed instruction depends on is needed, and the
  rest is reported. \<open>MemDependencies\<close> and \<open>PostDominator\<close> are globals, given here as functions.

  The three stacks of a thread hold, per function on its call stack, whether the function is used,
  the basic block executed next and whether it is used, and its terminator with a flag that it needs
  no more work. A stack is a list with the top first, the top of an empty one is a failure.
\<close>

type_synonym mem_deps = "dynamic_inst \<Rightarrow> dynamic_inst list"
type_synonym post_doms = "u32 \<Rightarrow> u32 set"

section \<open>State\<close>

record need_state =
  inst_cnt :: "ins_key \<Rightarrow> i32"
  needed :: "ins_key set"
  mem_depended :: "dynamic_inst set"
  fun_used :: "u64 \<Rightarrow> bool list"
  next_bb_used :: "u64 \<Rightarrow> (u32 \<times> bool) list"
  terminator_stack :: "u64 \<Rightarrow> (u32 \<times> dynamic_inst \<times> bool) list"
  unneeded_di :: "dynamic_inst set"
  Addr2Unneded :: "(u64, u32 set) mapping"

definition need_init :: need_state where
  "need_init = \<lparr>inst_cnt = (\<lambda>_. 0), needed = {}, mem_depended = {}, fun_used = (\<lambda>_. []),
     next_bb_used = (\<lambda>_. []), terminator_stack = (\<lambda>_. []), unneeded_di = {},
     Addr2Unneded = Mapping.empty\<rparr>"

section \<open>One needed instruction\<close>

definition ssa_keys :: "u64 \<Rightarrow> inst_info \<Rightarrow> ins_key set" where
  "ssa_keys tid x = (\<lambda>dep. (tid, snd dep)) ` set (filter (\<lambda>dep. fst dep = Inst) (SSADependencies x))"

text \<open>Only the first entry for the block control came from is looked at.\<close>

definition phi_keys :: "u64 \<Rightarrow> i32 \<Rightarrow> inst_info \<Rightarrow> ins_key set" where
  "phi_keys tid last_bb_id x =
     (case find (\<lambda>(bb, _, _). bb = last_bb_id) (PhiDependencies x) of
        Some (_, Inst, v) \<Rightarrow> {(tid, v)}
      | _ \<Rightarrow> {})"

definition OneInstruction ::
  "code_info \<Rightarrow> mem_deps \<Rightarrow> dynamic_inst \<Rightarrow> i32 \<Rightarrow> ins_key set \<times> dynamic_inst set \<Rightarrow>
     (ins_key set \<times> dynamic_inst set) option" where
  "OneInstruction C md d last_bb_id s = do {
     x \<leftarrow> ins_at C (di_ID d);
     let (need, mem) = s;
     Some (need - {(di_TID d, di_ID d)} \<union> ssa_keys (di_TID d) x \<union> phi_keys (di_TID d) last_bb_id x,
           mem - {d} \<union> set (md d))
   }"

definition IsReturnVoid :: "string \<Rightarrow> bool" where
  "IsReturnVoid code \<longleftrightarrow> take 8 (dropWhile isspace code) = ''ret void''"

text \<open>The instruction is needed by what follows: it is processed on the sets of the state.\<close>

definition use_inst :: "code_info \<Rightarrow> mem_deps \<Rightarrow> dynamic_inst \<Rightarrow> i32 \<Rightarrow> need_state \<Rightarrow> need_state option" where
  "use_inst C md d last_bb_id st = do {
     (need, mem) \<leftarrow> OneInstruction C md d last_bb_id (needed st, mem_depended st);
     Some (st\<lparr>needed := need, mem_depended := mem\<rparr>)
   }"

section \<open>The instructions a used terminator needs in its block\<close>

text \<open>One round of the loop over the block: \<open>this_needed\<close>, \<open>mem_depended\<close> and \<open>unneeded_di\<close>.\<close>

definition block_round ::
  "code_info \<Rightarrow> mem_deps \<Rightarrow> smallest_block \<Rightarrow> i32 \<Rightarrow> (ins_key \<Rightarrow> i32) \<Rightarrow> u32 \<Rightarrow>
     (ins_key set \<times> dynamic_inst set) \<times> dynamic_inst set \<Rightarrow>
     ((ins_key set \<times> dynamic_inst set) \<times> dynamic_inst set) option" where
  "block_round C md b cnt_diff cnt i s =
     (let ((this_needed, mem), un) = s;
          d = DynamicInst (sb_TID b) i (cnt_diff - cnt (sb_TID b, i)) in
      if (sb_TID b, i) \<in> this_needed \<or> d \<in> mem then do {
        r \<leftarrow> OneInstruction C md d (LastBBID b) (this_needed, mem);
        Some (r, un - {d})
      }
      else Some s)"

definition OneBlock ::
  "code_info \<Rightarrow> mem_deps \<Rightarrow> dynamic_inst \<Rightarrow> smallest_block \<Rightarrow> u32 \<Rightarrow> need_state \<Rightarrow> need_state option" where
  "OneBlock C md d b next_bb_id st = do {
     let cnt_diff = Cnt d + inst_cnt st (sb_TID b, di_ID d);
     r \<leftarrow> OneInstruction C md d (LastBBID b) ({}, mem_depended st);
     is \<leftarrow> bb_at C next_bb_id;
     ((this_needed, mem), un) \<leftarrow>
        fold_opt (block_round C md b cnt_diff (inst_cnt st)) (rev is) (r, unneeded_di st - {d});
     Some (st\<lparr>needed := needed st \<union> this_needed, mem_depended := mem, unneeded_di := un\<rparr>)
   }"

section \<open>One block of the trace\<close>

definition set_top :: "'a \<Rightarrow> 'a list \<Rightarrow> 'a list option" where
  "set_top x stk = (case stk of [] \<Rightarrow> None | _ # rest \<Rightarrow> Some (x # rest))"

text \<open>\<open>fun_used[tid].top() |= u\<close>\<close>

definition mark_fun :: "u64 \<Rightarrow> bool \<Rightarrow> need_state \<Rightarrow> need_state option" where
  "mark_fun tid u st = do {
     top \<leftarrow> at (fun_used st tid) 0;
     stk \<leftarrow> set_top (top \<or> u) (fun_used st tid);
     Some (st\<lparr>fun_used := (fun_used st)(tid := stk)\<rparr>)
   }"

definition set_terminator :: "u64 \<Rightarrow> u32 \<times> dynamic_inst \<times> bool \<Rightarrow> need_state \<Rightarrow> need_state option" where
  "set_terminator tid t st = do {
     stk \<leftarrow> set_top t (terminator_stack st tid);
     Some (st\<lparr>terminator_stack := (terminator_stack st)(tid := stk)\<rparr>)
   }"

definition count_inst :: "ins_key \<Rightarrow> need_state \<Rightarrow> need_state" where
  "count_inst k st = st\<lparr>inst_cnt := (inst_cnt st)(k := inst_cnt st k + 1)\<rparr>"

definition no_inst :: dynamic_inst where "no_inst = DynamicInst 0 0 0"

text \<open>The terminator of the block executed next, if that block is used.\<close>

definition use_terminator ::
  "code_info \<Rightarrow> mem_deps \<Rightarrow> smallest_block \<Rightarrow> u32 \<Rightarrow> need_state \<Rightarrow> need_state option" where
  "use_terminator C md b next_bb_id st = do {
     (_, d, done) \<leftarrow> at (terminator_stack st (sb_TID b)) 0;
     (if \<not> done then OneBlock C md d b next_bb_id st else Some st)
   }"

definition enter_backward :: "code_info \<Rightarrow> mem_deps \<Rightarrow> smallest_block \<Rightarrow> need_state \<Rightarrow> need_state option" where
  "enter_backward C md b st =
     (let tid = sb_TID b in
      if IsLast b > 0 then
        Some (st\<lparr>fun_used := (fun_used st)(tid := False # fun_used st tid),
                 next_bb_used := (next_bb_used st)(tid := (BBID b, False) # next_bb_used st tid),
                 terminator_stack := (terminator_stack st)(tid :=
                   (BBID b, no_inst, True) # terminator_stack st tid)\<rparr>)
      else (case next_bb_used st tid of
          [] \<Rightarrow> Some st
        | (bb, used) # _ \<Rightarrow>
            if bb \<noteq> BBID b \<and> used then do {
              st1 \<leftarrow> use_terminator C md b bb st;
              set_terminator tid (BBID b, no_inst, True) st1
            }
            else Some st))"

text \<open>The body for each type of block: the state and \<open>this_bb_used\<close>.\<close>

definition need_impactful :: "code_info \<Rightarrow> mem_deps \<Rightarrow> smallest_block \<Rightarrow> need_state \<Rightarrow> (need_state \<times> bool) option" where
  "need_impactful C md b st = do {
     i \<leftarrow> block_ins C b;
     st1 \<leftarrow> use_inst C md (DynamicInst (sb_TID b) i (- inst_cnt st (sb_TID b, i))) (LastBBID b) st;
     st2 \<leftarrow> mark_fun (sb_TID b) True (count_inst (sb_TID b, i) st1);
     Some (st2, True)
   }"

text \<open>Calls to \<open>free\<close>, \<open>va_start\<close> and \<open>va_end\<close> are passed over by \<open>continue\<close>.\<close>

definition passed_over :: "code_info \<Rightarrow> smallest_block \<Rightarrow> bool option" where
  "passed_over C b =
     (if sb_Type b = ExternalCallBlock then do {
        i \<leftarrow> block_ins C b;
        x \<leftarrow> ins_at C i;
        Some (ii_Fun x = ''free'' \<or> ii_Fun x = ''va_start'' \<or> ii_Fun x = ''va_end'')
      }
      else Some False)"

definition note_unneeded :: "smallest_block \<Rightarrow> dynamic_inst \<Rightarrow> need_state \<Rightarrow> need_state option" where
  "note_unneeded b d st = do {
     st1 \<leftarrow> (if sb_Type b = MemoryAccessBlock then do {
               l \<leftarrow> at (Addr b) 0;
               r \<leftarrow> at (Addr b) 1;
               Some (if l < r then st\<lparr>Addr2Unneded := Mapping.update l
                       (insert (di_ID d) (Mapping.lookup_default {} (Addr2Unneded st) l)) (Addr2Unneded st)\<rparr>
                     else st)
             }
             else Some st);
     Some (st1\<lparr>unneeded_di := insert d (unneeded_di st1)\<rparr>)
   }"

definition need_access :: "code_info \<Rightarrow> mem_deps \<Rightarrow> smallest_block \<Rightarrow> need_state \<Rightarrow> (need_state \<times> bool) option" where
  "need_access C md b st = do {
     i \<leftarrow> block_ins C b;
     let d = DynamicInst (sb_TID b) i (- inst_cnt st (sb_TID b, i));
     let is_needed = ((sb_TID b, i) \<in> needed st \<or> d \<in> mem_depended st);
     st1 \<leftarrow> (if is_needed then use_inst C md d (LastBBID b) st else note_unneeded b d st);
     st2 \<leftarrow> mark_fun (sb_TID b) is_needed (count_inst (sb_TID b, i) st1);
     Some (st2, is_needed)
   }"

text \<open>Is a terminator or a return needed, beyond being in \<open>needed\<close>?\<close>

definition control_need ::
  "post_doms \<Rightarrow> smallest_block \<Rightarrow> inst_info \<Rightarrow> bool \<Rightarrow> need_state \<Rightarrow> bool option" where
  "control_need pd b x is_needed st =
     (if ii_Type x = TerminatorInst then do {
        (bb, used) \<leftarrow> at (next_bb_used st (sb_TID b)) 0;
        Some (if bb \<notin> pd (BBID b) then is_needed \<or> used else is_needed)
      }
      else if ii_Type x = ReturnInst then
        (if IsReturnVoid (ii_Code x) then Some True
         else do {
           require (IsLast b = 1 \<or> IsLast b = 2);
           Some (IsLast b = 2 \<or> is_needed \<or> (sb_TID b, Caller b) \<in> needed st)
         })
      else Some is_needed)"

definition need_inst ::
  "code_info \<Rightarrow> mem_deps \<Rightarrow> post_doms \<Rightarrow> smallest_block \<Rightarrow> u32 \<Rightarrow> need_state \<times> bool \<Rightarrow>
     (need_state \<times> bool) option" where
  "need_inst C md pd b i s = do {
     let (st, bb_used) = s;
     let d = DynamicInst (sb_TID b) i (- inst_cnt st (sb_TID b, i));
     x \<leftarrow> ins_at C i;
     is_needed \<leftarrow> control_need pd b x ((sb_TID b, i) \<in> needed st) st;
     st1 \<leftarrow> (if ii_Type x = TerminatorInst then set_terminator (sb_TID b) (BBID b, d, is_needed) st
             else Some st);
     st2 \<leftarrow> (if is_needed then use_inst C md d (LastBBID b) st1
             else Some (if ii_Type x = TerminatorInst \<and> length (Successors x) \<le> 1 then st1
                        else st1\<lparr>unneeded_di := insert d (unneeded_di st1)\<rparr>));
     st3 \<leftarrow> mark_fun (sb_TID b) is_needed (count_inst (sb_TID b, i) st2);
     Some (st3, bb_used \<or> is_needed)
   }"

definition note_block :: "smallest_block \<Rightarrow> bool \<Rightarrow> need_state \<Rightarrow> need_state option" where
  "note_block b bb_used st = do {
     (bb, used) \<leftarrow> at (next_bb_used st (sb_TID b)) 0;
     stk \<leftarrow> set_top (if bb \<noteq> BBID b then (BBID b, bb_used) else (bb, used \<or> bb_used))
              (next_bb_used st (sb_TID b));
     Some (st\<lparr>next_bb_used := (next_bb_used st)(sb_TID b := stk)\<rparr>)
   }"

definition pop_frame :: "u64 \<Rightarrow> need_state \<Rightarrow> need_state option" where
  "pop_frame tid st = do {
     require (fun_used st tid \<noteq> [] \<and> next_bb_used st tid \<noteq> [] \<and> terminator_stack st tid \<noteq> []);
     Some (st\<lparr>fun_used := (fun_used st)(tid := tl (fun_used st tid)),
              next_bb_used := (next_bb_used st)(tid := tl (next_bb_used st tid)),
              terminator_stack := (terminator_stack st)(tid := tl (terminator_stack st tid))\<rparr>)
   }"

text \<open>The function is left (its first block was reached): a used function needs its call.\<close>

definition leave_backward :: "code_info \<Rightarrow> mem_deps \<Rightarrow> smallest_block \<Rightarrow> need_state \<Rightarrow> need_state option" where
  "leave_backward C md b st =
     (if IsFirst b > 0 then do {
        used \<leftarrow> (if IsFirst b = 1 then at (fun_used st (sb_TID b)) 0 else Some False);
        let st1 = (if IsFirst b = 1 \<and> used \<and> Caller b \<noteq> - 1
                   then st\<lparr>needed := insert (sb_TID b, Caller b) (needed st)\<rparr> else st);
        (_, bb_used) \<leftarrow> at (next_bb_used st1 (sb_TID b)) 0;
        st2 \<leftarrow> (if bb_used then use_terminator C md b (BBID b) st1 else Some st1);
        pop_frame (sb_TID b) st2
      }
      else Some st)"

definition need_body ::
  "code_info \<Rightarrow> mem_deps \<Rightarrow> post_doms \<Rightarrow> smallest_block \<Rightarrow> need_state \<Rightarrow> (need_state \<times> bool) option" where
  "need_body C md pd b st =
     (case sb_Type b of
        ImpactfulCallBlock \<Rightarrow> need_impactful C md b st
      | NormalBlock \<Rightarrow> do {
          is \<leftarrow> block_insts C b;
          fold_opt (need_inst C md pd b) is (st, False)
        }
      | DeclareBlock \<Rightarrow> Some (st, False)
      | _ \<Rightarrow> need_access C md b st)"

definition need_block ::
  "code_info \<Rightarrow> mem_deps \<Rightarrow> post_doms \<Rightarrow> smallest_block \<Rightarrow> need_state \<Rightarrow> need_state option" where
  "need_block C md pd b st =
     (if sb_Type b = DeclareBlock then Some st
      else do {
        st1 \<leftarrow> enter_backward C md b st;
        skip \<leftarrow> passed_over C b;
        (if skip then Some st1
         else do {
           (st2, bb_used) \<leftarrow> need_body C md pd b st1;
           st3 \<leftarrow> note_block b bb_used st2;
           leave_backward C md b st3
         })
      })"

definition ExtractUneededOperation ::
  "code_info \<Rightarrow> mem_deps \<Rightarrow> post_doms \<Rightarrow> smallest_block list \<Rightarrow> need_state option" where
  "ExtractUneededOperation C md pd block_trace =
     fold_opt (need_block C md pd) (rev block_trace) need_init"

section \<open>The three stacks move together\<close>

definition depths :: "need_state \<Rightarrow> u64 \<Rightarrow> nat \<times> nat \<times> nat" where
  "depths st t = (length (fun_used st t), length (next_bb_used st t), length (terminator_stack st t))"

definition balanced :: "need_state \<Rightarrow> bool" where
  "balanced st \<longleftrightarrow> (\<forall>t. length (next_bb_used st t) = length (fun_used st t)
     \<and> length (terminator_stack st t) = length (fun_used st t))"

definition same_depths :: "need_state \<Rightarrow> need_state \<Rightarrow> bool" where
  "same_depths st st' \<longleftrightarrow> depths st' = depths st"

lemma same_depths_refl [simp]: "same_depths st st"
  by (simp add: same_depths_def)

lemma same_depths_trans: "same_depths s t \<Longrightarrow> same_depths t u \<Longrightarrow> same_depths s u"
  by (simp add: same_depths_def)

lemma set_top_length: "set_top x stk = Some stk' \<Longrightarrow> length stk' = length stk"
  by (auto simp: set_top_def split: list.splits)

lemma depths_upd [simp]:
  "depths (st\<lparr>needed := n\<rparr>) = depths st" "depths (st\<lparr>unneeded_di := u\<rparr>) = depths st"
  "depths (st\<lparr>mem_depended := m\<rparr>) = depths st" "depths (st\<lparr>Addr2Unneded := a\<rparr>) = depths st"
  "depths (count_inst k st) = depths st"
  by (simp_all add: depths_def fun_eq_iff count_inst_def)

lemma depths_steps:
  "mark_fun tid u st = Some st' \<Longrightarrow> same_depths st st'"
  "set_terminator tid t st = Some st' \<Longrightarrow> same_depths st st'"
  "use_inst C md d l st = Some st' \<Longrightarrow> same_depths st st'"
  "OneBlock C md d b bb st = Some st' \<Longrightarrow> same_depths st st'"
  "note_block b u st = Some st' \<Longrightarrow> same_depths st st'"
  by (auto simp: same_depths_def mark_fun_def set_terminator_def use_inst_def OneBlock_def note_block_def
      depths_def fun_eq_iff Let_def elim!: bind_SomeE dest: set_top_length)

lemma depths_use_terminator: "use_terminator C md b bb st = Some st' \<Longrightarrow> same_depths st st'"
  by (auto simp: use_terminator_def elim!: bind_SomeE split: if_splits dest: depths_steps(4))

lemma depths_note: "note_unneeded b d st = Some st' \<Longrightarrow> same_depths st st'"
  by (auto simp: note_unneeded_def same_depths_def elim!: bind_SomeE split: if_splits)

lemma depths_impactful: "need_impactful C md b st = Some (st', u) \<Longrightarrow> same_depths st st'"
  by (auto simp: need_impactful_def elim!: bind_SomeE dest!: depths_steps simp: same_depths_def)

lemma depths_access: "need_access C md b st = Some (st', u) \<Longrightarrow> same_depths st st'"
  by (auto simp: need_access_def Let_def elim!: bind_SomeE dest!: depths_steps depths_note
      split: if_splits simp: same_depths_def)

lemma depths_inst: "need_inst C md pd b i (st, u) = Some (st', u') \<Longrightarrow> same_depths st st'"
  by (auto simp: need_inst_def Let_def elim!: bind_SomeE dest!: depths_steps
      split: if_splits simp: same_depths_def)

interpretation need_insts: loop_body "need_inst C md pd b" "\<lambda>_. True" "\<lambda>s s'. same_depths (fst s) (fst s')"
  for C md pd b
  by unfold_locales (auto intro: same_depths_trans depths_inst)

lemma depths_body:
  assumes "need_body C md pd b st = Some (st', u)"
  shows "same_depths st st'"
proof (cases "sb_Type b")
  case NormalBlock
  then obtain is' where "fold_opt (need_inst C md pd b) is' (st, False) = Some (st', u)"
    using assms by (auto simp: need_body_def elim!: bind_SomeE)
  from need_insts.loop_rel [OF _ this] show ?thesis by simp
qed (use assms depths_access depths_impactful in \<open>auto simp: need_body_def\<close>)

text \<open>How many frames a block adds and removes, walking backwards.\<close>

definition frames_in :: "smallest_block \<Rightarrow> nat" where "frames_in b = (if IsLast b > 0 then 1 else 0)"
definition frames_out :: "smallest_block \<Rightarrow> nat" where "frames_out b = (if IsFirst b > 0 then 1 else 0)"

lemma enter_depths:
  assumes "enter_backward C md b st = Some st'"
  shows "depths st' t = (let (f, n, s) = depths st t; k = (if t = sb_TID b then frames_in b else 0)
    in (f + k, n + k, s + k))"
proof (cases "IsLast b > 0")
  case True
  then show ?thesis
    using assms by (auto simp: enter_backward_def Let_def depths_def frames_in_def)
next
  case False
  then have "same_depths st st'"
    using assms
    by (auto simp: enter_backward_def Let_def elim!: bind_SomeE split: list.splits if_splits
        dest!: depths_use_terminator depths_steps(2) intro: same_depths_trans)
  with False show ?thesis
    by (simp add: same_depths_def frames_in_def split: prod.splits)
qed

lemma pop_depths:
  "pop_frame tid st = Some st' \<Longrightarrow> depths st t = (let (f, n, s) = depths st' t;
     k = (if t = tid then 1 else 0) in (f + k, n + k, s + k))"
  by (auto simp: pop_frame_def depths_def require_Some elim!: bind_SomeE)

lemma leave_depths:
  assumes "leave_backward C md b st = Some st'"
  shows "depths st t = (let (f, n, s) = depths st' t; k = (if t = sb_TID b then frames_out b else 0)
    in (f + k, n + k, s + k))"
proof (cases "IsFirst b > 0")
  case True
  have "\<exists>st2. pop_frame (sb_TID b) st2 = Some st' \<and> same_depths st st2"
    using assms True
    by (fastforce simp: leave_backward_def Let_def same_depths_def elim!: bind_SomeE split: if_splits
        dest!: depths_use_terminator)
  then obtain st2 where "pop_frame (sb_TID b) st2 = Some st'" "depths st2 = depths st"
    by (auto simp: same_depths_def)
  with pop_depths [of "sb_TID b" st2 st' t] True show ?thesis
    by (simp add: frames_out_def)
next
  case False
  then show ?thesis
    using assms by (auto simp: leave_backward_def frames_out_def split: prod.splits)
qed

lemma need_block_balanced:
  assumes "balanced st" "need_block C md pd b st = Some st'"
  shows "balanced st'"
proof (cases "sb_Type b = DeclareBlock")
  case True
  then show ?thesis using assms by (simp add: need_block_def)
next
  case False
  then obtain st1 skip where e: "enter_backward C md b st = Some st1" "passed_over C b = Some skip"
    "(if skip then Some st1 else do {
           (st2, bb_used) \<leftarrow> need_body C md pd b st1;
           st3 \<leftarrow> note_block b bb_used st2;
           leave_backward C md b st3
         }) = Some st'"
    using assms(2) by (auto simp: need_block_def elim!: bind_SomeE)
  have b1: "balanced st1"
    using assms(1) enter_depths [OF e(1)] by (simp add: balanced_def depths_def Let_def)
  show ?thesis
  proof (cases skip)
    case True
    then show ?thesis using e(3) b1 by simp
  next
    case no_skip: False
    then obtain st2 u st3 where s: "need_body C md pd b st1 = Some (st2, u)" "note_block b u st2 = Some st3"
      "leave_backward C md b st3 = Some st'"
      using e(3) by (auto elim!: bind_SomeE)
    have "same_depths st1 st3"
      using depths_body [OF s(1)] depths_steps(5) [OF s(2)] by (rule same_depths_trans)
    then have "balanced st3"
      using b1 by (simp add: balanced_def same_depths_def depths_def fun_eq_iff)
    then have "length (next_bb_used st3 t) = length (fun_used st3 t)
        \<and> length (terminator_stack st3 t) = length (fun_used st3 t)" for t
      by (simp add: balanced_def)
    then have "length (next_bb_used st' t) = length (fun_used st' t)
        \<and> length (terminator_stack st' t) = length (fun_used st' t)" for t
      using leave_depths [OF s(3), of t] by (simp add: depths_def Let_def)
    then show ?thesis by (simp add: balanced_def)
  qed
qed

interpretation need_trace: loop_body "need_block C md pd" balanced "\<lambda>_ _. True" for C md pd
  by unfold_locales (auto intro: need_block_balanced)

lemma need_balanced: "ExtractUneededOperation C md pd bt = Some st \<Longrightarrow> balanced st"
  unfolding ExtractUneededOperation_def
  by (rule need_trace.loop_inv) (auto simp: balanced_def need_init_def)

section \<open>What an impactful call needs is never reported\<close>

text \<open>
  The specification: liveness through SSA and phi dependencies, from the impactful calls, over the
  executed instructions from the last to the first. \<open>lv_count\<close> counts the executions of an
  instruction seen so far, so \<open>- lv_count\<close> numbers the current one.
\<close>

record live_state =
  lv_needed :: "ins_key set"
  lv_count :: "ins_key \<Rightarrow> nat"
  lv_live :: "dynamic_inst set"

definition live_init :: live_state where
  "live_init = \<lparr>lv_needed = {}, lv_count = (\<lambda>_. 0), lv_live = {}\<rparr>"

definition live_inst :: "code_info \<Rightarrow> bool \<Rightarrow> smallest_block \<Rightarrow> u32 \<Rightarrow> live_state \<Rightarrow> live_state option" where
  "live_inst C root b i s =
     (let k = (sb_TID b, i);
          s1 = s\<lparr>lv_count := (lv_count s)(k := lv_count s k + 1)\<rparr> in
      if root \<or> k \<in> lv_needed s then do {
        x \<leftarrow> ins_at C i;
        Some (s1\<lparr>lv_needed := lv_needed s - {k} \<union> ssa_keys (sb_TID b) x \<union> phi_keys (sb_TID b) (LastBBID b) x,
                 lv_live := insert (DynamicInst (sb_TID b) i (- of_nat (lv_count s k))) (lv_live s)\<rparr>)
      }
      else Some s1)"

definition live_block :: "code_info \<Rightarrow> smallest_block \<Rightarrow> live_state \<Rightarrow> live_state option" where
  "live_block C b s = do {
     skip \<leftarrow> passed_over C b;
     (if skip \<or> sb_Type b = DeclareBlock then Some s
      else if sb_Type b = NormalBlock then do {
        is \<leftarrow> block_insts C b;
        fold_opt (live_inst C False b) is s
      }
      else do {
        i \<leftarrow> block_ins C b;
        live_inst C (sb_Type b = ImpactfulCallBlock) b i s
      })
   }"

definition live_trace :: "code_info \<Rightarrow> smallest_block list \<Rightarrow> live_state option" where
  "live_trace C bt = fold_opt (live_block C) (rev bt) live_init"

text \<open>The analysis follows the specification.\<close>

definition numbered :: "(ins_key \<Rightarrow> nat) \<Rightarrow> dynamic_inst \<Rightarrow> bool" where
  "numbered cnt d \<longleftrightarrow> (\<exists>m < cnt (di_TID d, di_ID d). Cnt d = - of_nat m)"

definition follows :: "live_state \<Rightarrow> need_state \<Rightarrow> bool" where
  "follows s st \<longleftrightarrow> lv_needed s \<subseteq> needed st \<and> (\<forall>k. inst_cnt st k = of_nat (lv_count s k))"

definition apart :: "live_state \<Rightarrow> need_state \<Rightarrow> bool" where
  "apart s st \<longleftrightarrow> (\<forall>d \<in> unneeded_di st \<union> lv_live s. numbered (lv_count s) d)
     \<and> lv_live s \<inter> unneeded_di st = {}"

text \<open>Fewer than \<open>2^32\<close> executions have different numbers, so the current one is not reported yet.\<close>

definition bounded :: "live_state \<Rightarrow> bool" where
  "bounded s \<longleftrightarrow> (\<forall>k. lv_count s k \<le> 2 ^ 32)"

definition sound :: "live_state \<Rightarrow> need_state \<Rightarrow> bool" where
  "sound s st \<longleftrightarrow> follows s st \<and> (bounded s \<longrightarrow> apart s st)"

text \<open>Steps that need more and report less.\<close>

definition weaker :: "need_state \<Rightarrow> need_state \<Rightarrow> bool" where
  "weaker st st' \<longleftrightarrow> needed st \<subseteq> needed st' \<and> inst_cnt st' = inst_cnt st \<and> unneeded_di st' \<subseteq> unneeded_di st"

lemma sound_weaker: "sound s st \<Longrightarrow> weaker st st' \<Longrightarrow> sound s st'"
  unfolding sound_def follows_def apart_def weaker_def by auto

lemma weaker_refl [simp]: "weaker st st"
  by (simp add: weaker_def)

lemma weaker_trans: "weaker s t \<Longrightarrow> weaker t u \<Longrightarrow> weaker s u"
  by (auto simp: weaker_def)

lemma round_shrinks:
  "block_round C md b cd cnt i ((tn, mem), un) = Some ((tn', mem'), un') \<Longrightarrow> un' \<subseteq> un"
  by (auto simp: block_round_def Let_def elim!: bind_SomeE split: if_splits)

interpretation rounds: loop_body "block_round C md b cd cnt" "\<lambda>_. True" "\<lambda>s s'. snd s' \<subseteq> snd s"
  for C md b cd cnt
  using round_shrinks by unfold_locales fastforce+

lemma weaker_OneBlock:
  assumes "OneBlock C md d b bb st = Some st'"
  shows "weaker st st'"
proof -
  obtain r is' tn mem un where f: "fold_opt (block_round C md b (Cnt d + inst_cnt st (sb_TID b, di_ID d)) (inst_cnt st))
      is' (r, unneeded_di st - {d}) = Some ((tn, mem), un)"
    and st': "st' = st\<lparr>needed := needed st \<union> tn, mem_depended := mem, unneeded_di := un\<rparr>"
    using assms by (auto simp: OneBlock_def Let_def elim!: bind_SomeE)
  from rounds.loop_rel [OF _ f] have "un \<subseteq> unneeded_di st" by auto
  with st' show ?thesis by (auto simp: weaker_def)
qed

lemma weaker_steps:
  "mark_fun tid u st = Some st' \<Longrightarrow> weaker st st'"
  "set_terminator tid t st = Some st' \<Longrightarrow> weaker st st'"
  "note_block b u st = Some st' \<Longrightarrow> weaker st st'"
  "pop_frame tid st = Some st' \<Longrightarrow> weaker st st'"
  by (auto simp: mark_fun_def set_terminator_def note_block_def pop_frame_def weaker_def
      elim!: bind_SomeE split: if_splits)

lemma weaker_use_terminator: "use_terminator C md b bb st = Some st' \<Longrightarrow> weaker st st'"
  by (auto simp: use_terminator_def elim!: bind_SomeE split: if_splits dest: weaker_OneBlock)

lemma weaker_enter: "enter_backward C md b st = Some st' \<Longrightarrow> weaker st st'"
  by (auto simp: enter_backward_def Let_def elim!: bind_SomeE split: list.splits if_splits
      dest!: weaker_steps(2) weaker_use_terminator intro: weaker_trans) (auto simp: weaker_def)

lemma weaker_leave:
  assumes "leave_backward C md b st = Some st'"
  shows "weaker st st'"
proof (cases "IsFirst b > 0")
  case True
  obtain st1 st2 bb_used where s: "weaker st st1" "(if bb_used then use_terminator C md b (BBID b) st1
      else Some st1) = Some st2" "pop_frame (sb_TID b) st2 = Some st'"
  proof -
    assume h: "\<And>st1 bb_used st2. weaker st st1 \<Longrightarrow> (if bb_used then use_terminator C md b (BBID b) st1
      else Some st1) = Some st2 \<Longrightarrow> pop_frame (sb_TID b) st2 = Some st' \<Longrightarrow> thesis"
    show thesis
      using assms True unfolding leave_backward_def Let_def
      by (auto elim!: bind_SomeE) (rule h, auto simp: weaker_def)
  qed
  have "weaker st1 st2"
    using s(2) weaker_use_terminator by (auto split: if_splits)
  then show ?thesis
    using s(1) weaker_steps(4) [OF s(3)] weaker_trans by blast
qed (use assms in \<open>simp add: leave_backward_def\<close>)

lemma of_nat_32_eq: "a < 2 ^ 32 \<Longrightarrow> b < 2 ^ 32 \<Longrightarrow> (of_nat a :: 32 word) = of_nat b \<longleftrightarrow> a = b"
  by (auto dest!: arg_cong [where f = unat] simp: unat_of_nat)

lemma current_fresh:
  assumes "numbered cnt d" "cnt (t, i) < 2 ^ 32"
  shows "d \<noteq> DynamicInst t i (- of_nat (cnt (t, i)))"
proof
  assume d: "d = DynamicInst t i (- of_nat (cnt (t, i)))"
  with assms(1) obtain m where "m < cnt (t, i)" "(of_nat m :: i32) = of_nat (cnt (t, i))"
    by (auto simp: numbered_def)
  with assms(2) of_nat_32_eq [of m "cnt (t, i)"] show False by simp
qed

lemma numbered_next:
  "numbered cnt d \<Longrightarrow> numbered (cnt(k := Suc (cnt k))) d"
  "numbered (cnt((t, i) := Suc (cnt (t, i)))) (DynamicInst t i (- of_nat (cnt (t, i))))"
  by (auto simp: numbered_def intro: less_SucI)

lemma live_inst_count:
  "live_inst C root b i s = Some s' \<Longrightarrow>
   lv_count s' = (lv_count s)((sb_TID b, i) := lv_count s (sb_TID b, i) + 1)"
  by (auto simp: live_inst_def Let_def elim!: bind_SomeE split: if_splits)

lemma bounded_inst:
  assumes "live_inst C root b i s = Some s'" "bounded s'"
  shows "bounded s" "lv_count s (sb_TID b, i) < 2 ^ 32"
proof -
  have c: "lv_count s' k = (if k = (sb_TID b, i) then lv_count s k + 1 else lv_count s k)" for k
    using live_inst_count [OF assms(1)] by simp
  have le: "lv_count s' k \<le> 2 ^ 32" for k
    using assms(2) unfolding bounded_def by blast
  have "lv_count s k \<le> 2 ^ 32" for k
    using le [of k] c [of k] by (simp split: if_splits)
  then show "bounded s" by (simp add: bounded_def)
  show "lv_count s (sb_TID b, i) < 2 ^ 32"
    using le [of "(sb_TID b, i)"] c [of "(sb_TID b, i)"] by simp
qed

text \<open>An executed instruction that is processed as needed, and one that is not.\<close>

lemma sound_use:
  assumes "sound s st" "use_inst C md (DynamicInst (sb_TID b) i (- inst_cnt st (sb_TID b, i))) (LastBBID b) st = Some st'"
  shows "\<exists>s'. live_inst C root b i s = Some s' \<and> sound s' (count_inst (sb_TID b, i) st')"
proof -
  obtain x where x: "ins_at C i = Some x"
    and st': "needed st' = needed st - {(sb_TID b, i)} \<union> ssa_keys (sb_TID b) x \<union> phi_keys (sb_TID b) (LastBBID b) x"
      "inst_cnt st' = inst_cnt st" "unneeded_di st' = unneeded_di st"
    using assms(2) by (auto simp: use_inst_def OneInstruction_def elim!: bind_SomeE)
  obtain s' where s': "live_inst C root b i s = Some s'"
    and eq: "s' = (if root \<or> (sb_TID b, i) \<in> lv_needed s
        then s\<lparr>lv_count := (lv_count s)((sb_TID b, i) := Suc (lv_count s (sb_TID b, i))),
               lv_needed := lv_needed s - {(sb_TID b, i)} \<union> ssa_keys (sb_TID b) x \<union> phi_keys (sb_TID b) (LastBBID b) x,
               lv_live := insert (DynamicInst (sb_TID b) i (- of_nat (lv_count s (sb_TID b, i)))) (lv_live s)\<rparr>
        else s\<lparr>lv_count := (lv_count s)((sb_TID b, i) := Suc (lv_count s (sb_TID b, i)))\<rparr>)"
    using x by (simp add: live_inst_def Let_def)
  have f: "follows s st" using assms(1) by (simp add: sound_def)
  then have "follows s' (count_inst (sb_TID b, i) st')"
    using eq st' unfolding follows_def
    by (cases "root \<or> (sb_TID b, i) \<in> lv_needed s") (simp_all add: count_inst_def, blast+)
  moreover have "apart s' (count_inst (sb_TID b, i) st')" if "bounded s'"
  proof -
    have c: "lv_count s (sb_TID b, i) < 2 ^ 32" and ap: "apart s st"
      using bounded_inst [OF s' that] assms(1) by (auto simp: sound_def)
    have "d \<noteq> DynamicInst (sb_TID b) i (- of_nat (lv_count s (sb_TID b, i)))" if "d \<in> unneeded_di st" for d
      using ap that c current_fresh [of "lv_count s" d "sb_TID b" i] by (auto simp: apart_def)
    then have "DynamicInst (sb_TID b) i (- of_nat (lv_count s (sb_TID b, i))) \<notin> unneeded_di st" by blast
    then show ?thesis
      using ap st' eq unfolding apart_def
      by (cases "root \<or> (sb_TID b, i) \<in> lv_needed s") (simp_all add: count_inst_def numbered_next)
  qed
  ultimately show ?thesis
    using s' by (auto simp: sound_def)
qed

lemma sound_skip:
  assumes "sound s st" "(sb_TID b, i) \<notin> needed st"
    and st': "needed st' = needed st" "inst_cnt st' = inst_cnt st"
      "unneeded_di st' \<subseteq> insert (DynamicInst (sb_TID b) i (- inst_cnt st (sb_TID b, i))) (unneeded_di st)"
  shows "\<exists>s'. live_inst C False b i s = Some s' \<and> sound s' (count_inst (sb_TID b, i) st')"
proof -
  let ?d = "DynamicInst (sb_TID b) i (- of_nat (lv_count s (sb_TID b, i)))"
  have f: "follows s st" using assms(1) by (simp add: sound_def)
  define s' where "s' = s\<lparr>lv_count := (lv_count s)((sb_TID b, i) := Suc (lv_count s (sb_TID b, i)))\<rparr>"
  have s': "live_inst C False b i s = Some s'"
    using f assms(2) by (auto simp: live_inst_def Let_def follows_def s'_def)
  have "follows s' (count_inst (sb_TID b, i) st')"
    using f st' by (simp add: follows_def s'_def count_inst_def)
  moreover have "apart s' (count_inst (sb_TID b, i) st')" if "bounded s'"
  proof -
    have c: "lv_count s (sb_TID b, i) < 2 ^ 32" and ap: "apart s st"
      using bounded_inst [OF s' that] assms(1) by (auto simp: sound_def)
    have "?d \<notin> lv_live s"
      using ap c current_fresh [of "lv_count s" ?d "sb_TID b" i] by (auto simp: apart_def)
    moreover have sub: "unneeded_di st' \<subseteq> insert ?d (unneeded_di st)"
      using st'(3) f by (simp add: follows_def)
    moreover have "numbered (lv_count s') d" if "d \<in> insert ?d (unneeded_di st) \<union> lv_live s" for d
      using that ap by (auto simp: apart_def s'_def numbered_next)
    ultimately show ?thesis
      using ap unfolding apart_def by (auto simp: count_inst_def s'_def)
  qed
  ultimately show ?thesis
    using s' by (auto simp: sound_def)
qed

text \<open>One instruction of a normal block, and the three kinds of block with one instruction.\<close>

lemma control_need_keeps: "control_need pd b x u st = Some v \<Longrightarrow> u \<Longrightarrow> v"
  by (auto simp: control_need_def elim!: bind_SomeE split: if_splits)

lemma weaker_same:
  "weaker st st' \<Longrightarrow> inst_cnt st' = inst_cnt st"
  by (simp add: weaker_def)

lemma count_mark:
  "mark_fun tid u (count_inst k st) = Some st' \<Longrightarrow> sound s (count_inst k st) \<Longrightarrow> sound s st'"
  using sound_weaker weaker_steps(1) by blast

lemma sound_inst:
  assumes "sound s (fst p)" "need_inst C md pd b i p = Some p'"
  shows "\<exists>s'. live_inst C False b i s = Some s' \<and> sound s' (fst p')"
proof -
  obtain st u where p: "p = (st, u)" by (cases p)
  let ?d = "DynamicInst (sb_TID b) i (- inst_cnt st (sb_TID b, i))"
  obtain x v st1 st2 st3 where x: "ins_at C i = Some x"
    and v: "control_need pd b x ((sb_TID b, i) \<in> needed st) st = Some v"
    and st1: "(if ii_Type x = TerminatorInst then set_terminator (sb_TID b) (BBID b, ?d, v) st else Some st) = Some st1"
    and st2: "(if v then use_inst C md ?d (LastBBID b) st1
             else Some (if ii_Type x = TerminatorInst \<and> length (Successors x) \<le> 1 then st1
                        else st1\<lparr>unneeded_di := insert ?d (unneeded_di st1)\<rparr>)) = Some st2"
    and st3: "mark_fun (sb_TID b) v (count_inst (sb_TID b, i) st2) = Some st3" "p' = (st3, u \<or> v)"
    using assms(2) by (auto simp: need_inst_def Let_def p elim!: bind_SomeE)
  have same: "inst_cnt st1 = inst_cnt st" "needed st1 = needed st" "unneeded_di st1 = unneeded_di st"
    using st1 by (auto simp: set_terminator_def elim!: bind_SomeE split: if_splits)
  have s1: "sound s st1"
    using assms(1) p same by (simp add: sound_def follows_def apart_def)
  have "\<exists>s'. live_inst C False b i s = Some s' \<and> sound s' (count_inst (sb_TID b, i) st2)"
  proof (cases v)
    case True
    then show ?thesis using sound_use [OF s1] st2 same by simp
  next
    case False
    then have "(sb_TID b, i) \<notin> needed st1"
      using control_need_keeps [OF v] same by auto
    from sound_skip [OF s1 this, of st2] show ?thesis
      using st2 False same by (auto split: if_splits)
  qed
  with st3 count_mark show ?thesis by auto
qed

interpretation inst_sim: simulation "need_inst C md pd b" "live_inst C False b" "\<lambda>s p. sound s (fst p)" for C md pd b
  by unfold_locales (rule sound_inst)

lemma sound_access:
  assumes "sound s st" "need_access C md b st = Some (st', u)"
  shows "\<exists>i s'. block_ins C b = Some i \<and> live_inst C False b i s = Some s' \<and> sound s' st'"
proof -
  obtain i st1 v where i: "block_ins C b = Some i"
    and v: "v = ((sb_TID b, i) \<in> needed st
      \<or> DynamicInst (sb_TID b) i (- inst_cnt st (sb_TID b, i)) \<in> mem_depended st)"
    and st1: "(if v then use_inst C md (DynamicInst (sb_TID b) i (- inst_cnt st (sb_TID b, i))) (LastBBID b) st
       else note_unneeded b (DynamicInst (sb_TID b) i (- inst_cnt st (sb_TID b, i))) st) = Some st1"
    and st': "mark_fun (sb_TID b) v (count_inst (sb_TID b, i) st1) = Some st'"
    using assms(2) by (auto simp: need_access_def Let_def elim!: bind_SomeE)
  have "\<exists>s'. live_inst C False b i s = Some s' \<and> sound s' (count_inst (sb_TID b, i) st1)"
  proof (cases v)
    case True
    then show ?thesis using sound_use [OF assms(1)] st1 by simp
  next
    case False
    then have n: "note_unneeded b (DynamicInst (sb_TID b) i (- inst_cnt st (sb_TID b, i))) st = Some st1"
      using st1 by simp
    moreover from n have "needed st1 = needed st" "inst_cnt st1 = inst_cnt st"
      "unneeded_di st1 = insert (DynamicInst (sb_TID b) i (- inst_cnt st (sb_TID b, i))) (unneeded_di st)"
      by (auto simp: note_unneeded_def elim!: bind_SomeE split: if_splits)
    ultimately show ?thesis
      using sound_skip [OF assms(1), of b i st1] v False by auto
  qed
  with i count_mark [OF st'] show ?thesis by auto
qed

lemma sound_impactful:
  assumes "sound s st" "need_impactful C md b st = Some (st', u)"
  shows "\<exists>i s'. block_ins C b = Some i \<and> live_inst C True b i s = Some s' \<and> sound s' st'"
proof -
  obtain i st1 where i: "block_ins C b = Some i"
    and st1: "use_inst C md (DynamicInst (sb_TID b) i (- inst_cnt st (sb_TID b, i))) (LastBBID b) st = Some st1"
    and st': "mark_fun (sb_TID b) True (count_inst (sb_TID b, i) st1) = Some st'"
    using assms(2) by (auto simp: need_impactful_def elim!: bind_SomeE)
  with sound_use [OF assms(1) st1, of True] count_mark [OF st'] show ?thesis by auto
qed

lemma sound_block:
  assumes "sound s st" "need_block C md pd b st = Some st'"
  shows "\<exists>s'. live_block C b s = Some s' \<and> sound s' st'"
proof (cases "sb_Type b = DeclareBlock")
  case True
  then show ?thesis using assms by (simp add: need_block_def live_block_def passed_over_def)
next
  case False
  then obtain st1 skip where e: "enter_backward C md b st = Some st1" "passed_over C b = Some skip"
    "(if skip then Some st1 else do {
           (st2, bb_used) \<leftarrow> need_body C md pd b st1;
           st3 \<leftarrow> note_block b bb_used st2;
           leave_backward C md b st3
         }) = Some st'"
    using assms(2) by (auto simp: need_block_def elim!: bind_SomeE)
  have s1: "sound s st1"
    using sound_weaker [OF assms(1) weaker_enter [OF e(1)]] .
  show ?thesis
  proof (cases skip)
    case True
    then show ?thesis using e s1 by (simp add: live_block_def)
  next
    case no_skip: False
    then obtain st2 u st3 where b: "need_body C md pd b st1 = Some (st2, u)" "note_block b u st2 = Some st3"
      "leave_backward C md b st3 = Some st'"
      using e(3) by (auto elim!: bind_SomeE)
    have "weaker st2 st'"
      using weaker_trans [OF weaker_steps(3) [OF b(2)] weaker_leave [OF b(3)]] .
    moreover have "\<exists>s'. live_block C b s = Some s' \<and> sound s' st2"
    proof (cases "sb_Type b")
      case NormalBlock
      then obtain is' where "block_insts C b = Some is'"
        "fold_opt (need_inst C md pd b) is' (st1, False) = Some (st2, u)"
        using b(1) by (auto simp: need_body_def elim!: bind_SomeE)
      with inst_sim.loop_sim [of s "(st1, False)"] s1 e(2) no_skip NormalBlock show ?thesis
        by (fastforce simp: live_block_def)
    qed (use b(1) sound_access [OF s1] sound_impactful [OF s1] e(2) no_skip False in
        \<open>fastforce simp: need_body_def live_block_def\<close>)+
    ultimately show ?thesis using sound_weaker by blast
  qed
qed

interpretation trace_sim: simulation "need_block C md pd" "live_block C" sound for C md pd
  by unfold_locales (rule sound_block)

lemma unneeded_not_live:
  assumes "ExtractUneededOperation C md pd bt = Some st"
  shows "\<exists>s. live_trace C bt = Some s \<and> (bounded s \<longrightarrow> lv_live s \<inter> unneeded_di st = {})"
proof -
  have "sound live_init need_init"
    by (simp add: sound_def follows_def apart_def live_init_def need_init_def)
  from trace_sim.loop_sim [OF this assms [unfolded ExtractUneededOperation_def]] show ?thesis
    by (auto simp: live_trace_def sound_def apart_def)
qed

end
