(* ===== verification/InstFile.thy ===== *)
theory InstFile
  imports Tools Base64
begin

text \<open>
  \<open>LoadInstInfo\<close> and \<open>LoadInstrumentedFun\<close> (\<open>lib/SlimmerUtil/Routines.cpp\<close>): formatted input from a
  stream, which is the string still to be read. An extraction skips white space; a failed one is
  \<open>None\<close>. The loops test it; inside a record a failed extraction leaves variables the code goes on
  to use unset, and the whole load is \<open>None\<close> here.
\<close>

section \<open>Extractions\<close>

definition skip_ws :: "string \<Rightarrow> string" where
  "skip_ws s = dropWhile isspace s"

definition read_word :: "string \<Rightarrow> (string \<times> string) option" where
  "read_word s =
     (let w = takeWhile (\<lambda>c. \<not> isspace c) (skip_ws s) in
      if w = [] then None else Some (w, dropWhile (\<lambda>c. \<not> isspace c) (skip_ws s)))"

definition is_digit :: "char \<Rightarrow> bool" where
  "is_digit c \<longleftrightarrow> (let n = of_char c :: nat in 48 \<le> n \<and> n \<le> 57)"

definition digit_value :: "char \<Rightarrow> nat" where
  "digit_value c = of_char c - 48"

definition number_of :: "string \<Rightarrow> nat" where
  "number_of ds = foldl (\<lambda>n c. 10 * n + digit_value c) 0 ds"

text \<open>A sign and the longest run of digits; at least one digit.\<close>

definition read_number :: "string \<Rightarrow> ((bool \<times> nat) \<times> string) option" where
  "read_number s =
     (let t = skip_ws s;
          neg = (t \<noteq> [] \<and> hd t = CHR ''-'');
          u = (if t \<noteq> [] \<and> (hd t = CHR ''-'' \<or> hd t = CHR ''+'') then tl t else t);
          ds = takeWhile is_digit u
      in if ds = [] then None else Some ((neg, number_of ds), dropWhile is_digit u))"

text \<open>\<open>>> int\<close>, \<open>>> uint32_t\<close> (a sign wraps) and \<open>>> bool\<close>.\<close>

definition read_int :: "string \<Rightarrow> (int \<times> string) option" where
  "read_int s = do {
     ((neg, n), rest) \<leftarrow> read_number s;
     let v = (if neg then - int n else int n);
     require (- (2 ^ 31) \<le> v \<and> v < 2 ^ 31);
     Some (v, rest)
   }"

definition read_u32 :: "string \<Rightarrow> (u32 \<times> string) option" where
  "read_u32 s = do {
     ((neg, n), rest) \<leftarrow> read_number s;
     require (n < 2 ^ 32);
     Some (if neg then - of_nat n else of_nat n, rest)
   }"

definition read_bool :: "string \<Rightarrow> (bool \<times> string) option" where
  "read_bool s = do {
     (v, rest) \<leftarrow> read_int s;
     require (v = 0 \<or> v = 1);
     Some (v = 1, rest)
   }"

text \<open>\<open>while (cnt--)\<close> with one extraction per round; a negative count never reaches 0 by counting.\<close>

fun read_many :: "(string \<Rightarrow> ('a \<times> string) option) \<Rightarrow> nat \<Rightarrow> string \<Rightarrow> ('a list \<times> string) option" where
  "read_many r 0 s = Some ([], s)"
| "read_many r (Suc n) s = do {
     (x, s1) \<leftarrow> r s;
     (xs, s2) \<leftarrow> read_many r n s1;
     Some (x # xs, s2)
   }"

definition read_list :: "(string \<Rightarrow> ('a \<times> string) option) \<Rightarrow> string \<Rightarrow> ('a list \<times> string) option" where
  "read_list r s = do {
     (cnt, s1) \<leftarrow> read_int s;
     require (0 \<le> cnt);
     read_many r (nat cnt) s1
   }"

section \<open>LoadInstrumentedFun\<close>

lemma dropWhile_length_le: "length (dropWhile P xs) \<le> length xs"
  by (induction xs) auto

lemma read_word_shorter: "read_word s = Some (w, s') \<Longrightarrow> length s' < length s"
proof -
  assume a: "read_word s = Some (w, s')"
  then have w: "takeWhile (\<lambda>c. \<not> isspace c) (skip_ws s) \<noteq> []"
    and s': "s' = dropWhile (\<lambda>c. \<not> isspace c) (skip_ws s)"
    by (auto simp: read_word_def Let_def split: if_splits)
  have "length (takeWhile (\<lambda>c. \<not> isspace c) (skip_ws s)) + length s' = length (skip_ws s)"
    unfolding s' by (metis length_append takeWhile_dropWhile_id)
  moreover have "length (skip_ws s) \<le> length s"
    by (simp add: skip_ws_def dropWhile_length_le)
  moreover have "0 < length (takeWhile (\<lambda>c. \<not> isspace c) (skip_ws s))"
    using w by simp
  ultimately show ?thesis by linarith
qed

function LoadInstrumentedFun :: "string \<Rightarrow> string set \<Rightarrow> string set" where
  "LoadInstrumentedFun s instrumented =
     (case read_word s of
        None \<Rightarrow> instrumented
      | Some (name, s') \<Rightarrow> LoadInstrumentedFun s' (insert name instrumented))"
  by pat_completeness auto

termination LoadInstrumentedFun
  by (relation "measure (\<lambda>(s, _). length s)") (auto dest: read_word_shorter)

section \<open>LoadInstInfo\<close>

definition dep_of_name :: "string \<Rightarrow> dep_type" where
  "dep_of_name tmp =
     (if tmp = ''Inst'' then Inst else if tmp = ''PointerArg'' then PointerArg
      else if tmp = ''Arg'' then Arg else Constant)"

definition type_of_name :: "string \<Rightarrow> inst_type" where
  "type_of_name tmp =
     (if tmp = ''Inst'' then NormalInst else if tmp = ''LoadInst'' then LoadInst
      else if tmp = ''StoreInst'' then StoreInst else if tmp = ''CallInst'' then CallInst
      else if tmp = ''ExternalCallInst'' then ExternalCallInst
      else if tmp = ''ReturnInst'' then ReturnInst
      else if tmp = ''TerminatorInst'' then TerminatorInst
      else if tmp = ''PhiNode'' then PhiNode else if tmp = ''AtomicInst'' then AtomicInst
      else if tmp = ''AllocaInst'' then AllocaInst else VarArg)"

definition read_dep :: "string \<Rightarrow> ((dep_type \<times> u32) \<times> string) option" where
  "read_dep s = do {
     (tmp, s1) \<leftarrow> read_word s;
     (x, s2) \<leftarrow> read_int s1;
     Some ((dep_of_name tmp, word_of_int x), s2)
   }"

definition read_phi :: "string \<Rightarrow> ((u32 \<times> dep_type \<times> u32) \<times> string) option" where
  "read_phi s = do {
     (a, s1) \<leftarrow> read_int s;
     (tmp, s2) \<leftarrow> read_word s1;
     (b, s3) \<leftarrow> read_int s2;
     Some ((word_of_int a, dep_of_name tmp, word_of_int b), s3)
   }"

definition read_succ :: "string \<Rightarrow> (u32 \<times> string) option" where
  "read_succ s = do {
     (x, s1) \<leftarrow> read_int s;
     Some (word_of_int x, s1)
   }"

text \<open>A field in base64, or \<open>[UNKNOWN]\<close>.\<close>

definition chars_of :: "u8 list \<Rightarrow> string" where
  "chars_of bs = map (\<lambda>b. char_of (unat b)) bs"

definition decode_field :: "string \<Rightarrow> string" where
  "decode_field w = (if w \<noteq> ''[UNKNOWN]'' then chars_of (base64_decode w) else w)"

text \<open>What follows the type of an instruction.\<close>

definition read_tail :: "inst_type \<Rightarrow> string \<Rightarrow> ((string \<times> u32 list \<times> (u32 \<times> dep_type \<times> u32) list) \<times> string) option" where
  "read_tail t s =
     (if t = CallInst \<or> t = ExternalCallInst then do {
        (f, s1) \<leftarrow> read_word s;
        Some ((f, [], []), s1)
      }
      else if t = TerminatorInst \<or> t = ReturnInst then do {
        (succs, s1) \<leftarrow> read_list read_succ s;
        Some (('''', succs, []), s1)
      }
      else if t = PhiNode then do {
        (phis, s1) \<leftarrow> read_list read_phi s;
        Some (('''', [], phis), s1)
      }
      else Some (('''', [], []), s))"

definition read_record :: "int \<Rightarrow> string \<Rightarrow> (inst_info \<times> string) option" where
  "read_record x s = do {
     (bb, s1) \<leftarrow> read_u32 s;
     (ptr, s2) \<leftarrow> read_bool s1;
     (loc, s3) \<leftarrow> read_int s2;
     (fl, s4) \<leftarrow> read_word s3;
     (code, s5) \<leftarrow> read_word s4;
     (deps, s6) \<leftarrow> read_list read_dep s5;
     (tmp, s7) \<leftarrow> read_word s6;
     ((f, succs, phis), s8) \<leftarrow> read_tail (type_of_name tmp) s7;
     Some (\<lparr>ii_ID = word_of_int x, ii_BB = bb, IsPointer = ptr, LoC = loc, File = decode_field fl,
            ii_Code = decode_field code, SSADependencies = deps, ii_Type = type_of_name tmp,
            ii_Fun = f, Successors = succs, PhiDependencies = phis\<rparr>, s8)
   }"

text \<open>\<open>bb2ins\<close> grows to hold the block.\<close>

definition add_to_bb :: "u32 \<Rightarrow> u32 \<Rightarrow> u32 list list \<Rightarrow> u32 list list" where
  "add_to_bb bb i tab =
     (let tab1 = (if length tab \<le> unat bb then tab @ replicate (unat bb + 1 - length tab) [] else tab)
      in tab1[unat bb := tab1 ! unat bb @ [i]])"

lemma read_number_shorter: "read_number s = Some (v, s') \<Longrightarrow> length s' < length s"
proof -
  assume a: "read_number s = Some (v, s')"
  obtain u where u: "takeWhile is_digit u \<noteq> []" "s' = dropWhile is_digit u" "length u \<le> length (skip_ws s)"
    using a by (auto simp: read_number_def Let_def split: if_splits)
  have "length (takeWhile is_digit u) + length s' = length u"
    unfolding u(2) by (metis length_append takeWhile_dropWhile_id)
  moreover have "length (skip_ws s) \<le> length s"
    by (simp add: skip_ws_def dropWhile_length_le)
  moreover have "0 < length (takeWhile is_digit u)" using u(1) by simp
  ultimately show ?thesis using u(3) by linarith
qed

lemma shorter:
  "read_int s = Some (v, s') \<Longrightarrow> length s' < length s"
  "read_u32 s = Some (w, s') \<Longrightarrow> length s' < length s"
  "read_bool s = Some (b, s') \<Longrightarrow> length s' < length s"
  by (auto simp: read_int_def read_u32_def read_bool_def Let_def elim!: bind_SomeE dest: read_number_shorter)

lemma read_many_le:
  assumes "\<And>s x s'. r s = Some (x, s') \<Longrightarrow> length s' \<le> length s" "read_many r n s = Some (xs, s')"
  shows "length s' \<le> length s"
  using assms(2)
proof (induction n arbitrary: s xs)
  case (Suc n)
  then show ?case using assms(1) by (fastforce elim!: bind_SomeE intro: order_trans)
qed simp

lemma read_list_le:
  assumes "\<And>s x s'. r s = Some (x, s') \<Longrightarrow> length s' \<le> length s" "read_list r s = Some (xs, s')"
  shows "length s' \<le> length s"
  using assms(2) read_many_le [OF assms(1)] shorter(1)
  by (fastforce simp: read_list_def elim!: bind_SomeE)

lemma read_record_le: "read_record x s = Some (ins, s') \<Longrightarrow> length s' \<le> length s"
proof -
  assume "read_record x s = Some (ins, s')"
  then obtain bb ptr loc fl code deps tmp y s1 s2 s3 s4 s5 s6 s7 where r:
    "read_u32 s = Some (bb, s1)" "read_bool s1 = Some (ptr, s2)" "read_int s2 = Some (loc, s3)"
    "read_word s3 = Some (fl, s4)" "read_word s4 = Some (code, s5)" "read_list read_dep s5 = Some (deps, s6)"
    "read_word s6 = Some (tmp, s7)" "read_tail (type_of_name tmp) s7 = Some (y, s')"
    by (auto simp: read_record_def elim!: bind_SomeE)
  have "length s6 \<le> length s5"
    by (rule read_list_le [OF _ r(6)])
      (auto simp: read_dep_def elim!: bind_SomeE dest!: read_word_shorter shorter)
  moreover have "length s' \<le> length s7"
  proof -
    have "read_list read_succ t = Some (xs, t') \<Longrightarrow> length t' \<le> length t" for t xs t'
      by (erule read_list_le [rotated]) (auto simp: read_succ_def elim!: bind_SomeE dest!: shorter)
    moreover have "read_list read_phi t = Some (xs, t') \<Longrightarrow> length t' \<le> length t" for t xs t'
      by (erule read_list_le [rotated])
        (auto simp: read_phi_def elim!: bind_SomeE dest!: read_word_shorter shorter)
    ultimately show ?thesis
      using r(8) read_word_shorter by (fastforce simp: read_tail_def elim!: bind_SomeE split: if_splits)
  qed
  ultimately show ?thesis
    using r(1-5,7) by (auto dest!: read_word_shorter shorter)
qed

function load_insts ::
  "string \<Rightarrow> inst_info list \<Rightarrow> u32 list list \<Rightarrow> (inst_info list \<times> u32 list list) option" where
  "load_insts s info bb2ins =
     (case read_int s of
        None \<Rightarrow> Some (info, bb2ins)
      | Some (x, s1) \<Rightarrow>
          (case read_record x s1 of
             None \<Rightarrow> None
           | Some (ins, s2) \<Rightarrow>
               if unat (ii_ID ins) = length info
               then load_insts s2 (info @ [ins]) (add_to_bb (ii_BB ins) (ii_ID ins) bb2ins)
               else None))"
  by pat_completeness auto

termination load_insts
  by (relation "measure (\<lambda>(s, _, _). length s)")
    (auto dest!: shorter(1) read_record_le intro: le_less_trans)

declare load_insts.simps [simp del] LoadInstrumentedFun.simps [simp del]

definition LoadInstInfo :: "string \<Rightarrow> code_info option" where
  "LoadInstInfo contents =
     map_option (\<lambda>(info, bb2ins). \<lparr>Ins = info, BB2Ins = bb2ins\<rparr>) (load_insts contents [] [])"

section \<open>The interface of a field\<close>

text \<open>
  What the reader of a field and the text a writer gives it agree on: white space before it is
  skipped, and followed by white space the text reads as the value and nothing more is consumed.
\<close>

locale field =
  fixes reads :: "string \<Rightarrow> ('a \<times> string) option"
    and text_of :: "'a \<Rightarrow> string"
    and fits :: "'a \<Rightarrow> bool"
  assumes skips: "isspace c \<Longrightarrow> reads (c # s) = reads s"
    and reads_text: "fits x \<Longrightarrow> isspace c \<Longrightarrow> reads (text_of x @ c # rest) = Some (x, c # rest)"
begin

text \<open>A counted sequence, every item followed by a blank.\<close>

lemma reads_many:
  "list_all fits xs \<Longrightarrow> isspace c \<Longrightarrow>
   read_many reads (length xs) (c # concat (map (\<lambda>x. text_of x @ '' '') xs) @ rest)
     = Some (xs, if xs = [] then c # rest else CHR '' '' # rest)"
proof (induction xs arbitrary: c)
  case (Cons x xs)
  have sp: "isspace CHR '' ''" by (simp add: isspace_def)
  have "reads (c # concat (map (\<lambda>x. text_of x @ '' '') (x # xs)) @ rest)
      = Some (x, CHR '' '' # concat (map (\<lambda>x. text_of x @ '' '') xs) @ rest)"
    using skips [OF Cons.prems(2)] reads_text [OF _ sp, of x "concat (map (\<lambda>x. text_of x @ '' '') xs) @ rest"]
      Cons.prems(1) by simp
  with Cons.IH [OF _ sp] Cons.prems(1) show ?case by simp
qed simp

end

lemma isspace_simps [simp]:
  "isspace CHR '' ''" "isspace CHR 0x09" "isspace CHR 0x0A"
  by (simp_all add: isspace_def)

lemma skip_ws_simps: "isspace c \<Longrightarrow> skip_ws (c # s) = skip_ws s" "\<not> isspace c \<Longrightarrow> skip_ws (c # s) = c # s"
  by (simp_all add: skip_ws_def)

text \<open>Words: nonempty, without white space.\<close>

definition word_ok :: "string \<Rightarrow> bool" where
  "word_ok w \<longleftrightarrow> w \<noteq> [] \<and> list_all (\<lambda>c. \<not> isspace c) w"

lemma read_word_text:
  assumes "word_ok w" "isspace c"
  shows "read_word (w @ c # rest) = Some (w, c # rest)"
proof -
  have "skip_ws (w @ c # rest) = w @ c # rest"
    using assms(1) by (cases w) (auto simp: word_ok_def skip_ws_def)
  moreover have "takeWhile (\<lambda>c. \<not> isspace c) (w @ c # rest) = w"
    "dropWhile (\<lambda>c. \<not> isspace c) (w @ c # rest) = c # rest"
    using assms by (auto simp: word_ok_def list_all_iff takeWhile_append2 dropWhile_append2)
  ultimately show ?thesis
    using assms(1) by (simp add: read_word_def word_ok_def)
qed

lemma read_word_skip: "isspace c \<Longrightarrow> read_word (c # s) = read_word s"
  by (simp add: read_word_def skip_ws_simps Let_def)

interpretation words: field read_word "\<lambda>w. w" word_ok
  by unfold_locales (simp_all add: read_word_skip read_word_text)

text \<open>Numbers, in decimal.\<close>

fun decimal :: "nat \<Rightarrow> string" where
  "decimal n = (if n < 10 then [char_of (48 + n)] else decimal (n div 10) @ [char_of (48 + n mod 10)])"

declare decimal.simps [simp del]

lemma digit_char: "d < 10 \<Longrightarrow> is_digit (char_of (48 + d)) \<and> digit_value (char_of (48 + d)) = d"
  by (simp add: is_digit_def digit_value_def)

lemma decimal_digits: "list_all is_digit (decimal n) \<and> decimal n \<noteq> []"
proof (induction n rule: decimal.induct)
  case (1 n)
  then show ?case
    using digit_char [of n] digit_char [of "n mod 10"] by (simp add: decimal.simps [of n])
qed

lemma number_of_decimal: "number_of (decimal n) = n"
proof (induction n rule: decimal.induct)
  case (1 n)
  then show ?case
    using digit_char [of n] digit_char [of "n mod 10"] by (simp add: decimal.simps [of n] number_of_def)
qed

lemma digit_not_sign: "is_digit c \<Longrightarrow> \<not> isspace c \<and> c \<noteq> CHR ''-'' \<and> c \<noteq> CHR ''+''"
  by (auto simp: is_digit_def isspace_def)

lemma space_not_digit: "isspace c \<Longrightarrow> \<not> is_digit c"
  by (auto simp: is_digit_def isspace_def)

lemma digits_then_space:
  assumes "list_all is_digit ds" "isspace c"
  shows "takeWhile is_digit (ds @ c # rest) = ds" "dropWhile is_digit (ds @ c # rest) = c # rest"
  using assms space_not_digit [OF assms(2)] by (simp_all add: list_all_iff takeWhile_append2 dropWhile_append2)

lemma read_number_decimal:
  assumes "isspace c"
  shows "read_number (decimal n @ c # rest) = Some ((False, n), c # rest)"
    and "read_number (CHR ''-'' # decimal n @ c # rest) = Some ((True, n), c # rest)"
proof -
  obtain d ds where d: "decimal n = d # ds" "is_digit d"
    using decimal_digits [of n] by (cases "decimal n") auto
  have sk: "skip_ws (decimal n @ c # rest) = decimal n @ c # rest"
    using d digit_not_sign by (simp add: skip_ws_simps)
  note tw = digits_then_space [OF conjunct1 [OF decimal_digits [of n]] assms, of rest]
  show "read_number (decimal n @ c # rest) = Some ((False, n), c # rest)"
    using tw d(1) digit_not_sign [OF d(2)] sk number_of_decimal [of n] decimal_digits [of n]
    by (simp add: read_number_def)
  show "read_number (CHR ''-'' # decimal n @ c # rest) = Some ((True, n), c # rest)"
    using tw number_of_decimal [of n] decimal_digits [of n]
    by (simp add: read_number_def skip_ws_simps isspace_def)
qed

definition int_text :: "int \<Rightarrow> string" where
  "int_text i = (if i < 0 then CHR ''-'' # decimal (nat (- i)) else decimal (nat i))"

lemma read_skips: "isspace c \<Longrightarrow> read_number (c # s) = read_number s"
  by (simp add: read_number_def skip_ws_simps)

interpretation ints: field read_int int_text "\<lambda>i. - (2 ^ 31) \<le> i \<and> i < 2 ^ 31"
  by unfold_locales (auto simp: read_int_def read_skips int_text_def read_number_decimal require_def)

text \<open>A counted list, as the pass writes it.\<close>

context field begin

lemma reads_list:
  assumes "list_all fits xs" "length xs < 2 ^ 31"
  shows "read_list reads (decimal (length xs) @ CHR '' '' # concat (map (\<lambda>x. text_of x @ '' '') xs) @ rest)
    = Some (xs, CHR '' '' # rest)"
proof -
  have "read_int (decimal (length xs) @ CHR '' '' # t) = Some (int (length xs), CHR '' '' # t)" for t
    using ints.reads_text [of "int (length xs)" "CHR '' ''" t] assms(2) by (simp add: int_text_def)
  then show ?thesis
    using reads_many [OF assms(1), of "CHR '' ''" rest] by (simp add: read_list_def require_def)
qed

end

lemma read_list_skip: "isspace c \<Longrightarrow> read_list r (c # s) = read_list r s"
  by (simp add: read_list_def ints.skips)

definition u32_text :: "u32 \<Rightarrow> string" where
  "u32_text w = decimal (unat w)"

lemma unat_less_32: "unat (w :: u32) < 2 ^ 32"
  using unsigned_less [of w] by simp

interpretation u32s: field read_u32 u32_text "\<lambda>_. True"
  using unat_less_32 by unfold_locales (auto simp: read_u32_def read_skips u32_text_def read_number_decimal require_def)

lemma char_digits: "char_of (48 :: nat) = CHR ''0''" "char_of (49 :: nat) = CHR ''1''"
  by (simp_all add: char_of_def bit_Suc_0_iff)

definition bool_text :: "bool \<Rightarrow> string" where
  "bool_text b = (if b then ''1'' else ''0'')"

interpretation bools: field read_bool bool_text "\<lambda>_. True"
proof
  show "isspace c \<Longrightarrow> read_bool (c # s) = read_bool s" for c s
    by (simp add: read_bool_def ints.skips)
  show "isspace c \<Longrightarrow> read_bool (bool_text x @ c # rest) = Some (x, c # rest)" for x c rest
    using ints.reads_text [of "if x then 1 else 0" c rest]
    by (cases x) (simp_all add: read_bool_def bool_text_def int_text_def decimal.simps require_def char_digits)
qed

text \<open>Numbers that are also read as \<open>int\<close>, and the pairs and triples of the two lists.\<close>

definition small :: "u32 \<Rightarrow> bool" where
  "small w \<longleftrightarrow> unat w < 2 ^ 31"

lemma read_int_u32:
  assumes "small w" "isspace c"
  shows "read_int (u32_text w @ c # rest) = Some (uint w, c # rest)"
proof -
  have w: "uint w = int (unat w)" by simp
  have "int (unat w) < int (2 ^ 31)"
    using assms(1) by (simp only: of_nat_less_iff small_def)
  then have "uint w < 2 ^ 31" by simp
  moreover have "- 2147483648 \<le> uint w"
    using unsigned_greater_eq [of w, where ?'a = int] by linarith
  ultimately show ?thesis
    using assms(2) ints.reads_text [of "int (unat w)" c rest]
    unfolding w by (simp add: int_text_def u32_text_def)
qed

interpretation succs: field read_succ u32_text small
  by unfold_locales (simp_all add: read_succ_def ints.skips read_int_u32)

definition dep_name :: "dep_type \<Rightarrow> string" where
  "dep_name t = (case t of Inst \<Rightarrow> ''Inst'' | PointerArg \<Rightarrow> ''PointerArg'' | Arg \<Rightarrow> ''Arg'' | Constant \<Rightarrow> ''Constan'')"

definition dep_text :: "dep_type \<times> u32 \<Rightarrow> string" where
  "dep_text d = dep_name (fst d) @ '' '' @ u32_text (snd d)"

lemma dep_name_ok: "word_ok (dep_name t)" "dep_of_name (dep_name t) = t"
  by (cases t; simp add: word_ok_def dep_name_def dep_of_name_def isspace_def)+

interpretation deps: field read_dep dep_text "\<lambda>d. small (snd d)"
proof
  show "isspace c \<Longrightarrow> read_dep (c # s) = read_dep s" for c s
    by (simp add: read_dep_def words.skips)
  show "read_dep (dep_text x @ c # rest) = Some (x, c # rest)" if "small (snd x)" "isspace c" for x c rest
    using that words.reads_text [OF dep_name_ok(1), of "CHR '' ''" "fst x" "u32_text (snd x) @ c # rest"]
    by (simp add: read_dep_def dep_text_def ints.skips read_int_u32 dep_name_ok(2))
qed

section \<open>The edges of the basic block graph\<close>

text \<open>
  The loop \<open>while (fscanf(f, "%d%d", &a, &b) != EOF)\<close> of \<open>PreparePostDominator\<close>: it ends at the end of
  the file; where a number is expected and something else stands it would repeat for ever.
\<close>

function read_edges :: "string \<Rightarrow> (u32 \<times> u32) list option" where
  "read_edges s =
     (if skip_ws s = [] then Some []
      else case read_int s of
        None \<Rightarrow> None
      | Some (a, s1) \<Rightarrow>
          (case read_int s1 of
             None \<Rightarrow> None
           | Some (b, s2) \<Rightarrow> map_option (\<lambda>es. (word_of_int a, word_of_int b) # es) (read_edges s2)))"
  by pat_completeness auto

termination read_edges
  by (relation "measure length") (auto dest!: shorter(1))

declare read_edges.simps [simp del]

definition edge_text :: "u32 \<times> u32 \<Rightarrow> string" where
  "edge_text e = u32_text (fst e) @ '' '' @ u32_text (snd e) @ [CHR 0x0A]"

lemma decimal_not_ws: "skip_ws (u32_text w @ s) \<noteq> []"
  using decimal_digits [of "unat w"] digit_not_sign
  by (cases "decimal (unat w)") (auto simp: u32_text_def skip_ws_simps)

lemma skip_nl: "read_edges (CHR 0x0A # s) = read_edges s"
  by (subst (1 2) read_edges.simps) (simp add: skip_ws_simps ints.skips)

lemma read_edges_text:
  "list_all (\<lambda>e. small (fst e) \<and> small (snd e)) es \<Longrightarrow> read_edges (concat (map edge_text es)) = Some es"
proof (induction es)
  case Nil
  then show ?case by (simp add: read_edges.simps skip_ws_def)
next
  case (Cons e es)
  have "read_edges (concat (map edge_text (e # es)))
      = map_option (\<lambda>es'. e # es') (read_edges (CHR 0x0A # concat (map edge_text es)))"
    using Cons.prems decimal_not_ws [of "fst e"]
    by (subst read_edges.simps) (simp add: edge_text_def read_int_u32 ints.skips)
  with Cons show ?case by (simp add: skip_nl)
qed

section \<open>The names of the instrumented functions\<close>

lemma load_names_text:
  "list_all word_ok names \<Longrightarrow> LoadInstrumentedFun (concat (map (\<lambda>n. n @ [CHR 0x0A]) names)) S = S \<union> set names"
proof (induction names arbitrary: S)
  case Nil
  then show ?case by (simp add: LoadInstrumentedFun.simps read_word_def skip_ws_def)
next
  case (Cons n names)
  have nl: "LoadInstrumentedFun (CHR 0x0A # s) T = LoadInstrumentedFun s T" for s T
    by (subst (1 2) LoadInstrumentedFun.simps) (simp add: words.skips)
  show ?case
    using Cons by (subst LoadInstrumentedFun.simps) (simp add: words.reads_text nl)
qed

end
