(* ===== verification/TracePass.thy ===== *)
theory TracePass
  imports InstFile TraceFormat
begin

text \<open>
  The \<open>SlimmerTrace\<close> pass (\<open>lib/SlimmerTrace/SlimmerTrace.cpp\<close>, with \<open>IsSlimmerFunction\<close> of
  \<open>lib/SlimmerUtil/llvm.cpp\<close>): it numbers the basic blocks and the instructions it traces, writes the
  three files the tools read, and inserts the calls of the \<open>record...\<close> functions. The module is what
  the pass asks LLVM for: functions, blocks, instructions with their operands; an object of LLVM is
  known by a number, its address. Types, casts and constants it builds for LLVM are left out.
\<close>

section \<open>The module as the pass sees it\<close>

datatype operand = OpInst nat | OpArg nat bool | OpOther

text \<open>
  The instruction classes the pass tells apart, with what it asks of them: the stored size of the
  type read or written (for atomics, of operand 0), whether a stored value is a single value and no
  vector, whether a value is returned, the incoming blocks and values, the called function, if known,
  and which arguments are pointers. An \<open>invoke\<close> is a terminator.
\<close>

datatype opcode =
    LoadOp nat
  | StoreOp nat bool
  | AtomicRMWOp nat
  | AtomicCmpXchgOp nat
  | ReturnOp bool
  | TerminatorOp
  | PhiOp "(nat \<times> operand) list"
  | CallOp "string option" "bool list"
  | AllocaOp nat
  | OtherOp

record ll_inst =
  li_handle :: nat
  li_parent :: nat
  li_op :: opcode
  li_pointer :: bool
  li_dbg :: "(u32 \<times> string \<times> string) option" \<comment> \<open>line, file name, directory\<close>
  li_operands :: "operand list"
  li_targets :: "nat list" \<comment> \<open>successors of a terminator\<close>

record ll_fun =
  lf_name :: string
  isDeclaration :: bool
  lf_blocks :: "(nat \<times> ll_inst list) list"

record ll_module =
  lm_functions :: "ll_fun list"
  lm_globals :: "(string \<times> nat) list" \<comment> \<open>as printed, and the size\<close>

text \<open>\<open>Function::isIntrinsic\<close>\<close>

definition isIntrinsic :: "string \<Rightarrow> bool" where
  "isIntrinsic name \<longleftrightarrow> take 5 name = ''llvm.''"

section \<open>What is traced\<close>

definition IsSlimmerFunction :: "string \<Rightarrow> bool" where
  "IsSlimmerFunction name \<longleftrightarrow>
     name = ''slimmerCtor'' \<or> name = ''recordEndBB'' \<or> name = ''recordStartBB'' \<or> name = ''recordLoad''
     \<or> name = ''recordStore'' \<or> name = ''recordLock'' \<or> name = ''recordUnlock'' \<or> name = ''recordCall''
     \<or> name = ''recordReturn'' \<or> name = ''recordInit''"

definition notTraced :: "ll_inst \<Rightarrow> bool" where
  "notTraced ins =
     (case li_op ins of
        CallOp (Some fun_name) _ \<Rightarrow>
          isIntrinsic fun_name \<and> take 12 fun_name \<noteq> ''llvm.memset.'' \<and> take 12 fun_name \<noteq> ''llvm.memcpy.''
          \<and> take 13 fun_name \<noteq> ''llvm.memmove.''
      | _ \<Rightarrow> False)"

definition has_main :: "ll_module \<Rightarrow> bool" where
  "has_main M \<longleftrightarrow> list_ex (\<lambda>f. \<not> isDeclaration f \<and> lf_name f = ''main'') (lm_functions M)"

definition traced_funs :: "ll_module \<Rightarrow> ll_fun list" where
  "traced_funs M = filter (\<lambda>f. \<not> (isDeclaration f \<or> IsSlimmerFunction (lf_name f))) (lm_functions M)"

definition traced_blocks :: "ll_module \<Rightarrow> (nat \<times> ll_inst list) list" where
  "traced_blocks M = concat (map lf_blocks (traced_funs M))"

definition ins_list :: "ll_module \<Rightarrow> ll_inst list" where
  "ins_list M = concat (map (\<lambda>(_, is). filter (\<lambda>i. \<not> notTraced i) is) (traced_blocks M))"

text \<open>\<open>bb2ID[bb_ptr] = bb_id++\<close>\<close>

fun number :: "nat list \<Rightarrow> u32 \<Rightarrow> (nat \<Rightarrow> u32 option) \<Rightarrow> nat \<Rightarrow> u32 option" where
  "number [] k m = m"
| "number (h # hs) k m = number hs (k + 1) (m(h \<mapsto> k))"

definition bb2ID :: "ll_module \<Rightarrow> nat \<Rightarrow> u32 option" where
  "bb2ID M = number (map fst (traced_blocks M)) 0 Map.empty"

definition ins2ID :: "ll_module \<Rightarrow> nat \<Rightarrow> u32 option" where
  "ins2ID M = number (map li_handle (ins_list M)) 0 Map.empty"

definition instrumentedFun :: "ll_module \<Rightarrow> string list" where
  "instrumentedFun M = map lf_name (traced_funs M)"

section \<open>The Inst file\<close>

abbreviation nl :: string where "nl \<equiv> [CHR 0x0A]"
abbreviation tab :: string where "tab \<equiv> [CHR 0x09]"

definition bytes_of_string :: "string \<Rightarrow> u8 list" where
  "bytes_of_string s = map of_char s"

definition full_path :: "string \<Rightarrow> string \<Rightarrow> string" where
  "full_path path directory = (if take 1 path \<noteq> ''/'' then directory @ ''/'' @ path else path)"

definition location_text :: "ll_inst \<Rightarrow> string" where
  "location_text ins =
     (case li_dbg ins of
        Some (line, path, directory) \<Rightarrow>
          tab @ u32_text line @ nl @ tab @ base64_encode (bytes_of_string (full_path path directory)) @ nl
      | None \<Rightarrow> tab @ ''-1'' @ nl @ tab @ ''[UNKNOWN]'' @ nl)"

definition code_text :: "ll_inst \<Rightarrow> string" where
  "code_text ins =
     (case li_op ins of
        ReturnOp False \<Rightarrow> ''cmV0IHZvaWQK''
      | _ \<Rightarrow> ''[UNKNOWN]'')"

text \<open>Operands that are untraced instructions are left out.\<close>

definition operand_dep :: "(nat \<Rightarrow> u32 option) \<Rightarrow> operand \<Rightarrow> (dep_type \<times> u32) option" where
  "operand_dep ids opd =
     (case opd of
        OpInst h \<Rightarrow> map_option (\<lambda>i. (Inst, i)) (ids h)
      | OpArg n ptr \<Rightarrow> Some (if ptr then PointerArg else Arg, of_nat n)
      | OpOther \<Rightarrow> Some (Constant, 0))"

definition ssa_deps :: "(nat \<Rightarrow> u32 option) \<Rightarrow> ll_inst \<Rightarrow> (dep_type \<times> u32) list" where
  "ssa_deps ids ins = List.map_filter (operand_dep ids) (li_operands ins)"

definition deps_text :: "(dep_type \<times> u32) list \<Rightarrow> string" where
  "deps_text ds = tab @ decimal (length ds) @ '' '' @ concat (map (\<lambda>d. dep_text d @ '' '') ds) @ nl"

definition CommonInfo :: "ll_module \<Rightarrow> ll_inst \<Rightarrow> string option" where
  "CommonInfo M ins = do {
     i \<leftarrow> ins2ID M (li_handle ins);
     b \<leftarrow> bb2ID M (li_parent ins);
     Some (u32_text i @ nl @ tab @ u32_text b @ nl @ tab @ bool_text (li_pointer ins) @ nl
       @ location_text ins @ tab @ code_text ins @ nl @ deps_text (ssa_deps (ins2ID M) ins))
   }"

text \<open>Phi values: a pointer argument is written like any other, a constant by its full name.\<close>

definition phi_value :: "(nat \<Rightarrow> u32 option) \<Rightarrow> operand \<Rightarrow> (dep_type \<times> u32) option" where
  "phi_value ids opd =
     (case opd of
        OpInst h \<Rightarrow> map_option (\<lambda>i. (Inst, i)) (ids h)
      | OpArg n _ \<Rightarrow> Some (Arg, of_nat n)
      | OpOther \<Rightarrow> Some (Constant, 0))"

definition phi_name :: "dep_type \<Rightarrow> string" where
  "phi_name t = (case t of Inst \<Rightarrow> ''Inst'' | Arg \<Rightarrow> ''Arg'' | PointerArg \<Rightarrow> ''PointerArg'' | Constant \<Rightarrow> ''Constant'')"

definition phi_text :: "u32 \<times> dep_type \<times> u32 \<Rightarrow> string" where
  "phi_text x = (case x of (b, t, v) \<Rightarrow> '' '' @ u32_text b @ '' '' @ phi_name t @ '' '' @ u32_text v)"

fun all_some :: "'a option list \<Rightarrow> 'a list option" where
  "all_some [] = Some []"
| "all_some (x # xs) = do { y \<leftarrow> x; ys \<leftarrow> all_some xs; Some (y # ys) }"

definition successor_ids :: "ll_module \<Rightarrow> ll_inst \<Rightarrow> u32 list option" where
  "successor_ids M ins = all_some (map (bb2ID M) (li_targets ins))"

definition phi_entries :: "ll_module \<Rightarrow> (nat \<times> operand) list \<Rightarrow> (u32 \<times> dep_type \<times> u32) list option" where
  "phi_entries M incoming = all_some (map (\<lambda>(bb, v). do {
     b \<leftarrow> bb2ID M bb;
     (t, i) \<leftarrow> phi_value (ins2ID M) v;
     Some (b, t, i)
   }) incoming)"

definition terminator_text :: "string \<Rightarrow> u32 list \<Rightarrow> string" where
  "terminator_text kind succ_ids =
     tab @ kind @ nl @ tab @ decimal (length succ_ids) @ '' '' @ concat (map (\<lambda>s. u32_text s @ '' '') succ_ids) @ nl"

definition is_malloc :: "string \<Rightarrow> bool" where
  "is_malloc fun_name \<longleftrightarrow> fun_name = ''fmalloc'' \<or> fun_name = ''xmalloc'' \<or> fun_name = ''malloc''
     \<or> fun_name = ''_Znam'' \<or> fun_name = ''_Znwm''"

definition is_calloc :: "string \<Rightarrow> bool" where
  "is_calloc fun_name \<longleftrightarrow> fun_name = ''calloc'' \<or> fun_name = ''fcalloc'' \<or> fun_name = ''xcalloc''"

definition call_text :: "ll_module \<Rightarrow> string option \<Rightarrow> string" where
  "call_text M called =
     (case called of
        None \<Rightarrow> tab @ ''CallInst'' @ nl @ tab @ ''[UNKNOWN]'' @ nl
      | Some f \<Rightarrow>
          if isIntrinsic f then tab @ ''CallInst'' @ nl @ tab @ f @ nl
          else if is_malloc f \<or> is_calloc f then tab @ ''AllocaInst'' @ nl
          else if f \<notin> set (instrumentedFun M) then tab @ ''ExternalCallInst'' @ nl @ tab @ f @ nl
          else tab @ ''CallInst'' @ nl @ tab @ f @ nl)"

definition type_text :: "ll_module \<Rightarrow> ll_inst \<Rightarrow> string option" where
  "type_text M ins =
     (case li_op ins of
        LoadOp _ \<Rightarrow> Some (tab @ ''LoadInst'' @ nl)
      | StoreOp _ _ \<Rightarrow> Some (tab @ ''StoreInst'' @ nl)
      | AtomicRMWOp _ \<Rightarrow> Some (tab @ ''AtomicInst'' @ nl)
      | AtomicCmpXchgOp _ \<Rightarrow> Some (tab @ ''AtomicInst'' @ nl)
      | ReturnOp _ \<Rightarrow> map_option (terminator_text ''ReturnInst'') (successor_ids M ins)
      | TerminatorOp \<Rightarrow> map_option (terminator_text ''TerminatorInst'') (successor_ids M ins)
      | PhiOp incoming \<Rightarrow> do {
          ps \<leftarrow> phi_entries M incoming;
          Some (tab @ ''PhiNode'' @ nl @ tab @ decimal (length ps) @ '' ''
            @ concat (map (\<lambda>p. phi_text p @ '' '') ps) @ nl)
        }
      | CallOp called _ \<Rightarrow> Some (call_text M called)
      | AllocaOp _ \<Rightarrow> Some (tab @ ''AllocaInst'' @ nl)
      | OtherOp \<Rightarrow> Some (tab @ ''NormalInst'' @ nl))"

definition inst_text :: "ll_module \<Rightarrow> ll_inst \<Rightarrow> string option" where
  "inst_text M ins = do {
     a \<leftarrow> CommonInfo M ins;
     b \<leftarrow> type_text M ins;
     Some (a @ b)
   }"

definition fInst :: "ll_module \<Rightarrow> string option" where
  "fInst M = map_option concat (all_some (map (inst_text M) (ins_list M)))"

section \<open>The other two files\<close>

definition fInstrumentedFun :: "ll_module \<Rightarrow> string" where
  "fInstrumentedFun M = concat (map (\<lambda>n. n @ nl) (instrumentedFun M))"

definition inst_edges :: "ll_module \<Rightarrow> ll_inst \<Rightarrow> (u32 \<times> u32) list option" where
  "inst_edges M ins =
     (case li_op ins of
        ReturnOp _ \<Rightarrow> all_some (map (\<lambda>s. do { a \<leftarrow> bb2ID M (li_parent ins); b \<leftarrow> bb2ID M s; Some (a, b) }) (li_targets ins))
      | TerminatorOp \<Rightarrow> all_some (map (\<lambda>s. do { a \<leftarrow> bb2ID M (li_parent ins); b \<leftarrow> bb2ID M s; Some (a, b) }) (li_targets ins))
      | _ \<Rightarrow> Some [])"

definition bb_graph_edges :: "ll_module \<Rightarrow> (u32 \<times> u32) list option" where
  "bb_graph_edges M = map_option concat (all_some (map (inst_edges M) (ins_list M)))"

definition fBBGraph :: "ll_module \<Rightarrow> string option" where
  "fBBGraph M = map_option (\<lambda>es. concat (map edge_text es)) (bb_graph_edges M)"

section \<open>Casts\<close>

datatype ll_type = IntTy nat | PtrTy | FloatTy | DoubleTy | OtherTy

datatype cast_op = PointerCast | FPCastToDouble | ZExtOrBitCast

text \<open>The casts \<open>LLVMCastTo\<close> builds, as constants or as instructions, from the innermost.\<close>

definition LLVMCastTo :: "ll_type \<Rightarrow> ll_type \<Rightarrow> cast_op list" where
  "LLVMCastTo V_ty Ty =
     (if V_ty = Ty then []
      else if V_ty = PtrTy then [PointerCast]
      else if V_ty = FloatTy then [FPCastToDouble, ZExtOrBitCast]
      else [ZExtOrBitCast])"

text \<open>What they make of a bit pattern; \<open>fpext\<close> is the conversion of a float to a double.\<close>

fun apply_cast :: "(u32 \<Rightarrow> u64) \<Rightarrow> cast_op \<Rightarrow> u64 \<Rightarrow> u64" where
  "apply_cast fpext FPCastToDouble v = fpext (ucast v)"
| "apply_cast fpext PointerCast v = v"
| "apply_cast fpext ZExtOrBitCast v = v"

definition cast_value :: "(u32 \<Rightarrow> u64) \<Rightarrow> ll_type \<Rightarrow> u64 \<Rightarrow> u64" where
  "cast_value fpext V_ty v = fold (apply_cast fpext) (LLVMCastTo V_ty (IntTy 64)) v"

section \<open>The inserted calls\<close>

text \<open>Where a call is inserted, and what it is given.\<close>

datatype place = AtStart | AheadOf | Behind

datatype call_arg =
    Size nat
  | ArgOperand nat
  | PointerOperand
  | ValueOperand
  | Result
  | CalledValue
  | GlobalAddress string

datatype record_call =
    RecordBasicBlock u32
  | RecordMemory u32 call_arg call_arg
  | RecordStore u32 call_arg call_arg call_arg
  | RecordCalloc u32 call_arg call_arg call_arg
  | RecordArgument call_arg
  | RecordReturn u32 call_arg
  | RecordMemset u32 call_arg call_arg call_arg
  | RecordMemmove u32 call_arg call_arg call_arg

type_synonym insertions = "(place \<times> record_call) list"

definition instrumentBasicBlock :: "ll_module \<Rightarrow> nat \<Rightarrow> insertions option" where
  "instrumentBasicBlock M bb = map_option (\<lambda>b. [(AtStart, RecordBasicBlock b)]) (bb2ID M bb)"

definition instrumentLoadInst :: "u32 \<Rightarrow> nat \<Rightarrow> insertions" where
  "instrumentLoadInst load_id sz = [(Behind, RecordMemory load_id PointerOperand (Size sz))]"

definition instrumentStoreInst :: "u32 \<Rightarrow> nat \<Rightarrow> bool \<Rightarrow> insertions" where
  "instrumentStoreInst store_id sz single =
     (if single \<and> sz \<le> 8 then [(AheadOf, RecordStore store_id PointerOperand (Size sz) ValueOperand)]
      else [(Behind, RecordMemory store_id PointerOperand (Size sz))])"

definition instrumentAllocaInst :: "u32 \<Rightarrow> nat \<Rightarrow> insertions" where
  "instrumentAllocaInst alloca_id sz = [(Behind, RecordMemory alloca_id Result (Size sz))]"

text \<open>The allocating functions: the size is the first argument, or the product of two.\<close>

definition instrumentAllocaCall :: "u32 \<Rightarrow> insertions" where
  "instrumentAllocaCall alloca_id = [(Behind, RecordMemory alloca_id Result (ArgOperand 0))]"

definition instrumentAllocaInst2 :: "u32 \<Rightarrow> insertions" where
  "instrumentAllocaInst2 alloca_id = [(Behind, RecordCalloc alloca_id Result (ArgOperand 0) (ArgOperand 1))]"

definition instrumentAtomicRMWInst :: "u32 \<Rightarrow> nat \<Rightarrow> insertions" where
  "instrumentAtomicRMWInst atomic_rmw_id sz = [(Behind, RecordMemory atomic_rmw_id PointerOperand (Size sz))]"

definition instrumentAtomicCmpXchgInst :: "u32 \<Rightarrow> nat \<Rightarrow> insertions" where
  "instrumentAtomicCmpXchgInst atomic_cas_id sz = [(Behind, RecordMemory atomic_cas_id PointerOperand (Size sz))]"

definition instrumentCallInst :: "u32 \<Rightarrow> bool list \<Rightarrow> insertions" where
  "instrumentCallInst call_id ptrs =
     map (\<lambda>k. (AheadOf, RecordArgument (ArgOperand k))) (filter (\<lambda>k. ptrs ! k) [0..<length ptrs])
     @ [(AheadOf, RecordReturn call_id CalledValue)]"

definition instrumentMemset :: "u32 \<Rightarrow> insertions" where
  "instrumentMemset call_id = [(AheadOf, RecordMemset call_id (ArgOperand 0) (ArgOperand 2) (ArgOperand 1))]"

definition instrumentMemmove :: "u32 \<Rightarrow> insertions" where
  "instrumentMemmove call_id = [(AheadOf, RecordMemmove call_id (ArgOperand 0) (ArgOperand 1) (ArgOperand 2))]"

definition instrument_call :: "ll_module \<Rightarrow> u32 \<Rightarrow> string option \<Rightarrow> bool list \<Rightarrow> insertions" where
  "instrument_call M i called ptrs =
     (case called of
        None \<Rightarrow> []
      | Some f \<Rightarrow>
          if isIntrinsic f then
            (if take 12 f = ''llvm.memset.'' then instrumentMemset i else [])
            @ (if take 12 f = ''llvm.memcpy.'' \<or> take 13 f = ''llvm.memmove.'' then instrumentMemmove i else [])
          else if is_malloc f then instrumentAllocaCall i
          else if is_calloc f then instrumentAllocaInst2 i
          else if f \<notin> set (instrumentedFun M) then instrumentCallInst i ptrs
          else [])"

definition instrument :: "ll_module \<Rightarrow> ll_inst \<Rightarrow> insertions option" where
  "instrument M ins = do {
     i \<leftarrow> ins2ID M (li_handle ins);
     Some (case li_op ins of
        LoadOp sz \<Rightarrow> instrumentLoadInst i sz
      | StoreOp sz single \<Rightarrow> instrumentStoreInst i sz single
      | AtomicRMWOp sz \<Rightarrow> instrumentAtomicRMWInst i sz
      | AtomicCmpXchgOp sz \<Rightarrow> instrumentAtomicCmpXchgInst i sz
      | AllocaOp sz \<Rightarrow> instrumentAllocaInst i sz
      | CallOp called ptrs \<Rightarrow> instrument_call M i called ptrs
      | _ \<Rightarrow> [])
   }"

lemmas instrument_defs =
  instrumentLoadInst_def instrumentStoreInst_def instrumentAllocaInst_def instrumentAllocaCall_def
  instrumentAllocaInst2_def instrumentAtomicRMWInst_def instrumentAtomicCmpXchgInst_def
  instrumentCallInst_def instrumentMemset_def instrumentMemmove_def instrument_call_def

text \<open>The globals are declared at the start of \<open>main\<close>, each before the one inserted last.\<close>

definition declared_globals :: "ll_module \<Rightarrow> record_call list" where
  "declared_globals M =
     fold (\<lambda>(printed, sz) calls.
       if take 6 printed = ''@llvm.'' then calls
       else RecordMemory (- 1) (GlobalAddress printed) (Size sz) # calls) (lm_globals M) []"

text \<open>The whole pass; without a \<open>main\<close> it does nothing.\<close>

record pass_result =
  out_Inst :: string
  out_InstrumentedFun :: string
  out_BBGraph :: string
  at_main :: "record_call list"
  at_blocks :: "insertions list"
  at_insts :: "insertions list"

definition runOnModule :: "ll_module \<Rightarrow> pass_result option option" where
  "runOnModule M =
     (if \<not> has_main M then Some None
      else do {
        inst \<leftarrow> fInst M;
        graph \<leftarrow> fBBGraph M;
        bs \<leftarrow> all_some (map (\<lambda>(bb, _). instrumentBasicBlock M bb) (traced_blocks M));
        is \<leftarrow> all_some (map (instrument M) (ins_list M));
        Some (Some \<lparr>out_Inst = inst, out_InstrumentedFun = fInstrumentedFun M, out_BBGraph = graph,
          at_main = declared_globals M, at_blocks = bs, at_insts = is\<rparr>)
      })"

end
