(* ===== verification/ModuleTables.thy ===== *)
theory ModuleTables
  imports TracePass MergeTrace Example
begin

text \<open>
  What the tools load is what the pass saw: reading the \<open>Inst\<close> file gives one entry per traced
  instruction, under its number, and the blocks' lists of instructions; the other two files read back
  as the names and the edges that were written; and \<open>MergeTrace\<close> passes over exactly the instructions
  at which the pass inserted no recording call.
\<close>

section \<open>The expected tables\<close>

definition loaded_type :: "ll_module \<Rightarrow> ll_inst \<Rightarrow> inst_type" where
  "loaded_type M ins =
     (case li_op ins of
        LoadOp _ \<Rightarrow> LoadInst
      | StoreOp _ _ \<Rightarrow> StoreInst
      | AtomicRMWOp _ \<Rightarrow> AtomicInst
      | AtomicCmpXchgOp _ \<Rightarrow> AtomicInst
      | ReturnOp _ \<Rightarrow> ReturnInst
      | TerminatorOp \<Rightarrow> TerminatorInst
      | PhiOp _ \<Rightarrow> PhiNode
      | CallOp None _ \<Rightarrow> CallInst
      | CallOp (Some f) _ \<Rightarrow>
          (if isIntrinsic f then CallInst
           else if is_malloc f \<or> is_calloc f then AllocaInst
           else if f \<in> set (instrumentedFun M) then CallInst else ExternalCallInst)
      | AllocaOp _ \<Rightarrow> AllocaInst
      | OtherOp \<Rightarrow> VarArg)"

definition loaded_fun :: "ll_module \<Rightarrow> ll_inst \<Rightarrow> string" where
  "loaded_fun M ins =
     (case li_op ins of
        CallOp called _ \<Rightarrow>
          (if loaded_type M ins = AllocaInst then ''''
           else case called of None \<Rightarrow> ''[UNKNOWN]'' | Some f \<Rightarrow> f)
      | _ \<Rightarrow> '''')"

definition loaded :: "ll_module \<Rightarrow> ll_inst \<Rightarrow> inst_info" where
  "loaded M ins =
     \<lparr>ii_ID = the (ins2ID M (li_handle ins)), ii_BB = the (bb2ID M (li_parent ins)), IsPointer = li_pointer ins,
      LoC = (case li_dbg ins of Some (line, _, _) \<Rightarrow> uint line | None \<Rightarrow> - 1),
      File = (case li_dbg ins of Some (_, path, directory) \<Rightarrow> full_path path directory | None \<Rightarrow> ''[UNKNOWN]''),
      ii_Code = (case li_op ins of ReturnOp False \<Rightarrow> ''ret void'' @ nl | _ \<Rightarrow> ''[UNKNOWN]''),
      SSADependencies = ssa_deps (ins2ID M) ins, ii_Type = loaded_type M ins, ii_Fun = loaded_fun M ins,
      Successors = (case li_op ins of
          ReturnOp _ \<Rightarrow> the (successor_ids M ins) | TerminatorOp \<Rightarrow> the (successor_ids M ins) | _ \<Rightarrow> []),
      PhiDependencies = (case li_op ins of PhiOp incoming \<Rightarrow> the (phi_entries M incoming) | _ \<Rightarrow> [])\<rparr>"

definition block_ids :: "ll_module \<Rightarrow> nat \<times> ll_inst list \<Rightarrow> u32 list" where
  "block_ids M b = map (\<lambda>i. the (ins2ID M (li_handle i))) (filter (\<lambda>i. \<not> notTraced i) (snd b))"

definition loaded_code :: "ll_module \<Rightarrow> code_info" where
  "loaded_code M = \<lparr>Ins = map (loaded M) (ins_list M), BB2Ins = map (block_ids M) (traced_blocks M)\<rparr>"

text \<open>
  What is assumed of a module: objects are distinct, instructions know their block, a block has a
  traced instruction (its terminator), names have no white space, and counts and numbers fit \<open>int\<close>.
\<close>

definition operand_ok :: "operand \<Rightarrow> bool" where
  "operand_ok v = (case v of OpArg n _ \<Rightarrow> n < 2 ^ 31 | _ \<Rightarrow> True)"

definition inst_ok :: "ll_inst \<Rightarrow> bool" where
  "inst_ok ins \<longleftrightarrow>
     (case li_dbg ins of Some (line, _, _) \<Rightarrow> small line | None \<Rightarrow> True)
     \<and> length (li_operands ins) < 2 ^ 31 \<and> list_all operand_ok (li_operands ins)
     \<and> length (li_targets ins) < 2 ^ 31
     \<and> (case li_op ins of
          PhiOp incoming \<Rightarrow> length incoming < 2 ^ 31 \<and> list_all (\<lambda>(_, v). operand_ok v) incoming
        | CallOp (Some f) _ \<Rightarrow> word_ok f
        | _ \<Rightarrow> True)"

definition module_ok :: "ll_module \<Rightarrow> bool" where
  "module_ok M \<longleftrightarrow>
     distinct (map li_handle (ins_list M)) \<and> length (ins_list M) < 2 ^ 31
     \<and> distinct (map fst (traced_blocks M)) \<and> length (traced_blocks M) < 2 ^ 31
     \<and> list_all (\<lambda>(bb, is). list_all (\<lambda>i. li_parent i = bb) is \<and> list_ex (\<lambda>i. \<not> notTraced i) is) (traced_blocks M)
     \<and> list_all inst_ok (ins_list M) \<and> list_all word_ok (instrumentedFun M)"

section \<open>Numbers\<close>

lemma number_other: "h \<notin> set hs \<Longrightarrow> number hs k m h = m h"
  by (induction hs arbitrary: k m) auto

lemma number_nth: "distinct hs \<Longrightarrow> i < length hs \<Longrightarrow> number hs k m (hs ! i) = Some (k + of_nat i)"
proof (induction hs arbitrary: k m i)
  case (Cons h hs)
  then show ?case
    by (cases i) (auto simp: number_other algebra_simps)
qed simp

lemma number_range: "number hs k m h = Some v \<Longrightarrow> m h = Some v \<or> (\<exists>i < length hs. v = k + of_nat i)"
proof (induction hs arbitrary: k m)
  case (Cons x hs)
  from Cons.IH [OF Cons.prems [simplified]] show ?case
  proof
    assume "(m(x \<mapsto> k)) h = Some v"
    then show ?case by (cases "h = x") (auto intro: exI [of _ 0])
  next
    assume "\<exists>i < length hs. v = k + 1 + of_nat i"
    then obtain i where "i < length hs" "v = k + 1 + of_nat i" by blast
    then show ?case by (auto intro!: exI [of _ "Suc i"] simp: algebra_simps)
  qed
qed simp

lemma small_of_nat: "n < 2 ^ 31 \<Longrightarrow> small (of_nat n)"
  by (simp add: small_def unat_of_nat take_bit_nat_eq_self)

lemma small_0: "small 0"
  by (simp add: small_def)

lemma number_small: "number hs 0 Map.empty h = Some v \<Longrightarrow> length hs < 2 ^ 31 \<Longrightarrow> small v"
  using number_range [of hs 0 Map.empty h v] by (auto intro!: small_of_nat)

lemma ids_small:
  assumes "module_ok M"
  shows "ins2ID M h = Some v \<Longrightarrow> small v" "bb2ID M b = Some w \<Longrightarrow> small w"
  using assms number_small [of "map li_handle (ins_list M)" h v] number_small [of "map fst (traced_blocks M)" b w]
  by (auto simp: ins2ID_def bb2ID_def module_ok_def)

lemma ins2ID_nth:
  assumes "module_ok M" "i < length (ins_list M)"
  shows "ins2ID M (li_handle (ins_list M ! i)) = Some (of_nat i)"
  using assms number_nth [of "map li_handle (ins_list M)" i 0 Map.empty]
  by (simp add: ins2ID_def module_ok_def)

lemma all_some_map: "all_some (map f xs) = Some ys \<Longrightarrow> list_all2 (\<lambda>x y. f x = Some y) xs ys"
  by (induction xs arbitrary: ys) (auto elim!: bind_SomeE)

section \<open>One entry\<close>

lemma base64_word: "bs \<noteq> [] \<Longrightarrow> word_ok (base64_encode bs)"
proof -
  assume "bs \<noteq> []"
  then have "base64_encode bs \<noteq> []"
    using encode_length [of bs] by (cases bs) auto
  moreover have "\<not> isspace c" if "c \<in> set (base64_encode bs)" for c
    using encode_alphabet [OF that] by (auto simp: is_base64_def isalnum_def isspace_def)
  ultimately show ?thesis by (simp add: word_ok_def list_all_iff)
qed

lemma chars_of_bytes: "chars_of (bytes_of_string s) = s"
proof -
  have "char_of (unat (of_char c :: u8)) = c" for c
  proof -
    have "unat (of_nat (of_char c) :: u8) = take_bit 8 (of_char c)"
      by (simp only: unsigned_of_nat of_nat_id) simp
    also have "\<dots> = of_char c"
      using nat_of_char_less_256 [of c] by (simp add: take_bit_nat_eq_self)
    finally show ?thesis by (simp add: of_nat_of_char)
  qed
  then show ?thesis
    by (simp add: chars_of_def bytes_of_string_def comp_def)
qed

lemma full_path_nonempty: "full_path path directory \<noteq> []"
  by (cases path) (auto simp: full_path_def)

lemma decoded_path: "decode_field (base64_encode (bytes_of_string (full_path path directory))) = full_path path directory"
proof -
  have "base64_encode bs \<noteq> ''[UNKNOWN]''" for bs
    using encode_alphabet [of "CHR ''[''" bs] by (auto simp: is_base64_def isalnum_def)
  then show ?thesis
    by (simp add: decode_field_def base64_round chars_of_bytes)
qed

lemma decoded_ret: "decode_field ''cmV0IHZvaWQK'' = ''ret void'' @ nl"
  by code_simp

lemma unknown_word: "word_ok ''[UNKNOWN]''" "decode_field ''[UNKNOWN]'' = ''[UNKNOWN]''" "word_ok ''cmV0IHZvaWQK''"
  by (simp_all add: word_ok_def isspace_def decode_field_def)

lemma dep_small:
  assumes "module_ok M" "list_all operand_ok (li_operands ins)"
  shows "list_all (\<lambda>d. small (snd d)) (ssa_deps (ins2ID M) ins)"
proof -
  have "small (snd d)" if "operand_dep (ins2ID M) v = Some d" "operand_ok v" for v d
    using that ids_small(1) [OF assms(1)]
    by (auto simp: operand_dep_def operand_ok_def small_of_nat small_0 split: operand.splits)
  then show ?thesis
    using assms(2) by (auto simp: ssa_deps_def list_all_iff map_filter_def)
qed

lemma ssa_deps_length: "length (ssa_deps ids ins) \<le> length (li_operands ins)"
  by (simp add: ssa_deps_def map_filter_def)

definition phi_fits :: "u32 \<times> dep_type \<times> u32 \<Rightarrow> bool" where
  "phi_fits p \<longleftrightarrow> small (fst p) \<and> small (snd (snd p))"

lemma phi_name_ok: "word_ok (phi_name t)" "dep_of_name (phi_name t) = t"
  by (cases t; simp add: word_ok_def phi_name_def dep_of_name_def isspace_def)+

interpretation phis: field read_phi phi_text phi_fits
proof
  show skip: "isspace c \<Longrightarrow> read_phi (c # s) = read_phi s" for c s
    by (simp add: read_phi_def ints.skips)
  fix x c rest
  assume "phi_fits x" "isspace c"
  moreover obtain b t v where "x = (b, t, v)" by (cases x)
  ultimately show "read_phi (phi_text x @ c # rest) = Some (x, c # rest)"
    using words.reads_text [OF phi_name_ok(1), of "CHR '' ''" t "u32_text v @ c # rest"]
    by (simp add: phi_text_def phi_fits_def read_phi_def ints.skips words.skips read_int_u32 phi_name_ok(2))
qed

lemma phi_entries_ok:
  assumes "module_ok M" "list_all (\<lambda>(_, v). operand_ok v) incoming" "phi_entries M incoming = Some ps"
  shows "list_all phi_fits ps" "length ps = length incoming"
proof -
  have rel: "list_all2 (\<lambda>x p. (case x of (bb, v) \<Rightarrow> Option.bind (bb2ID M bb) (\<lambda>b.
      Option.bind (phi_value (ins2ID M) v) (\<lambda>(t, i). Some (b, t, i)))) = Some p) incoming ps"
    using all_some_map [OF assms(3) [unfolded phi_entries_def]] .
  then show "length ps = length incoming" by (simp add: list_all2_lengthD)
  have one: "phi_fits p" if "operand_ok v" "bb2ID M bb = Some b" "phi_value (ins2ID M) v = Some (t, i)" "p = (b, t, i)" for bb v b t i p
    using that ids_small [OF assms(1)]
    by (auto simp: phi_fits_def phi_value_def operand_ok_def small_of_nat small_0 split: operand.splits)
  from rel assms(2) show "list_all phi_fits ps"
    by (induction rule: list_all2_induct) (auto elim!: bind_SomeE intro: one)
qed

lemma successor_ids_ok:
  assumes "module_ok M" "successor_ids M ins = Some ss"
  shows "list_all small ss" "length ss = length (li_targets ins)"
proof -
  have rel: "list_all2 (\<lambda>t s. bb2ID M t = Some s) (li_targets ins) ss"
    using all_some_map assms(2) unfolding successor_ids_def by blast
  then show "length ss = length (li_targets ins)" by (simp add: list_all2_lengthD)
  from rel show "list_all small ss"
    by (induction rule: list_all2_induct) (auto simp: ids_small(2) [OF assms(1)])
qed

text \<open>What stands after the operands of an entry.\<close>

lemma read_tail_call:
  "word_ok f \<Longrightarrow> t = CallInst \<or> t = ExternalCallInst \<Longrightarrow>
   read_tail t (CHR 0x0A # CHR 0x09 # f @ CHR 0x0A # rest) = Some ((f, [], []), CHR 0x0A # rest)"
  by (auto simp: read_tail_def words.skips words.reads_text)

lemma read_tail_succs:
  "list_all small ss \<Longrightarrow> length ss < 2 ^ 31 \<Longrightarrow> t = TerminatorInst \<or> t = ReturnInst \<Longrightarrow>
   read_tail t (CHR 0x0A # CHR 0x09 # decimal (length ss) @ CHR '' '' # concat (map (\<lambda>x. u32_text x @ '' '') ss) @ rest)
     = Some (('''', ss, []), CHR '' '' # rest)"
  by (auto simp: read_tail_def read_list_skip succs.reads_list)

lemma read_tail_phis:
  "list_all phi_fits ps \<Longrightarrow> length ps < 2 ^ 31 \<Longrightarrow>
   read_tail PhiNode (CHR 0x0A # CHR 0x09 # decimal (length ps) @ CHR '' '' # concat (map (\<lambda>x. phi_text x @ '' '') ps) @ rest)
     = Some (('''', [], ps), CHR '' '' # rest)"
  by (simp add: read_tail_def read_list_skip phis.reads_list)

lemma read_tail_none:
  "t \<notin> {CallInst, ExternalCallInst, TerminatorInst, ReturnInst, PhiNode} \<Longrightarrow> read_tail t s = Some (('''', [], []), s)"
  by (simp add: read_tail_def)

definition type_name :: "inst_type \<Rightarrow> string" where
  "type_name t = (case t of
     NormalInst \<Rightarrow> ''Inst'' | LoadInst \<Rightarrow> ''LoadInst'' | StoreInst \<Rightarrow> ''StoreInst'' | CallInst \<Rightarrow> ''CallInst''
   | ExternalCallInst \<Rightarrow> ''ExternalCallInst'' | ReturnInst \<Rightarrow> ''ReturnInst'' | TerminatorInst \<Rightarrow> ''TerminatorInst''
   | PhiNode \<Rightarrow> ''PhiNode'' | VarArg \<Rightarrow> ''NormalInst'' | AtomicInst \<Rightarrow> ''AtomicInst'' | AllocaInst \<Rightarrow> ''AllocaInst'')"

lemma type_name_ok: "word_ok (type_name t)" "type_of_name (type_name t) = t"
  by (cases t; simp add: type_name_def type_of_name_def word_ok_def isspace_def)+

text \<open>The type line and the tail, as one text.\<close>

definition tail_text :: "inst_info \<Rightarrow> string" where
  "tail_text x =
     (if ii_Type x \<in> {CallInst, ExternalCallInst} then tab @ ii_Fun x @ nl
      else if ii_Type x \<in> {TerminatorInst, ReturnInst} then
        tab @ decimal (length (Successors x)) @ '' '' @ concat (map (\<lambda>s. u32_text s @ '' '') (Successors x)) @ nl
      else if ii_Type x = PhiNode then
        tab @ decimal (length (PhiDependencies x)) @ '' '' @ concat (map (\<lambda>p. phi_text p @ '' '') (PhiDependencies x)) @ nl
      else '''')"

lemma type_text_loaded:
  "type_text M ins = Some b \<Longrightarrow> b = tab @ type_name (ii_Type (loaded M ins)) @ nl @ tail_text (loaded M ins)"
  by (auto simp: type_text_def loaded_def loaded_type_def loaded_fun_def tail_text_def type_name_def call_text_def
      terminator_text_def isIntrinsic_def split: opcode.splits option.splits if_splits elim!: bind_SomeE)

lemma loaded_tail:
  assumes "module_ok M" "inst_ok ins" "type_text M ins = Some b"
  shows "\<exists>w. list_all isspace w \<and>
    read_tail (ii_Type (loaded M ins)) (CHR 0x0A # tail_text (loaded M ins) @ rest)
      = Some ((ii_Fun (loaded M ins), Successors (loaded M ins), PhiDependencies (loaded M ins)), w @ rest)"
proof (cases "ii_Type (loaded M ins) \<in> {CallInst, ExternalCallInst, TerminatorInst, ReturnInst, PhiNode}")
  case False
  then have "ii_Fun (loaded M ins) = ''''" "Successors (loaded M ins) = []" "PhiDependencies (loaded M ins) = []"
    by (auto simp: loaded_def loaded_type_def loaded_fun_def split: opcode.splits option.splits if_splits)
  with False show ?thesis
    by (auto simp: read_tail_none tail_text_def intro!: exI [of _ nl])
next
  case True
  then consider called ptrs where "li_op ins = CallOp called ptrs"
    | v where "li_op ins = ReturnOp v \<or> li_op ins = TerminatorOp" | incoming where "li_op ins = PhiOp incoming"
    by (cases "li_op ins") (auto simp: loaded_def loaded_type_def)
  then show ?thesis
  proof cases
    case 1
    then have t: "ii_Type (loaded M ins) \<in> {CallInst, ExternalCallInst}"
      using True by (auto simp: loaded_def loaded_type_def split: option.splits if_splits)
    have "word_ok (ii_Fun (loaded M ins))" "Successors (loaded M ins) = []" "PhiDependencies (loaded M ins) = []"
      using 1 assms(2) t
      by (auto simp: loaded_def loaded_fun_def inst_ok_def unknown_word split: option.splits if_splits)
    with t read_tail_call [of "ii_Fun (loaded M ins)" "ii_Type (loaded M ins)" rest] show ?thesis
      by (auto simp: tail_text_def intro!: exI [of _ nl])
  next
    case 2
    with assms(3) obtain ss where ss: "successor_ids M ins = Some ss"
      by (auto simp: type_text_def)
    have "list_all small ss" "length ss < 2 ^ 31"
      using successor_ids_ok [OF assms(1) ss] assms(2) by (simp_all add: inst_ok_def)
    moreover have "ii_Type (loaded M ins) \<in> {TerminatorInst, ReturnInst}" "ii_Fun (loaded M ins) = ''''"
      "Successors (loaded M ins) = ss" "PhiDependencies (loaded M ins) = []"
      using 2 ss by (auto simp: loaded_def loaded_type_def loaded_fun_def)
    ultimately show ?thesis
      using read_tail_succs [of ss "ii_Type (loaded M ins)" "nl @ rest"]
      by (auto simp: tail_text_def intro!: exI [of _ "'' '' @ nl"])
  next
    case 3
    with assms(3) obtain ps where ps: "phi_entries M incoming = Some ps"
      by (auto simp: type_text_def elim!: bind_SomeE)
    have "list_all phi_fits ps" "length ps < 2 ^ 31"
      using phi_entries_ok [OF assms(1) _ ps] 3 assms(2) by (simp_all add: inst_ok_def)
    moreover have "ii_Type (loaded M ins) = PhiNode" "ii_Fun (loaded M ins) = ''''"
      "Successors (loaded M ins) = []" "PhiDependencies (loaded M ins) = ps"
      using 3 ps by (simp_all add: loaded_def loaded_type_def loaded_fun_def)
    ultimately show ?thesis
      using read_tail_phis [of ps "nl @ rest"] by (auto simp: tail_text_def intro!: exI [of _ "'' '' @ nl"])
  qed
qed

text \<open>The fields before the type.\<close>

lemma loaded_location:
  assumes "inst_ok ins" "isspace c"
  shows "\<exists>s1. read_int (c # location_text ins @ t) = Some (LoC (loaded M ins), s1)
    \<and> (\<exists>w. read_word s1 = Some (w, CHR 0x0A # t) \<and> decode_field w = File (loaded M ins))"
proof (cases "li_dbg ins")
  case None
  have "read_int (''-1'' @ nl @ s) = Some (- 1, nl @ s)" for s
    using ints.reads_text [of "- 1" "CHR 0x0A" s] by (simp add: int_text_def decimal.simps char_digits)
  with None assms(2) show ?thesis
    using words.reads_text [OF unknown_word(1), of "CHR 0x0A" t]
    by (simp add: location_text_def ints.skips words.skips loaded_def unknown_word)
next
  case (Some l)
  obtain line path directory where l: "l = (line, path, directory)" by (cases l)
  have "small line" using assms(1) Some l by (simp add: inst_ok_def)
  moreover have "word_ok (base64_encode (bytes_of_string (full_path path directory)))"
    using full_path_nonempty by (intro base64_word) (simp add: bytes_of_string_def)
  ultimately show ?thesis
    using Some l assms(2) words.reads_text [of _ "CHR 0x0A" t]
    by (simp add: location_text_def ints.skips words.skips loaded_def read_int_u32 decoded_path)
qed

lemma loaded_code_field:
  "read_word (c # code_text ins @ CHR 0x0A # t) = Some (code_text ins, CHR 0x0A # t) \<and>
   decode_field (code_text ins) = ii_Code (loaded M ins)" if "isspace c"
  using that words.reads_text [OF unknown_word(1), of "CHR 0x0A" t] words.reads_text [OF unknown_word(3), of "CHR 0x0A" t]
  by (auto simp: words.skips code_text_def loaded_def unknown_word decoded_ret split: opcode.split bool.split)

lemma loaded_deps:
  assumes "module_ok M" "inst_ok ins"
  shows "read_list read_dep (CHR 0x0A # deps_text (ssa_deps (ins2ID M) ins) @ t)
    = Some (SSADependencies (loaded M ins), CHR '' '' # CHR 0x0A # t)"
proof -
  have "length (ssa_deps (ins2ID M) ins) < 2 ^ 31"
    using ssa_deps_length [of "ins2ID M" ins] assms(2) by (simp add: inst_ok_def)
  then show ?thesis
    using deps.reads_list [OF dep_small [OF assms(1)], of ins "CHR 0x0A # t"] assms(2)
    by (simp add: deps_text_def read_list_skip loaded_def inst_ok_def)
qed

lemma loaded_entry:
  assumes M: "module_ok M" "inst_ok ins" "inst_text M ins = Some entry"
  shows "\<exists>s1 w. read_int (entry @ rest) = Some (uint (ii_ID (loaded M ins)), s1) \<and> list_all isspace w
    \<and> read_record (uint (ii_ID (loaded M ins))) s1 = Some (loaded M ins, w @ rest)"
proof -
  from M(3) obtain i bb b where i: "ins2ID M (li_handle ins) = Some i" and bb: "bb2ID M (li_parent ins) = Some bb"
    and b: "type_text M ins = Some b"
    and entry: "entry = u32_text i @ nl @ tab @ u32_text bb @ nl @ tab @ bool_text (li_pointer ins) @ nl
       @ location_text ins @ tab @ code_text ins @ nl @ deps_text (ssa_deps (ins2ID M) ins) @ b"
    by (auto simp: inst_text_def CommonInfo_def elim!: bind_SomeE)
  let ?x = "loaded M ins"
  have fields: "ii_ID ?x = i" "ii_BB ?x = bb" "IsPointer ?x = li_pointer ins"
    using i bb by (simp_all add: loaded_def)
  note b' = type_text_loaded [OF b]
  obtain w where w: "list_all isspace w"
    and tail: "read_tail (ii_Type ?x) (CHR 0x0A # tail_text ?x @ rest)
      = Some ((ii_Fun ?x, Successors ?x, PhiDependencies ?x), w @ rest)"
    using loaded_tail [OF M(1,2) b, of rest] by blast
  let ?t = "code_text ins @ nl @ deps_text (ssa_deps (ins2ID M) ins) @ b @ rest"
  obtain s4 fl where loc: "read_int (CHR 0x0A # location_text ins @ tab @ ?t) = Some (LoC ?x, s4)"
    "read_word s4 = Some (fl, CHR 0x0A # tab @ ?t)" "decode_field fl = File ?x"
    using loaded_location [OF M(2), of "CHR 0x0A" "tab @ ?t" M] by auto
  have code: "read_word (CHR 0x0A # tab @ ?t) = Some (code_text ins, CHR 0x0A # deps_text (ssa_deps (ins2ID M) ins) @ b @ rest)"
    "decode_field (code_text ins) = ii_Code ?x"
    using loaded_code_field [of "CHR 0x09" ins _ M] by (simp_all add: words.skips)
  note deps = loaded_deps [OF M(1,2), of "b @ rest"]
  have ty: "read_word (CHR '' '' # CHR 0x0A # b @ rest) = Some (type_name (ii_Type ?x), CHR 0x0A # tail_text ?x @ rest)"
    using words.reads_text [OF type_name_ok(1), of "CHR 0x0A" "ii_Type ?x" "tail_text ?x @ rest"]
    by (simp add: b' words.skips)
  let ?s1 = "CHR 0x0A # tab @ u32_text bb @ nl @ tab @ bool_text (li_pointer ins) @ nl @ location_text ins @ tab @ ?t"
  have "read_record (uint i) ?s1 = Some (?x, w @ rest)"
    using loc code deps ty tail fields type_name_ok(2) [of "ii_Type ?x"]
      u32s.reads_text [of "CHR 0x0A" bb] bools.reads_text [of "CHR 0x0A" "li_pointer ins"]
    by (simp add: read_record_def u32s.skips bools.skips)
  moreover have "read_int (entry @ rest) = Some (uint i, ?s1)"
    using read_int_u32 [OF ids_small(1) [OF M(1) i], of "CHR 0x0A"] by (simp add: entry)
  ultimately show ?thesis using w fields by auto
qed

section \<open>The whole table\<close>

lemma load_insts_skip: "list_all isspace w \<Longrightarrow> load_insts (w @ s) info tab1 = load_insts s info tab1"
proof (induction w)
  case (Cons c w)
  then show ?case
    using ints.skips [of c "w @ s"] by (subst load_insts.simps) (simp add: load_insts.simps [symmetric])
qed simp

lemma load_insts_texts:
  assumes "module_ok M" "list_all inst_ok is" "list_all2 (\<lambda>ins t. inst_text M ins = Some t) is ts"
    and "\<And>k. k < length is \<Longrightarrow> unat (ii_ID (loaded M (is ! k))) = length info + k"
  shows "load_insts (concat ts) info tab1
    = Some (info @ map (loaded M) is, fold (\<lambda>ins. add_to_bb (ii_BB (loaded M ins)) (ii_ID (loaded M ins))) is tab1)"
  using assms(3,2,4)
proof (induction arbitrary: info tab1 rule: list_all2_induct)
  case Nil
  have "read_int [] = None" by (simp add: read_int_def read_number_def skip_ws_def)
  then show ?case by (subst load_insts.simps) simp
next
  case (Cons ins "is" t ts)
  obtain s1 w where r: "read_int (t @ concat ts) = Some (uint (ii_ID (loaded M ins)), s1)" "list_all isspace w"
    "read_record (uint (ii_ID (loaded M ins))) s1 = Some (loaded M ins, w @ concat ts)"
    using loaded_entry [OF assms(1) _ Cons.hyps(1), of "concat ts"] Cons.prems by auto
  have "unat (ii_ID (loaded M ins)) = length info"
    using Cons.prems(2) [of 0] by simp
  moreover have "unat (ii_ID (loaded M (is ! k))) = length (info @ [loaded M ins]) + k" if "k < length is" for k
    using Cons.prems(2) [of "Suc k"] that by simp
  ultimately show ?case
    using r Cons.IH [of "info @ [loaded M ins]"] Cons.prems(1) load_insts_skip
    by (subst load_insts.simps) simp
qed

lemma add_to_bb_new: "unat b = length tab1 \<Longrightarrow> add_to_bb b i tab1 = tab1 @ [[i]]"
  by (simp add: add_to_bb_def list_update_append nth_append)

lemma add_to_bb_last: "unat b = length tab1 \<Longrightarrow> add_to_bb b i (tab1 @ [ids]) = tab1 @ [ids @ [i]]"
  by (simp add: add_to_bb_def list_update_append nth_append)

lemma add_block_more: "unat b = length tab1 \<Longrightarrow> fold (add_to_bb b) xs (tab1 @ [ids]) = tab1 @ [ids @ xs]"
  by (induction xs arbitrary: ids) (simp_all add: add_to_bb_last)

lemma add_block: "unat b = length tab1 \<Longrightarrow> ids \<noteq> [] \<Longrightarrow> fold (add_to_bb b) ids tab1 = tab1 @ [ids]"
  by (cases ids) (simp_all add: add_to_bb_new add_block_more)

lemma bb2ID_nth:
  assumes "module_ok M" "k < length (traced_blocks M)"
  shows "bb2ID M (fst (traced_blocks M ! k)) = Some (of_nat k)"
  using assms number_nth [of "map fst (traced_blocks M)" k 0 Map.empty]
  by (simp add: bb2ID_def module_ok_def)

abbreviation block_insts_of :: "nat \<times> ll_inst list \<Rightarrow> ll_inst list" where
  "block_insts_of b \<equiv> filter (\<lambda>i. \<not> notTraced i) (snd b)"

lemma ins_list_blocks: "ins_list M = concat (map block_insts_of (traced_blocks M))"
  by (auto simp: ins_list_def intro!: arg_cong [of _ _ concat] map_cong)

lemma add_blocks:
  assumes "module_ok M"
  shows "k \<le> length (traced_blocks M) \<Longrightarrow>
    fold (\<lambda>ins. add_to_bb (ii_BB (loaded M ins)) (ii_ID (loaded M ins)))
      (concat (map block_insts_of (take k (traced_blocks M)))) []
    = map (block_ids M) (take k (traced_blocks M))"
proof (induction k)
  case (Suc k)
  let ?b = "traced_blocks M ! k"
  let ?add = "\<lambda>ins. add_to_bb (ii_BB (loaded M ins)) (ii_ID (loaded M ins))"
  have k: "k < length (traced_blocks M)" using Suc.prems by simp
  then have mem: "?b \<in> set (traced_blocks M)" by simp
  then have par: "li_parent i = fst ?b" if "i \<in> set (block_insts_of ?b)" for i
    using assms that by (fastforce simp: module_ok_def list_all_iff)
  have "\<exists>i \<in> set (snd ?b). \<not> notTraced i"
    using assms mem by (fastforce simp: module_ok_def list_all_iff list_ex_iff)
  then have ne: "block_insts_of ?b \<noteq> []" by (auto simp: filter_empty_conv)
  have "k < 2 ^ 32" using k assms by (simp add: module_ok_def)
  then have len: "unat (of_nat k :: u32) = length (map (block_ids M) (take k (traced_blocks M)))"
    using k by (simp add: unat_of_nat take_bit_nat_eq_self)
  have "fold ?add (block_insts_of ?b) tab1 = fold (add_to_bb (of_nat k)) (block_ids M ?b) tab1" for tab1
  proof -
    have "fold ?add (block_insts_of ?b) tab1 = fold (\<lambda>ins. add_to_bb (of_nat k) (the (ins2ID M (li_handle ins)))) (block_insts_of ?b) tab1"
      by (rule fold_cong) (auto simp: loaded_def par bb2ID_nth [OF assms k])
    then show ?thesis by (simp add: block_ids_def fold_map comp_def)
  qed
  moreover have "fold (add_to_bb (of_nat k)) (block_ids M ?b) (map (block_ids M) (take k (traced_blocks M)))
      = map (block_ids M) (take k (traced_blocks M)) @ [block_ids M ?b]"
    by (rule add_block [OF len]) (use ne in \<open>simp add: block_ids_def\<close>)
  ultimately show ?case
    using Suc.IH k by (simp add: take_Suc_conv_app_nth)
qed simp

lemma tables_loaded:
  assumes "module_ok M" "fInst M = Some contents"
  shows "LoadInstInfo contents = Some (loaded_code M)"
proof -
  from assms(2) obtain ts where ts: "all_some (map (inst_text M) (ins_list M)) = Some ts" "contents = concat ts"
    by (auto simp: fInst_def)
  have "unat (ii_ID (loaded M (ins_list M ! k))) = length ([] :: inst_info list) + k" if "k < length (ins_list M)" for k
  proof -
    have "k < 2 ^ 32" using that assms(1) by (simp add: module_ok_def)
    then show ?thesis
      using ins2ID_nth [OF assms(1) that] by (simp add: loaded_def unat_of_nat take_bit_nat_eq_self)
  qed
  then show ?thesis
    using load_insts_texts [OF assms(1) _ all_some_map [OF ts(1)], of "[]" "[]"] assms(1)
      add_blocks [OF assms(1), of "length (traced_blocks M)"]
    by (simp add: LoadInstInfo_def ts(2) loaded_code_def module_ok_def ins_list_blocks)
qed

section \<open>The loaded tables fit the other analyses\<close>

lemma block_insts_in_list: "b \<in> set (traced_blocks M) \<Longrightarrow> set (block_insts_of b) \<subseteq> set (ins_list M)"
  by (auto simp: ins_list_blocks)

lemma loaded_at:
  assumes "module_ok M" "ins \<in> set (ins_list M)"
  shows "ins_at (loaded_code M) (the (ins2ID M (li_handle ins))) = Some (loaded M ins)"
    and "\<exists>i. ins2ID M (li_handle ins) = Some i \<and> unat i < length (ins_list M)"
proof -
  obtain k where k: "k < length (ins_list M)" "ins = ins_list M ! k"
    using assms(2) by (auto simp: in_set_conv_nth)
  have "k < 2 ^ 32" using k(1) assms(1) by (simp add: module_ok_def)
  then have "unat (of_nat k :: u32) = k" by (simp add: unat_of_nat take_bit_nat_eq_self)
  with ins2ID_nth [OF assms(1) k(1)] k show "ins_at (loaded_code M) (the (ins2ID M (li_handle ins))) = Some (loaded M ins)"
    "\<exists>i. ins2ID M (li_handle ins) = Some i \<and> unat i < length (ins_list M)"
    by (simp_all add: ins_at_Some loaded_code_def)
qed

lemma loaded_code_ok:
  assumes "module_ok M"
  shows "code_ok (loaded_code M)"
proof -
  have "block_ids M b \<noteq> [] \<and> length (block_ids M b) < 2 ^ 32 - 1
      \<and> list_all (\<lambda>i. unat i < length (Ins (loaded_code M))) (block_ids M b)" if b: "b \<in> set (traced_blocks M)" for b
  proof (intro conjI)
    have "\<exists>i \<in> set (snd b). \<not> notTraced i"
      using assms b by (fastforce simp: module_ok_def list_all_iff list_ex_iff)
    then show "block_ids M b \<noteq> []" by (auto simp: block_ids_def filter_empty_conv)
    have "length (block_insts_of b) \<le> length (ins_list M)"
      using b by (auto simp: ins_list_blocks length_concat intro!: member_le_sum_list)
    then show "length (block_ids M b) < 2 ^ 32 - 1"
      using assms by (simp add: block_ids_def module_ok_def)
    show "list_all (\<lambda>i. unat i < length (Ins (loaded_code M))) (block_ids M b)"
      using block_insts_in_list [OF b] loaded_at(2) [OF assms]
      by (fastforce simp: block_ids_def list_all_iff loaded_code_def)
  qed
  then show ?thesis
    by (simp add: code_ok_def list_all_iff loaded_code_def)
qed

text \<open>\<open>MergeTrace\<close> stops where the pass inserted a recording, and behind a call that has none.\<close>

definition recorded :: "ll_module \<Rightarrow> ll_inst \<Rightarrow> bool" where
  "recorded M ins \<longleftrightarrow> instrument M ins \<noteq> Some []"

definition is_call :: "ll_inst \<Rightarrow> bool" where
  "is_call ins = (case li_op ins of CallOp _ _ \<Rightarrow> True | _ \<Rightarrow> False)"

definition run_to :: "ll_module \<Rightarrow> ll_inst list \<Rightarrow> nat \<Rightarrow> nat" where
  "run_to M B start =
     (let e = start + length (takeWhile (\<lambda>i. \<not> recorded M i \<and> \<not> is_call i) (drop start B)) in
      if e < length B \<and> \<not> recorded M (B ! e) then e + 1 else e)"

lemma recorded_type:
  assumes "module_ok M" "ins \<in> set (ins_list M)"
  shows "is_plain (ii_Type (loaded M ins)) \<longleftrightarrow> \<not> recorded M ins \<and> \<not> is_call ins"
    and "ii_Type (loaded M ins) = CallInst \<and> take 5 (ii_Fun (loaded M ins)) \<noteq> ''llvm.'' \<longleftrightarrow> is_call ins \<and> \<not> recorded M ins"
proof -
  obtain i where i: "ins2ID M (li_handle ins) = Some i" using loaded_at(2) [OF assms] by blast
  have tr: "\<not> notTraced ins" using assms(2) by (auto simp: ins_list_def)
  note defs = i recorded_def instrument_def is_call_def is_plain_def loaded_def loaded_type_def loaded_fun_def
  show "is_plain (ii_Type (loaded M ins)) \<longleftrightarrow> \<not> recorded M ins \<and> \<not> is_call ins"
    by (cases "li_op ins") (auto simp: defs instrument_defs split: option.splits)
  show "ii_Type (loaded M ins) = CallInst \<and> take 5 (ii_Fun (loaded M ins)) \<noteq> ''llvm.'' \<longleftrightarrow> is_call ins \<and> \<not> recorded M ins"
    using tr by (cases "li_op ins")
      (auto simp: defs instrument_defs isIntrinsic_def notTraced_def
        split: option.splits)
qed

lemma plain_run_loaded:
  assumes "module_ok M"
  shows "set B \<subseteq> set (ins_list M) \<Longrightarrow>
    plain_run (loaded_code M) (map (\<lambda>i. the (ins2ID M (li_handle i))) B)
      = Some (length (takeWhile (\<lambda>i. \<not> recorded M i \<and> \<not> is_call i) B))"
  by (induction B) (simp_all add: loaded_at(1) [OF assms] recorded_type(1) [OF assms])

lemma end_index_loaded:
  assumes "module_ok M" "b \<in> set (traced_blocks M)" "start \<le> length (block_insts_of b)"
  shows "end_index (loaded_code M) (block_ids M b) (of_nat start) = Some (of_nat (run_to M (block_insts_of b) start))"
proof -
  let ?B = "block_insts_of b"
  define n where "n = length (takeWhile (\<lambda>i. \<not> recorded M i \<and> \<not> is_call i) (drop start ?B))"
  have sub: "set ?B \<subseteq> set (ins_list M)" by (rule block_insts_in_list [OF assms(2)])
  have "length (block_ids M b) < 2 ^ 32 - 1"
    using loaded_code_ok [OF assms(1)] assms(2) by (auto simp: code_ok_def list_all_iff loaded_code_def)
  then have fits: "unat (of_nat x :: u32) = x" if "x \<le> length ?B" for x
    using that by (simp add: unat_of_nat take_bit_nat_eq_self block_ids_def)
  have "start + n \<le> length ?B"
    using length_takeWhile_le [of "\<lambda>i. \<not> recorded M i \<and> \<not> is_call i" "drop start ?B"] assms(3) by (simp add: n_def)
  note u = fits [OF assms(3)] fits [OF this, unfolded of_nat_add]
  have run: "plain_run (loaded_code M) (drop start (block_ids M b)) = Some n"
    using plain_run_loaded [OF assms(1) order_trans [OF set_drop_subset sub], of start]
    by (simp add: block_ids_def drop_map n_def)
  show ?thesis
  proof (cases "start + n < length ?B")
    case True
    have stop: "\<not> (\<not> recorded M (?B ! (start + n)) \<and> \<not> is_call (?B ! (start + n)))"
      using nth_length_takeWhile [of "\<lambda>i. \<not> recorded M i \<and> \<not> is_call i" "drop start ?B"] True by (simp add: n_def)
    have "?B ! (start + n) \<in> set (ins_list M)" using sub nth_mem [OF True] by blast
    note at_e = loaded_at(1) [OF assms(1) this] recorded_type(2) [OF assms(1) this]
    have "at (block_ids M b) (start + n) = Some (the (ins2ID M (li_handle (?B ! (start + n)))))"
      using True by (simp add: at_def block_ids_def)
    moreover have "length (block_ids M b) = length ?B" by (simp add: block_ids_def)
    moreover have "ii_Type (loaded M (?B ! (start + n))) = CallInst \<and> take 5 (ii_Fun (loaded M (?B ! (start + n)))) \<noteq> ''llvm.''
        \<longleftrightarrow> \<not> recorded M (?B ! (start + n))"
      using at_e(2) stop by blast
    ultimately show ?thesis
      using True u run at_e(1) by (simp add: end_index_def run_to_def Let_def n_def [symmetric])
  next
    case False
    with u run show ?thesis
      by (simp add: end_index_def run_to_def Let_def block_ids_def n_def [symmetric])
  qed
qed

section \<open>The other two files\<close>

lemma inst_edges_small:
  assumes "module_ok M" "inst_edges M ins = Some es"
  shows "list_all (\<lambda>e. small (fst e) \<and> small (snd e)) es"
proof -
  have "list_all (\<lambda>e. small (fst e) \<and> small (snd e)) xs"
    if "all_some (map (\<lambda>s. do { a \<leftarrow> bb2ID M p; b \<leftarrow> bb2ID M s; Some (a, b) }) ts) = Some xs" for p ts xs
    using all_some_map [OF that]
    by (induction rule: list_all2_induct) (auto elim!: bind_SomeE simp: ids_small(2) [OF assms(1)])
  with assms(2) show ?thesis
    by (auto simp: inst_edges_def split: opcode.splits)
qed

lemma edges_loaded:
  assumes "module_ok M" "fBBGraph M = Some contents"
  shows "read_edges contents = bb_graph_edges M"
proof -
  from assms(2) obtain ess where ess: "all_some (map (inst_edges M) (ins_list M)) = Some ess"
    "contents = concat (map edge_text (concat ess))"
    by (auto simp: fBBGraph_def bb_graph_edges_def)
  from all_some_map [OF ess(1)] have "list_all (\<lambda>e. small (fst e) \<and> small (snd e)) (concat ess)"
    by (induction rule: list_all2_induct) (auto dest: inst_edges_small [OF assms(1)])
  with ess show ?thesis
    by (simp add: bb_graph_edges_def read_edges_text)
qed

lemma names_loaded:
  "module_ok M \<Longrightarrow> LoadInstrumentedFun (fInstrumentedFun M) {} = set (instrumentedFun M)"
  using load_names_text [of "instrumentedFun M" "{}"] by (simp add: fInstrumentedFun_def module_ok_def)

text \<open>The edges are the control flow of the traced functions.\<close>

lemma all_some_iff: "all_some xs = Some ys \<longleftrightarrow> xs = map Some ys"
proof
  show "all_some xs = Some ys \<Longrightarrow> xs = map Some ys"
    by (induction xs arbitrary: ys) (auto elim!: bind_SomeE)
  show "xs = map Some ys \<Longrightarrow> all_some xs = Some ys"
    by (induction ys arbitrary: xs) auto
qed

lemma map_Some_mem: "map f xs = map Some ys \<Longrightarrow> y \<in> set ys \<longleftrightarrow> (\<exists>x \<in> set xs. f x = Some y)"
  by (induction xs arbitrary: ys) auto

lemma map_Some_total: "map f xs = map Some ys \<Longrightarrow> x \<in> set xs \<Longrightarrow> \<exists>y \<in> set ys. f x = Some y"
  by (induction xs arbitrary: ys) auto

definition branches :: "ll_inst \<Rightarrow> bool" where
  "branches ins = (case li_op ins of ReturnOp _ \<Rightarrow> True | TerminatorOp \<Rightarrow> True | _ \<Rightarrow> False)"

lemma inst_edges_flow:
  "inst_edges M ins = Some xs \<Longrightarrow> (a, b) \<in> set xs \<longleftrightarrow>
     branches ins \<and> bb2ID M (li_parent ins) = Some a \<and> (\<exists>t \<in> set (li_targets ins). bb2ID M t = Some b)"
proof -
  have "(a, b) \<in> set ys \<longleftrightarrow> bb2ID M p = Some a \<and> (\<exists>t \<in> set ts. bb2ID M t = Some b)"
    if "all_some (map (\<lambda>s. do { a \<leftarrow> bb2ID M p; b \<leftarrow> bb2ID M s; Some (a, b) }) ts) = Some ys" for p ts ys
    using that unfolding all_some_iff by (drule_tac map_Some_mem) (auto simp: fail_simps)
  then show "inst_edges M ins = Some xs \<Longrightarrow> (a, b) \<in> set xs \<longleftrightarrow>
     branches ins \<and> bb2ID M (li_parent ins) = Some a \<and> (\<exists>t \<in> set (li_targets ins). bb2ID M t = Some b)"
    by (cases "li_op ins") (auto simp: inst_edges_def branches_def)
qed

lemma edges_are_flow:
  assumes "bb_graph_edges M = Some es"
  shows "(a, b) \<in> set es \<longleftrightarrow>
    (\<exists>ins \<in> set (ins_list M). branches ins \<and> bb2ID M (li_parent ins) = Some a
       \<and> (\<exists>t \<in> set (li_targets ins). bb2ID M t = Some b))"
proof -
  from assms obtain ess where ess: "map (inst_edges M) (ins_list M) = map Some ess" "es = concat ess"
    by (auto simp: bb_graph_edges_def all_some_iff)
  have "(a, b) \<in> set es \<longleftrightarrow> (\<exists>xs \<in> set ess. (a, b) \<in> set xs)"
    by (auto simp: ess(2))
  also have "\<dots> \<longleftrightarrow> (\<exists>ins \<in> set (ins_list M). \<exists>xs. inst_edges M ins = Some xs \<and> (a, b) \<in> set xs)"
    using map_Some_mem [OF ess(1)] by blast
  also have "\<dots> \<longleftrightarrow> (\<exists>ins \<in> set (ins_list M). branches ins \<and> bb2ID M (li_parent ins) = Some a
       \<and> (\<exists>t \<in> set (li_targets ins). bb2ID M t = Some b))"
    using map_Some_total [OF ess(1)] inst_edges_flow by blast
  finally show ?thesis .
qed

section \<open>The example as a module\<close>

definition ex_ll :: "nat \<Rightarrow> nat \<Rightarrow> opcode \<Rightarrow> bool \<Rightarrow> operand list \<Rightarrow> ll_inst" where
  "ex_ll h bb opc ptr opds = \<lparr>li_handle = h, li_parent = bb, li_op = opc, li_pointer = ptr, li_dbg = None,
     li_operands = opds, li_targets = []\<rparr>"

definition ex_module :: ll_module where
  "ex_module = \<lparr>
     lm_functions =
       [\<lparr>lf_name = ''write'', isDeclaration = True, lf_blocks = []\<rparr>,
        \<lparr>lf_name = ''main'', isDeclaration = False, lf_blocks =
          [(100, [ex_ll 10 100 (AllocaOp 8) True [OpOther],
                  ex_ll 11 100 (StoreOp 8 True) False [OpOther, OpInst 10],
                  ex_ll 12 100 (CallOp (Some ''f'') [True]) False [OpInst 10, OpOther],
                  ex_ll 13 100 (ReturnOp True) False [OpOther]])]\<rparr>,
        \<lparr>lf_name = ''f'', isDeclaration = False, lf_blocks =
          [(101, [ex_ll 20 101 (LoadOp 8) False [OpArg 0 True],
                  ex_ll 21 101 (CallOp (Some ''llvm.dbg.value'') []) False [OpOther],
                  ex_ll 22 101 (CallOp (Some ''write'') [False]) False [OpInst 20, OpOther],
                  ex_ll 23 101 (ReturnOp True) False [OpOther]])]\<rparr>],
     lm_globals = [(''@x = global i32 0'', 4)]\<rparr>"

lemma ex_module_ok: "module_ok ex_module"
  by (simp add: module_ok_def ins_list_def traced_blocks_def traced_funs_def IsSlimmerFunction_def ex_module_def
      ex_ll_def notTraced_def isIntrinsic_def inst_ok_def operand_ok_def word_ok_def isspace_def instrumentedFun_def)

lemma ex_module_code: "loaded_code ex_module = ex_code"
  by code_simp

lemma ex_module_text: "map_option length (fInst ex_module) \<noteq> None"
  by code_simp

text \<open>A module whose \<open>main\<close> has a loop of two blocks and an exit.\<close>

definition ex_loop :: ll_module where
  "ex_loop = \<lparr>
     lm_functions =
       [\<lparr>lf_name = ''main'', isDeclaration = False, lf_blocks =
          [(200, [(ex_ll 30 200 TerminatorOp False [])\<lparr>li_targets := [201]\<rparr>]),
           (201, [(ex_ll 31 201 TerminatorOp False [OpOther])\<lparr>li_targets := [200, 202]\<rparr>]),
           (202, [ex_ll 32 202 (ReturnOp False) False []])]\<rparr>],
     lm_globals = []\<rparr>"

lemma ex_loop_ok: "module_ok ex_loop"
  by (simp add: module_ok_def ins_list_def traced_blocks_def traced_funs_def IsSlimmerFunction_def ex_loop_def
      ex_ll_def notTraced_def isIntrinsic_def inst_ok_def operand_ok_def word_ok_def isspace_def instrumentedFun_def)

end
