(* ===== verification/PassInit.thy ===== *)
theory PassInit
  imports ModuleTables
begin

text \<open>
  \<open>SlimmerTrace::doInitialization\<close> with \<open>appendCtor\<close>, and \<open>StringToGV\<close> of \<open>lib/SlimmerUtil/llvm.cpp\<close>: what the
  pass adds to the module before it runs. LLVM decides how the new global is printed, which objects are
  new (\<open>fresh\<close>: the block and its two instructions), whether a function that is already there has the type
  asked for, and what becomes of \<open>llvm.global_ctors\<close>.
\<close>

definition getOrInsertFunction :: "(string \<Rightarrow> bool) \<Rightarrow> string \<Rightarrow> ll_module \<Rightarrow> ll_module option" where
  "getOrInsertFunction typed name M =
     (if list_ex (\<lambda>f. lf_name f = name) (lm_functions M) then (if typed name then Some M else None)
      else Some (M\<lparr>lm_functions := lm_functions M @ [\<lparr>lf_name = name, isDeclaration = True, lf_blocks = []\<rparr>]\<rparr>))"

definition recorders :: "string list" where
  "recorders = [''recordInit'', ''recordBasicBlockEvent'', ''recordMemoryEvent'', ''recordStoreEvent'',
     ''recordCallocEvent'', ''recordReturnEvent'', ''recordArgumentEvent'', ''recordMemset'', ''recordMemmove'']"

text \<open>The string and its terminator.\<close>

definition StringToGV :: "string \<Rightarrow> string \<Rightarrow> ll_module \<Rightarrow> ll_module" where
  "StringToGV printed s M = M\<lparr>lm_globals := lm_globals M @ [(printed, length s + 1)]\<rparr>"

definition ctor_block :: "nat \<times> nat \<times> nat \<Rightarrow> nat \<times> ll_inst list" where
  "ctor_block fresh =
     (case fresh of (bb, call, ret) \<Rightarrow>
        (bb, [\<lparr>li_handle = call, li_parent = bb, li_op = CallOp (Some ''recordInit'') [True], li_pointer = False,
               li_dbg = None, li_operands = [OpOther, OpOther], li_targets = []\<rparr>,
              \<lparr>li_handle = ret, li_parent = bb, li_op = ReturnOp False, li_pointer = False,
               li_dbg = None, li_operands = [], li_targets = []\<rparr>]))"

definition add_block :: "string \<Rightarrow> nat \<times> ll_inst list \<Rightarrow> ll_module \<Rightarrow> ll_module" where
  "add_block name bb M = M\<lparr>lm_functions :=
     map (\<lambda>f. if lf_name f = name then f\<lparr>isDeclaration := False, lf_blocks := lf_blocks f @ [bb]\<rparr> else f) (lm_functions M)\<rparr>"

record pass_outside =
  po_typed :: "string \<Rightarrow> bool"
  po_printed :: string
  po_fresh :: "nat \<times> nat \<times> nat"
  po_ctors :: "(string \<times> nat) list \<Rightarrow> (string \<times> nat) list"

definition appendCtor :: "pass_outside \<Rightarrow> string \<Rightarrow> ll_module \<Rightarrow> ll_module option" where
  "appendCtor po TraceFilename M = do {
     M1 \<leftarrow> getOrInsertFunction (po_typed po) ''slimmerCtor'' M;
     let M2 = StringToGV (po_printed po) TraceFilename (add_block ''slimmerCtor'' (ctor_block (po_fresh po)) M1);
     Some (M2\<lparr>lm_globals := po_ctors po (lm_globals M2)\<rparr>)
   }"

definition doInitialization :: "pass_outside \<Rightarrow> string \<Rightarrow> ll_module \<Rightarrow> (bool \<times> ll_module) option" where
  "doInitialization po TraceFilename M =
     (if \<not> has_main M then Some (False, M)
      else do {
        M1 \<leftarrow> fold_opt (getOrInsertFunction (po_typed po)) recorders M;
        M2 \<leftarrow> appendCtor po TraceFilename M1;
        Some (True, M2)
      })"

section \<open>The tables do not show it\<close>

text \<open>Two modules that are the same code to the pass.\<close>

definition same_code :: "ll_module \<Rightarrow> ll_module \<Rightarrow> bool" where
  "same_code M N \<longleftrightarrow> traced_funs M = traced_funs N \<and> has_main M = has_main N"

lemma same_code_trans: "same_code M N \<Longrightarrow> same_code N P \<Longrightarrow> same_code M P"
  by (simp add: same_code_def)

lemma getOrInsertFunction_same:
  assumes r: "getOrInsertFunction typed name M = Some N"
  shows "same_code M N \<and> lm_globals N = lm_globals M"
  using r by (auto simp: getOrInsertFunction_def same_code_def traced_funs_def has_main_def split: if_splits)

lemma getOrInsertFunctions_same:
  "fold_opt (getOrInsertFunction typed) names M = Some N \<Longrightarrow> same_code M N \<and> lm_globals N = lm_globals M"
proof (induction names arbitrary: M)
  case Nil
  then show ?case by (simp add: same_code_def)
next
  case (Cons name names)
  then obtain M1 where M1: "getOrInsertFunction typed name M = Some M1" "fold_opt (getOrInsertFunction typed) names M1 = Some N"
    by (auto simp: fail_simps)
  show ?case using getOrInsertFunction_same [OF M1(1)] Cons.IH [OF M1(2)] same_code_trans by auto
qed

lemma add_block_same: "same_code M (add_block ''slimmerCtor'' bb M)"
proof -
  have filt: "filter (\<lambda>f. \<not> (isDeclaration f \<or> IsSlimmerFunction (lf_name f)))
          (map (\<lambda>f. if lf_name f = ''slimmerCtor'' then f\<lparr>isDeclaration := False, lf_blocks := lf_blocks f @ [bb]\<rparr> else f) fs) =
        filter (\<lambda>f. \<not> (isDeclaration f \<or> IsSlimmerFunction (lf_name f))) fs" for fs
    by (induction fs) (auto simp: IsSlimmerFunction_def)
  have ex: "list_ex (\<lambda>f. \<not> isDeclaration f \<and> lf_name f = ''main'')
          (map (\<lambda>f. if lf_name f = ''slimmerCtor'' then f\<lparr>isDeclaration := False, lf_blocks := lf_blocks f @ [bb]\<rparr> else f) fs) =
        list_ex (\<lambda>f. \<not> isDeclaration f \<and> lf_name f = ''main'') fs" for fs
    by (induction fs) auto
  have fs: "lm_functions (add_block name bb M) =
      map (\<lambda>f. if lf_name f = name then f\<lparr>isDeclaration := False, lf_blocks := lf_blocks f @ [bb]\<rparr> else f) (lm_functions M)" for name
    by (simp add: add_block_def)
  show ?thesis
    by (simp only: same_code_def traced_funs_def has_main_def fs filt ex simp_thms)
qed

lemma globals_same: "same_code M (M\<lparr>lm_globals := gs\<rparr>)"
  by (simp add: same_code_def traced_funs_def has_main_def)

definition ctors_ok :: "pass_outside \<Rightarrow> bool" where
  "ctors_ok po \<longleftrightarrow>
     (\<forall>gs. filter (\<lambda>g. take 6 (fst g) \<noteq> ''@llvm.'') (po_ctors po gs) = filter (\<lambda>g. take 6 (fst g) \<noteq> ''@llvm.'') gs)"

lemma initialised_module:
  assumes r: "doInitialization po s M = Some (True, N)"
  shows "same_code M N \<and> lm_globals N = po_ctors po (lm_globals M @ [(po_printed po, length s + 1)])"
proof -
  obtain M1 M2 where m: "fold_opt (getOrInsertFunction (po_typed po)) recorders M = Some M1"
      "getOrInsertFunction (po_typed po) ''slimmerCtor'' M1 = Some M2"
      and N: "N = (add_block ''slimmerCtor'' (ctor_block (po_fresh po)) M2)\<lparr>lm_globals :=
        po_ctors po (lm_globals M2 @ [(po_printed po, length s + 1)])\<rparr>"
    using r by (auto simp: doInitialization_def appendCtor_def StringToGV_def add_block_def Let_def fail_simps split: if_splits)
  note a = getOrInsertFunctions_same [OF m(1)] and b = getOrInsertFunction_same [OF m(2)]
  have "same_code M M2" using a b same_code_trans by blast
  then have "same_code M N" unfolding N by (blast intro: same_code_trans add_block_same globals_same)
  then show ?thesis using a b by (simp add: N)
qed

lemma same_code_tables:
  assumes "same_code M N"
  shows "traced_blocks M = traced_blocks N" "ins_list M = ins_list N" "bb2ID M = bb2ID N" "ins2ID M = ins2ID N"
    "instrumentedFun M = instrumentedFun N"
proof -
  show t: "traced_blocks M = traced_blocks N" using assms by (simp add: same_code_def traced_blocks_def)
  show i: "ins_list M = ins_list N" by (simp add: ins_list_def t)
  show "bb2ID M = bb2ID N" by (simp add: bb2ID_def t)
  show "ins2ID M = ins2ID N" by (simp add: ins2ID_def i)
  show "instrumentedFun M = instrumentedFun N" using assms by (simp add: same_code_def instrumentedFun_def)
qed

lemma same_code_texts:
  assumes "same_code M N"
  shows "fInst M = fInst N" "fBBGraph M = fBBGraph N" "fInstrumentedFun M = fInstrumentedFun N"
    "instrument M = instrument N" "instrumentBasicBlock M = instrumentBasicBlock N"
proof -
  note t = same_code_tables [OF assms]
  have c: "successor_ids M = successor_ids N" "phi_entries M = phi_entries N"
    by (rule ext, simp add: successor_ids_def phi_entries_def t)+
  have "call_text M f = call_text N f" for f by (cases f) (simp_all add: call_text_def t)
  then have "type_text M ins = type_text N ins" for ins
    by (cases "li_op ins") (simp_all add: type_text_def c)
  then have "type_text M = type_text N" by (rule ext)
  moreover have "CommonInfo M = CommonInfo N" by (rule ext) (simp add: CommonInfo_def t)
  ultimately have "inst_text M = inst_text N" by (intro ext) (simp add: inst_text_def)
  then show "fInst M = fInst N" by (simp add: fInst_def t)
  have "inst_edges M ins = inst_edges N ins" for ins by (cases "li_op ins") (simp_all add: inst_edges_def t)
  then have "inst_edges M = inst_edges N" by (rule ext)
  then show "fBBGraph M = fBBGraph N" by (simp add: fBBGraph_def bb_graph_edges_def t)
  show "fInstrumentedFun M = fInstrumentedFun N" by (simp add: fInstrumentedFun_def t)
  have "instrument_call M i f ptrs = instrument_call N i f ptrs" for i f ptrs
    by (cases f) (simp_all add: instrument_call_def t)
  then have "instrument M ins = instrument N ins" for ins
    by (cases "li_op ins") (simp_all add: instrument_def t)
  then show "instrument M = instrument N" by (rule ext)
  show "instrumentBasicBlock M = instrumentBasicBlock N" by (rule ext) (simp add: instrumentBasicBlock_def t)
qed

lemma declared_globals_filter:
  "declared_globals M = rev (map (\<lambda>(printed, sz). RecordMemory (- 1) (GlobalAddress printed) (Size sz))
     (filter (\<lambda>g. take 6 (fst g) \<noteq> ''@llvm.'') (lm_globals M)))"
proof -
  have "fold (\<lambda>(printed, sz) calls. if take 6 printed = ''@llvm.'' then calls
          else RecordMemory (- 1) (GlobalAddress printed) (Size sz) # calls) gs acc =
        rev (map (\<lambda>(printed, sz). RecordMemory (- 1) (GlobalAddress printed) (Size sz))
          (filter (\<lambda>g. take 6 (fst g) \<noteq> ''@llvm.'') gs)) @ acc" for gs acc
    by (induction gs arbitrary: acc) auto
  then show ?thesis by (simp add: declared_globals_def)
qed

text \<open>The pass, run after its initialisation, finds the module as it was, with one more global to declare.\<close>

lemma pass_after_initialisation:
  assumes r: "doInitialization po s M = Some (True, N)" and c: "ctors_ok po" "take 6 (po_printed po) \<noteq> ''@llvm.''"
  shows "runOnModule N = map_option (map_option (\<lambda>out. out\<lparr>at_main :=
    RecordMemory (- 1) (GlobalAddress (po_printed po)) (Size (length s + 1)) # at_main out\<rparr>)) (runOnModule M)"
proof -
  note i = initialised_module [OF r]
  have sc: "same_code M N" using i by blast
  have g: "declared_globals N = RecordMemory (- 1) (GlobalAddress (po_printed po)) (Size (length s + 1)) # declared_globals M"
    using i c by (simp add: declared_globals_filter ctors_ok_def)
  have "has_main N = has_main M" using sc by (simp add: same_code_def)
  then show ?thesis
    unfolding runOnModule_def
    by (simp add: same_code_tables [OF sc] same_code_texts [OF sc] g map_option_bind comp_def split: Option.bind_split)
qed

end
