(* ===== verification/Runtime.thy ===== *)
theory Runtime
  imports TraceIO
begin

text \<open>
  \<open>CircularBuffer\<close> of the runtime (\<open>lib/SlimmerRuntime/SlimmerRuntime.cpp\<close>): the traced program
  appends records to one of the \<open>COMPRESS_BLOCK_CNT\<close> blocks; a thread compresses filled blocks
  (\<open>CompressTrace\<close>) and another dumps them to the file (\<open>DumpCompressed\<close>); four semaphores per slot pass
  the blocks on. Each party has a program counter, a step is one operation of it on the shared state,
  and a run interleaves the steps in any order. A semaphore is its count; \<open>buffer i\<close> is the part of
  the block below \<open>offset\<close>, or the whole block once it is padded. The appending threads exclude each
  other by \<open>append_lock\<close> and are one party here; none of them appends any more when the buffer is closed.
\<close>

section \<open>State\<close>

definition COMPRESS_BLOCK_CNT :: nat where
  "COMPRESS_BLOCK_CNT = 150"

datatype app_pc =
    Running
  | Waiting bytes bool \<comment> \<open>for an empty block to put the record into; closing?\<close>
  | Padding | SetCompressDone | SetDumpDone | LastSignal | JoinCompress | JoinDump
  | Closed

datatype compress_pc =
    CTop | CInner nat | CFilled nat | CEmpty nat | CWork nat | CSignalFilled nat | CSignalEmpty nat | CExit

datatype dump_pc = DTop | DInner nat | DFilled nat | DDump nat | DSignal nat | DExit

record circular_buffer =
  buffer :: "nat \<Rightarrow> bytes"
  compressed :: "nat \<Rightarrow> bytes"
  empty_buffer :: "nat \<Rightarrow> nat"
  empty_compressed :: "nat \<Rightarrow> nat"
  filled_buffer :: "nat \<Rightarrow> nat"
  filled_compressed :: "nat \<Rightarrow> nat"
  dump_done :: bool
  compress_done :: bool
  cur_block :: nat
  trace_file :: bytes
  app_at :: app_pc
  compress_at :: compress_pc
  dump_at :: dump_pc

definition CircularBuffer_Init :: circular_buffer where
  "CircularBuffer_Init =
     \<lparr>buffer = (\<lambda>_. []), compressed = (\<lambda>_. []), empty_buffer = (\<lambda>i. if i \<noteq> 0 then 1 else 0),
      empty_compressed = (\<lambda>_. 1), filled_buffer = (\<lambda>_. 0), filled_compressed = (\<lambda>_. 0),
      dump_done = False, compress_done = False, cur_block = 0, trace_file = [],
      app_at = Running, compress_at = CTop, dump_at = DTop\<rparr>"

text \<open>\<open>signal\<close>, and \<open>wait\<close> once it succeeds.\<close>

definition signal :: "nat \<Rightarrow> (nat \<Rightarrow> nat) \<Rightarrow> nat \<Rightarrow> nat" where
  "signal i sem = sem(i := sem i + 1)"

definition wait :: "nat \<Rightarrow> (nat \<Rightarrow> nat) \<Rightarrow> (nat \<Rightarrow> nat) option" where
  "wait i sem = (if 0 < sem i then Some (sem(i := sem i - 1)) else None)"

section \<open>The two threads\<close>

definition compress_step :: "compressor \<Rightarrow> circular_buffer \<Rightarrow> circular_buffer option" where
  "compress_step C s =
     (case compress_at s of
        CTop \<Rightarrow> Some (s\<lparr>compress_at := (if compress_done s then CExit else CInner 0)\<rparr>)
      | CInner i \<Rightarrow>
          Some (s\<lparr>compress_at := (if i < COMPRESS_BLOCK_CNT \<and> \<not> compress_done s then CFilled i else CTop)\<rparr>)
      | CFilled i \<Rightarrow> map_option (\<lambda>sem. s\<lparr>filled_buffer := sem, compress_at := CEmpty i\<rparr>) (wait i (filled_buffer s))
      | CEmpty i \<Rightarrow> map_option (\<lambda>sem. s\<lparr>empty_compressed := sem, compress_at := CWork i\<rparr>) (wait i (empty_compressed s))
      | CWork i \<Rightarrow> Some (s\<lparr>compressed := (compressed s)(i := C (buffer s i)), compress_at := CSignalFilled i\<rparr>)
      | CSignalFilled i \<Rightarrow>
          Some (s\<lparr>filled_compressed := signal i (filled_compressed s), compress_at := CSignalEmpty i\<rparr>)
      | CSignalEmpty i \<Rightarrow> Some (s\<lparr>empty_buffer := signal i (empty_buffer s), compress_at := CInner (i + 1)\<rparr>)
      | CExit \<Rightarrow> None)"

definition Dump :: "bytes \<Rightarrow> bytes" where
  "Dump block = w64 (of_nat (length block)) @ block @ w64 (of_nat (length block))"

definition dump_step :: "circular_buffer \<Rightarrow> circular_buffer option" where
  "dump_step s =
     (case dump_at s of
        DTop \<Rightarrow> Some (s\<lparr>dump_at := (if dump_done s then DExit else DInner 0)\<rparr>)
      | DInner i \<Rightarrow> Some (s\<lparr>dump_at := (if i < COMPRESS_BLOCK_CNT \<and> \<not> dump_done s then DFilled i else DTop)\<rparr>)
      | DFilled i \<Rightarrow> map_option (\<lambda>sem. s\<lparr>filled_compressed := sem, dump_at := DDump i\<rparr>) (wait i (filled_compressed s))
      | DDump i \<Rightarrow> Some (s\<lparr>trace_file := trace_file s @ Dump (compressed s i), dump_at := DSignal i\<rparr>)
      | DSignal i \<Rightarrow> Some (s\<lparr>empty_compressed := signal i (empty_compressed s), dump_at := DInner (i + 1)\<rparr>)
      | DExit \<Rightarrow> None)"

section \<open>The traced program\<close>

definition padding :: "bytes \<Rightarrow> bytes" where
  "padding block = replicate (COMPRESS_BLOCK_SIZE - length block) PlaceHolderLabel"

text \<open>\<open>StartAppend\<close> up to its wait, the record written, and \<open>EndAppend\<close>.\<close>

definition StartAppend :: "bytes \<Rightarrow> bool \<Rightarrow> circular_buffer \<Rightarrow> circular_buffer" where
  "StartAppend event closing s =
     (let cur = cur_block s; block = buffer s cur in
      if length block + length event > COMPRESS_BLOCK_SIZE
      then s\<lparr>buffer := (buffer s)(cur := block @ padding block), filled_buffer := signal cur (filled_buffer s),
             cur_block := (if cur + 1 = COMPRESS_BLOCK_CNT then 0 else cur + 1), app_at := Waiting event closing\<rparr>
      else s\<lparr>buffer := (buffer s)(cur := block @ event), app_at := (if closing then Padding else Running)\<rparr>)"

definition StartAppend_wait :: "bytes \<Rightarrow> bool \<Rightarrow> circular_buffer \<Rightarrow> circular_buffer option" where
  "StartAppend_wait event closing s =
     map_option (\<lambda>sem. s\<lparr>empty_buffer := sem, buffer := (buffer s)(cur_block s := event),
                          app_at := (if closing then Padding else Running)\<rparr>)
       (wait (cur_block s) (empty_buffer s))"

text \<open>What follows \<open>StartAppend\<close> in \<open>CloseBufferFile\<close>, and the wait.\<close>

definition app_step :: "circular_buffer \<Rightarrow> circular_buffer option" where
  "app_step s =
     (let cur = cur_block s in
      case app_at s of
        Running \<Rightarrow> None
      | Waiting event closing \<Rightarrow> StartAppend_wait event closing s
      | Padding \<Rightarrow> Some (s\<lparr>buffer := (buffer s)(cur := buffer s cur @ padding (buffer s cur)), app_at := SetCompressDone\<rparr>)
      | SetCompressDone \<Rightarrow> Some (s\<lparr>compress_done := True, app_at := SetDumpDone\<rparr>)
      | SetDumpDone \<Rightarrow> Some (s\<lparr>dump_done := True, app_at := LastSignal\<rparr>)
      | LastSignal \<Rightarrow> Some (s\<lparr>filled_buffer := signal cur (filled_buffer s), app_at := JoinCompress\<rparr>)
      | JoinCompress \<Rightarrow> (if compress_at s = CExit then Some (s\<lparr>app_at := JoinDump\<rparr>) else None)
      | JoinDump \<Rightarrow> (if dump_at s = DExit then Some (s\<lparr>app_at := Closed\<rparr>) else None)
      | Closed \<Rightarrow> None)"

section \<open>Runs\<close>

text \<open>A step is labelled with the records whose appending it starts.\<close>

inductive cb_step :: "compressor \<Rightarrow> bytes list \<Rightarrow> circular_buffer \<Rightarrow> circular_buffer \<Rightarrow> bool" for C where
  Append: "app_at s = Running \<Longrightarrow> length event \<le> COMPRESS_BLOCK_SIZE \<Longrightarrow> cb_step C [event] s (StartAppend event False s)"
| Close: "app_at s = Running \<Longrightarrow> cb_step C [[EndEventLabel]] s (StartAppend [EndEventLabel] True s)"
| App: "app_step s = Some s' \<Longrightarrow> cb_step C [] s s'"
| Compress: "compress_step C s = Some s' \<Longrightarrow> cb_step C [] s s'"
| Dumping: "dump_step s = Some s' \<Longrightarrow> cb_step C [] s s'"

inductive cb_steps :: "compressor \<Rightarrow> circular_buffer \<Rightarrow> bytes list \<Rightarrow> circular_buffer \<Rightarrow> bool" for C s0 where
  Start: "cb_steps C s0 [] s0"
| Step: "cb_steps C s0 rs s \<Longrightarrow> cb_step C xs s s' \<Longrightarrow> cb_steps C s0 (rs @ xs) s'"

abbreviation cb_run :: "compressor \<Rightarrow> bytes list \<Rightarrow> circular_buffer \<Rightarrow> bool" where
  "cb_run C \<equiv> cb_steps C CircularBuffer_Init"

inductive_cases cb_stepE: "cb_step C xs s s'"
inductive_simps cb_step_iff: "cb_step C xs s s'"

section \<open>Semaphores of a ring\<close>

text \<open>
  \<open>cnt n i\<close>: how many of the first \<open>n\<close> blocks used slot \<open>i\<close>. A semaphore array that has been signalled
  for the first \<open>q\<close> blocks and waited for by the first \<open>p\<close>, with \<open>k\<close> per slot to begin with.
\<close>

fun cnt :: "nat \<Rightarrow> nat \<Rightarrow> nat" where
  "cnt 0 i = 0"
| "cnt (Suc n) i = cnt n i + (if n mod COMPRESS_BLOCK_CNT = i then 1 else 0)"

definition ring :: "(nat \<Rightarrow> nat) \<Rightarrow> nat \<Rightarrow> nat \<Rightarrow> nat \<Rightarrow> bool" where
  "ring sem p q k \<longleftrightarrow> (\<forall>i < COMPRESS_BLOCK_CNT. sem i + cnt p i = k + cnt q i)"

lemma CNT_pos [simp]: "0 < COMPRESS_BLOCK_CNT"
  by (simp add: COMPRESS_BLOCK_CNT_def)

lemma slot_less [simp]: "n mod COMPRESS_BLOCK_CNT < COMPRESS_BLOCK_CNT"
  by (simp add: COMPRESS_BLOCK_CNT_def)

lemma ring_signal:
  "ring sem p q k \<Longrightarrow> i = q mod COMPRESS_BLOCK_CNT \<Longrightarrow> ring (signal i sem) p (Suc q) k"
  by (simp add: ring_def signal_def)

lemma ring_wait:
  "ring sem p q k \<Longrightarrow> i = p mod COMPRESS_BLOCK_CNT \<Longrightarrow> wait i sem = Some sem' \<Longrightarrow> ring sem' (Suc p) q k"
  by (auto simp: ring_def wait_def split: if_splits)

lemma cnt_mono: "p \<le> q \<Longrightarrow> cnt p i \<le> cnt q i"
  by (induction q) (auto simp: le_Suc_eq)

lemma cnt_less: "p < q \<Longrightarrow> cnt p (p mod COMPRESS_BLOCK_CNT) < cnt q (p mod COMPRESS_BLOCK_CNT)"
  using cnt_mono [of "Suc p" q "p mod COMPRESS_BLOCK_CNT"] by simp

lemma cnt_small: "n \<le> COMPRESS_BLOCK_CNT \<Longrightarrow> cnt n i = (if i < n then 1 else 0)"
  by (induction n) auto

lemma cnt_turn: "i < COMPRESS_BLOCK_CNT \<Longrightarrow> cnt (n + COMPRESS_BLOCK_CNT) i = cnt n i + 1"
  by (induction n) (simp_all add: cnt_small)

lemma cnt_le: "(\<And>i. i < COMPRESS_BLOCK_CNT \<Longrightarrow> cnt p i \<le> cnt q i) \<Longrightarrow> p \<le> q"
  using cnt_less [of q p] by (meson leD not_le slot_less)

lemma ring_le0: "ring sem p q 0 \<Longrightarrow> p \<le> q"
  by (rule cnt_le) (auto simp: ring_def dest!: spec)

lemma ring_le1: "ring sem p q 1 \<Longrightarrow> p \<le> q + COMPRESS_BLOCK_CNT"
  by (rule cnt_le) (auto simp: ring_def cnt_turn dest!: spec)

lemma ring_blocked0: "ring sem p q 0 \<Longrightarrow> wait (p mod COMPRESS_BLOCK_CNT) sem = None \<Longrightarrow> p = q"
  using ring_le0 [of sem p q] cnt_less [of p q] unfolding ring_def wait_def
  by (metis add_0 le_neq_implies_less less_irrefl not_gr_zero option.distinct(1) slot_less)

lemma ring_blocked1: "ring sem p q 1 \<Longrightarrow> wait (p mod COMPRESS_BLOCK_CNT) sem = None \<Longrightarrow> p = q + COMPRESS_BLOCK_CNT"
proof -
  assume r: "ring sem p q 1" and w: "wait (p mod COMPRESS_BLOCK_CNT) sem = None"
  then have "sem (p mod COMPRESS_BLOCK_CNT) = 0" by (auto simp: wait_def split: if_splits)
  then have "cnt p (p mod COMPRESS_BLOCK_CNT) = cnt (q + COMPRESS_BLOCK_CNT) (p mod COMPRESS_BLOCK_CNT)"
    using r [unfolded ring_def, rule_format, OF slot_less [of p]] by (simp add: cnt_turn)
  with cnt_less [of p "q + COMPRESS_BLOCK_CNT"] ring_le1 [OF r] show ?thesis
    by (metis le_neq_implies_less less_irrefl)
qed

lemma other_slot:
  assumes "k < n" "n < k + COMPRESS_BLOCK_CNT"
  shows "k mod COMPRESS_BLOCK_CNT \<noteq> n mod COMPRESS_BLOCK_CNT"
proof
  assume "k mod COMPRESS_BLOCK_CNT = n mod COMPRESS_BLOCK_CNT"
  then have "COMPRESS_BLOCK_CNT dvd n - k"
    using mod_eq_dvd_iff_nat [of k n COMPRESS_BLOCK_CNT] assms(1) by simp
  with assms show False by (auto dest!: dvd_imp_le)
qed

section \<open>What the runs implement\<close>

text \<open>The blocks and the current block a single writer would have: records whole, full blocks padded.\<close>

definition fill :: "bytes \<Rightarrow> bytes list \<times> bytes \<Rightarrow> (bytes list \<times> bytes) option" where
  "fill r w = Some (if length (snd w) + length r \<le> COMPRESS_BLOCK_SIZE then (fst w, snd w @ r)
     else (fst w @ [snd w @ padding (snd w)], r))"

interpretation rbuf: block_writer fill "\<lambda>w blocks cur. w = (blocks, cur)" padding COMPRESS_BLOCK_SIZE
  by unfold_locales (auto simp: fill_def padding_def)

definition given :: "app_pc \<Rightarrow> bytes list \<times> bytes \<Rightarrow> bytes list" where
  "given pc w = fst w @ (if pc \<in> {JoinCompress, JoinDump, Closed} then [snd w @ padding (snd w)] else [])"

definition acquired :: "app_pc \<Rightarrow> bytes list \<times> bytes \<Rightarrow> nat" where
  "acquired pc w = length (fst w) + (case pc of Waiting _ _ \<Rightarrow> 0 | _ \<Rightarrow> 1)"

text \<open>What the block being processed has passed, by program counter.\<close>

fun c_taken :: "compress_pc \<Rightarrow> nat" where
  "c_taken (CEmpty _) = 1" | "c_taken (CWork _) = 1" | "c_taken (CSignalFilled _) = 1"
| "c_taken (CSignalEmpty _) = 1" | "c_taken _ = 0"

fun c_room :: "compress_pc \<Rightarrow> nat" where
  "c_room (CWork _) = 1" | "c_room (CSignalFilled _) = 1" | "c_room (CSignalEmpty _) = 1" | "c_room _ = 0"

fun c_stored :: "compress_pc \<Rightarrow> nat" where
  "c_stored (CSignalFilled _) = 1" | "c_stored (CSignalEmpty _) = 1" | "c_stored _ = 0"

fun c_handed :: "compress_pc \<Rightarrow> nat" where
  "c_handed (CSignalEmpty _) = 1" | "c_handed _ = 0"

fun d_taken :: "dump_pc \<Rightarrow> nat" where
  "d_taken (DDump _) = 1" | "d_taken (DSignal _) = 1" | "d_taken _ = 0"

fun d_dumped :: "dump_pc \<Rightarrow> nat" where
  "d_dumped (DSignal _) = 1" | "d_dumped _ = 0"

text \<open>The slot a worker is at belongs to the block it has come to.\<close>

definition inner_slot :: "nat \<Rightarrow> nat \<Rightarrow> bool" where
  "inner_slot i n \<longleftrightarrow> i \<le> COMPRESS_BLOCK_CNT \<and> n mod COMPRESS_BLOCK_CNT = i mod COMPRESS_BLOCK_CNT"

fun compress_slot :: "compress_pc \<Rightarrow> bool \<Rightarrow> nat \<Rightarrow> bool" where
  "compress_slot CTop stop c \<longleftrightarrow> stop \<or> c mod COMPRESS_BLOCK_CNT = 0"
| "compress_slot (CInner i) stop c \<longleftrightarrow> inner_slot i c"
| "compress_slot (CFilled i) stop c \<longleftrightarrow> i = c mod COMPRESS_BLOCK_CNT"
| "compress_slot (CEmpty i) stop c \<longleftrightarrow> i = c mod COMPRESS_BLOCK_CNT"
| "compress_slot (CWork i) stop c \<longleftrightarrow> i = c mod COMPRESS_BLOCK_CNT"
| "compress_slot (CSignalFilled i) stop c \<longleftrightarrow> i = c mod COMPRESS_BLOCK_CNT"
| "compress_slot (CSignalEmpty i) stop c \<longleftrightarrow> i = c mod COMPRESS_BLOCK_CNT"
| "compress_slot CExit stop c \<longleftrightarrow> True"

fun dump_slot :: "dump_pc \<Rightarrow> bool \<Rightarrow> nat \<Rightarrow> bool" where
  "dump_slot DTop stop d \<longleftrightarrow> stop \<or> d mod COMPRESS_BLOCK_CNT = 0"
| "dump_slot (DInner i) stop d \<longleftrightarrow> inner_slot i d"
| "dump_slot (DFilled i) stop d \<longleftrightarrow> i = d mod COMPRESS_BLOCK_CNT"
| "dump_slot (DDump i) stop d \<longleftrightarrow> i = d mod COMPRESS_BLOCK_CNT"
| "dump_slot (DSignal i) stop d \<longleftrightarrow> i = d mod COMPRESS_BLOCK_CNT"
| "dump_slot DExit stop d \<longleftrightarrow> True"

definition current_ok :: "app_pc \<Rightarrow> bytes \<Rightarrow> bytes \<Rightarrow> bool" where
  "current_ok pc block cur \<longleftrightarrow>
     (case pc of
        Running \<Rightarrow> block = cur | Padding \<Rightarrow> block = cur | Waiting r closing \<Rightarrow> r = cur
      | SetCompressDone \<Rightarrow> block = cur @ padding cur | SetDumpDone \<Rightarrow> block = cur @ padding cur
      | LastSignal \<Rightarrow> block = cur @ padding cur | _ \<Rightarrow> True)"

text \<open>
  \<open>w\<close> is what the single writer has; \<open>c\<close> blocks have been through the compressing thread and \<open>d\<close> through
  the dumping one.
\<close>

definition semaphores_ok :: "circular_buffer \<Rightarrow> bytes list \<times> bytes \<Rightarrow> nat \<Rightarrow> nat \<Rightarrow> bool" where
  "semaphores_ok s w c d \<longleftrightarrow>
     ring (filled_buffer s) (c + c_taken (compress_at s)) (length (given (app_at s) w)) 0
     \<and> ring (empty_buffer s) (acquired (app_at s) w) c 1
     \<and> ring (filled_compressed s) (d + d_taken (dump_at s)) (c + c_handed (compress_at s)) 0
     \<and> ring (empty_compressed s) (c + c_room (compress_at s)) d 1"

definition contents_ok :: "compressor \<Rightarrow> circular_buffer \<Rightarrow> bytes list \<times> bytes \<Rightarrow> nat \<Rightarrow> nat \<Rightarrow> bool" where
  "contents_ok C s w c d \<longleftrightarrow>
     (\<forall>k. c + c_stored (compress_at s) \<le> k \<and> k < length (given (app_at s) w) \<longrightarrow>
        buffer s (k mod COMPRESS_BLOCK_CNT) = given (app_at s) w ! k)
     \<and> (\<forall>k. d + d_dumped (dump_at s) \<le> k \<and> k < c + c_stored (compress_at s) \<longrightarrow>
        compressed s (k mod COMPRESS_BLOCK_CNT) = C (given (app_at s) w ! k))
     \<and> trace_file s = file_of C (take (d + d_dumped (dump_at s)) (given (app_at s) w))
     \<and> cur_block s = length (fst w) mod COMPRESS_BLOCK_CNT
     \<and> current_ok (app_at s) (buffer s (cur_block s)) (snd w)"

definition cb_tracks :: "compressor \<Rightarrow> bytes list \<Rightarrow> circular_buffer \<Rightarrow> bytes list \<times> bytes \<Rightarrow> nat \<Rightarrow> nat \<Rightarrow> bool" where
  "cb_tracks C rs s w c d \<longleftrightarrow>
     fold_opt fill rs ([], []) = Some w
     \<and> semaphores_ok s w c d \<and> contents_ok C s w c d
     \<and> compress_slot (compress_at s) (compress_done s) c \<and> dump_slot (dump_at s) (dump_done s) d"

lemma cb_tracks_order:
  assumes "cb_tracks C rs s w c d"
  shows "c + c_taken (compress_at s) \<le> length (given (app_at s) w)"
    and "acquired (app_at s) w \<le> c + COMPRESS_BLOCK_CNT"
    and "d + d_taken (dump_at s) \<le> c + c_handed (compress_at s)"
    and "c + c_room (compress_at s) \<le> d + COMPRESS_BLOCK_CNT"
  using assms ring_le0 ring_le1 unfolding cb_tracks_def semaphores_ok_def by blast+

lemma cb_tracks_counts:
  assumes "cb_tracks C rs s w c d"
  shows "c + c_stored (compress_at s) \<le> length (given (app_at s) w)" "d + d_dumped (dump_at s) \<le> length (given (app_at s) w)"
  using cb_tracks_order(1,3) [OF assms] by (cases "compress_at s"; cases "dump_at s"; simp)+

lemmas cb_tracks_defs = cb_tracks_def semaphores_ok_def contents_ok_def

lemma cb_tracks_init: "cb_tracks C [] CircularBuffer_Init ([], []) 0 0"
  by (simp add: cb_tracks_defs CircularBuffer_Init_def given_def acquired_def ring_def current_ok_def file_of_simps)

lemma inner_slot_start: "inner_slot 0 n \<longleftrightarrow> n mod COMPRESS_BLOCK_CNT = 0"
  by (simp add: inner_slot_def)

lemma inner_slot_at: "inner_slot i n \<Longrightarrow> i < COMPRESS_BLOCK_CNT \<Longrightarrow> i = n mod COMPRESS_BLOCK_CNT"
  by (simp add: inner_slot_def)

lemma inner_slot_end: "inner_slot i n \<Longrightarrow> \<not> i < COMPRESS_BLOCK_CNT \<Longrightarrow> n mod COMPRESS_BLOCK_CNT = 0"
  by (simp add: inner_slot_def)

lemma inner_slot_next: "inner_slot (Suc (n mod COMPRESS_BLOCK_CNT)) (Suc n)"
  using slot_less [of n] by (simp add: inner_slot_def mod_Suc_eq Suc_leI)

section \<open>Every step of the compressing thread\<close>

lemma cb_tracks_compress:
  assumes t: "cb_tracks C rs s w c d" and s: "compress_step C s = Some s'"
  shows "cb_tracks C rs s' w (c + (case compress_at s of CSignalEmpty _ \<Rightarrow> 1 | _ \<Rightarrow> 0)) d"
proof (cases "compress_at s")
  case CTop
  with s t show ?thesis
    by (cases "compress_done s") (auto simp: compress_step_def cb_tracks_defs inner_slot_start)
next
  case (CInner i)
  with s t inner_slot_at [of i c] inner_slot_end [of i c] show ?thesis
    by (cases "i < COMPRESS_BLOCK_CNT \<and> \<not> compress_done s") (auto simp: compress_step_def cb_tracks_defs)
next
  case (CFilled i)
  with s t show ?thesis
    by (auto simp: compress_step_def cb_tracks_defs intro: ring_wait)
next
  case (CEmpty i)
  with s t show ?thesis
    by (auto simp: compress_step_def cb_tracks_defs intro: ring_wait)
next
  case (CWork i)
  note order = cb_tracks_order [OF t]
  have new: "C (buffer s (c mod COMPRESS_BLOCK_CNT)) = C (given (app_at s) w ! c)"
    using t order(1) CWork by (simp add: cb_tracks_defs)
  have old: "k mod COMPRESS_BLOCK_CNT \<noteq> c mod COMPRESS_BLOCK_CNT" if "d + d_dumped (dump_at s) \<le> k" "k < c" for k
    using other_slot [of k c] that order(4) CWork by simp
  show ?thesis
    using CWork s t new old by (auto simp: compress_step_def cb_tracks_defs less_Suc_eq)
next
  case (CSignalFilled i)
  with s t show ?thesis
    by (auto simp: compress_step_def cb_tracks_defs intro: ring_signal)
next
  case (CSignalEmpty i)
  with s t inner_slot_next [of c] show ?thesis
    by (auto simp: compress_step_def cb_tracks_defs intro: ring_signal)
next
  case CExit
  with s show ?thesis by (simp add: compress_step_def)
qed

section \<open>Every step of the dumping thread\<close>

lemma Dump_frame: "Dump (C b) = frame C b"
  by (simp add: Dump_def frame_def Let_def)

lemma file_of_next: "d < length bs \<Longrightarrow> file_of C (take d bs) @ frame C (bs ! d) = file_of C (take (Suc d) bs)"
  by (simp add: take_Suc_conv_app_nth file_of_append file_of_simps)

lemma cb_tracks_dump:
  assumes t: "cb_tracks C rs s w c d" and s: "dump_step s = Some s'"
  shows "cb_tracks C rs s' w c (d + (case dump_at s of DSignal _ \<Rightarrow> 1 | _ \<Rightarrow> 0))"
proof (cases "dump_at s")
  case DTop
  with s t show ?thesis
    by (cases "dump_done s") (auto simp: dump_step_def cb_tracks_defs inner_slot_start)
next
  case (DInner i)
  with s t inner_slot_at [of i d] inner_slot_end [of i d] show ?thesis
    by (cases "i < COMPRESS_BLOCK_CNT \<and> \<not> dump_done s") (auto simp: dump_step_def cb_tracks_defs)
next
  case (DFilled i)
  with s t show ?thesis
    by (auto simp: dump_step_def cb_tracks_defs intro: ring_wait)
next
  case (DDump i)
  have h: "c_handed pc \<le> c_stored pc \<and> c_stored pc \<le> c_taken pc" for pc by (cases pc) simp_all
  note order = cb_tracks_order [OF t]
  have d: "d < c + c_stored (compress_at s)" "d < length (given (app_at s) w)"
    using order(1,3) DDump h [of "compress_at s"] by auto
  have "compressed s (d mod COMPRESS_BLOCK_CNT) = C (given (app_at s) w ! d)"
    using t DDump d(1) by (simp add: cb_tracks_defs)
  then have "trace_file s @ Dump (compressed s (d mod COMPRESS_BLOCK_CNT)) = file_of C (take (Suc d) (given (app_at s) w))"
    using t DDump file_of_next [OF d(2), of C] by (simp add: cb_tracks_defs Dump_frame)
  with DDump s t show ?thesis
    by (auto simp: dump_step_def cb_tracks_defs)
next
  case (DSignal i)
  with s t inner_slot_next [of d] show ?thesis
    by (auto simp: dump_step_def cb_tracks_defs intro: ring_signal)
next
  case DExit
  with s show ?thesis by (simp add: dump_step_def)
qed

section \<open>Every step of the program\<close>

lemma cur_next:
  "(if n mod COMPRESS_BLOCK_CNT + 1 = COMPRESS_BLOCK_CNT then 0 else n mod COMPRESS_BLOCK_CNT + 1) = Suc n mod COMPRESS_BLOCK_CNT"
  by (simp add: mod_Suc)

text \<open>The current slot is not one the compressing thread still has to read.\<close>

lemma current_free:
  assumes "cb_tracks C rs s w c d" "\<not> (\<exists>r cl. app_at s = Waiting r cl)" "c \<le> k" "k < length (fst w)"
  shows "k mod COMPRESS_BLOCK_CNT \<noteq> length (fst w) mod COMPRESS_BLOCK_CNT"
  using other_slot [of k "length (fst w)"] assms(2-4) cb_tracks_order(2) [OF assms(1)]
  by (cases "app_at s") (auto simp: acquired_def)

lemma cb_tracks_append:
  assumes t: "cb_tracks C rs s w c d" and r: "app_at s = Running" "length event \<le> COMPRESS_BLOCK_SIZE"
  shows "\<exists>w'. cb_tracks C (rs @ [event]) (StartAppend event closing s) w' c d"
proof -
  obtain bs cur where w: "w = (bs, cur)" by (cases w)
  have blk: "buffer s (length bs mod COMPRESS_BLOCK_CNT) = cur" "cur_block s = length bs mod COMPRESS_BLOCK_CNT"
    using t r(1) by (auto simp: cb_tracks_defs current_ok_def w)
  have free: "k mod COMPRESS_BLOCK_CNT \<noteq> length bs mod COMPRESS_BLOCK_CNT" if "c \<le> k" "k < length bs" for k
    using current_free [OF t _ that(1)] that(2) r(1) w by auto
  have run: "fold_opt fill (rs @ [event]) ([], []) = fill event w"
    using t by (simp add: cb_tracks_def fold_opt_append fill_def)
  show ?thesis
  proof (cases "length cur + length event \<le> COMPRESS_BLOCK_SIZE")
    case True
    have "cb_tracks C (rs @ [event]) (StartAppend event closing s) (bs, cur @ event) c d"
      using t r(1) True run free blk w
      by (auto simp: cb_tracks_defs StartAppend_def Let_def fill_def given_def acquired_def current_ok_def)
    then show ?thesis by blast
  next
    case False
    have "ring (signal (length bs mod COMPRESS_BLOCK_CNT) (filled_buffer s)) (c + c_taken (compress_at s)) (Suc (length bs)) 0"
      using t r(1) by (intro ring_signal) (auto simp: cb_tracks_defs given_def w)
    moreover have "c + c_stored (compress_at s) \<le> length bs" "d + d_dumped (dump_at s) \<le> length bs"
      using cb_tracks_counts [OF t] r(1) by (simp_all add: given_def w)
    ultimately have "cb_tracks C (rs @ [event]) (StartAppend event closing s) (bs @ [cur @ padding cur], event) c d"
      using t r(1) False run free blk w cur_next [of "length bs"]
      by (auto simp: cb_tracks_defs StartAppend_def Let_def fill_def given_def acquired_def current_ok_def nth_append less_Suc_eq)
    then show ?thesis by blast
  qed
qed

lemma slot_stop:
  "compress_slot pc stop c \<Longrightarrow> compress_slot pc True c" "dump_slot pc' stop d \<Longrightarrow> dump_slot pc' True d"
  by (cases pc; simp) (cases pc'; simp)

lemma cb_tracks_app:
  assumes t: "cb_tracks C rs s w c d" and s: "app_step s = Some s'"
  shows "cb_tracks C rs s' w c d"
proof -
  obtain bs cur where w: "w = (bs, cur)" by (cases w)
  have cb: "cur_block s = length bs mod COMPRESS_BLOCK_CNT"
    using t by (simp add: cb_tracks_defs w)
  have free: "k mod COMPRESS_BLOCK_CNT \<noteq> length bs mod COMPRESS_BLOCK_CNT"
    if "c \<le> k" "k < length bs" "\<And>r cl. app_at s \<noteq> Waiting r cl" for k
    using current_free [OF t _ that(1)] that(2,3) w by auto
  show ?thesis
  proof (cases "app_at s")
    case (Waiting r cl)
    with s cb obtain sem where sem: "wait (length bs mod COMPRESS_BLOCK_CNT) (empty_buffer s) = Some sem"
      and s': "s' = s\<lparr>empty_buffer := sem, buffer := (buffer s)(cur_block s := r), app_at := (if cl then Padding else Running)\<rparr>"
      by (auto simp: app_step_def StartAppend_wait_def Let_def)
    have "ring (empty_buffer s) (length bs) c 1"
      using t Waiting by (simp add: cb_tracks_defs acquired_def w)
    from ring_wait [OF this _ sem] have new: "ring sem (Suc (length bs)) c 1" by simp
    have "k mod COMPRESS_BLOCK_CNT \<noteq> length bs mod COMPRESS_BLOCK_CNT" if "c \<le> k" "k < length bs" for k
      using other_slot [of k "length bs"] that ring_le1 [OF new] by simp
    with t Waiting new cb show ?thesis
      by (cases cl) (auto simp: cb_tracks_defs s' w given_def acquired_def current_ok_def)
  next
    case Padding
    with s t free cb show ?thesis
      by (auto simp: app_step_def cb_tracks_defs w given_def acquired_def current_ok_def Let_def)
  next
    case LastSignal
    have "ring (signal (length bs mod COMPRESS_BLOCK_CNT) (filled_buffer s)) (c + c_taken (compress_at s)) (Suc (length bs)) 0"
      using t LastSignal by (intro ring_signal) (auto simp: cb_tracks_defs given_def w)
    moreover have "c + c_stored (compress_at s) \<le> length bs" "d + d_dumped (dump_at s) \<le> length bs"
      using cb_tracks_counts [OF t] LastSignal by (simp_all add: given_def w)
    ultimately show ?thesis
      using s t LastSignal cb w
      by (auto simp: app_step_def cb_tracks_defs given_def acquired_def current_ok_def Let_def nth_append less_Suc_eq)
  next
    case SetCompressDone
    with s t slot_stop(1) [of "compress_at s" "compress_done s" c] show ?thesis
      by (auto simp: app_step_def cb_tracks_defs given_def acquired_def current_ok_def)
  next
    case SetDumpDone
    with s t slot_stop(2) [of "dump_at s" "dump_done s" d] show ?thesis
      by (auto simp: app_step_def cb_tracks_defs given_def acquired_def current_ok_def)
  next
    case JoinCompress
    with s t show ?thesis
      by (auto simp: app_step_def cb_tracks_defs given_def acquired_def current_ok_def split: if_splits)
  next
    case JoinDump
    with s t show ?thesis
      by (auto simp: app_step_def cb_tracks_defs given_def acquired_def current_ok_def split: if_splits)
  qed (use s in \<open>simp_all add: app_step_def\<close>)
qed

lemma cb_tracks_step:
  assumes "cb_tracks C rs s w c d" "cb_step C xs s s'"
  shows "\<exists>w' c' d'. cb_tracks C (rs @ xs) s' w' c' d'"
  using assms(2)
proof (cases rule: cb_step.cases)
  case (Append event)
  with cb_tracks_append [OF assms(1)] show ?thesis by blast
next
  case Close
  with cb_tracks_append [OF assms(1), of "[EndEventLabel]" True] show ?thesis
    by (force simp: COMPRESS_BLOCK_SIZE_def)
next
  case App
  from cb_tracks_app [OF assms(1) App(2)] show ?thesis unfolding App(1) append_Nil2 by blast
next
  case Compress
  from cb_tracks_compress [OF assms(1) Compress(2)] show ?thesis unfolding Compress(1) append_Nil2 by blast
next
  case Dumping
  from cb_tracks_dump [OF assms(1) Dumping(2)] show ?thesis unfolding Dumping(1) append_Nil2 by blast
qed

lemma cb_tracks_run: "cb_run C rs s \<Longrightarrow> \<exists>w c d. cb_tracks C rs s w c d"
proof (induction rule: cb_steps.induct)
  case Start
  show ?case using cb_tracks_init by blast
next
  case (Step rs s xs s')
  then show ?case using cb_tracks_step by blast
qed

section \<open>What the file holds\<close>

definition record_ok :: "bytes \<Rightarrow> bool" where
  "record_ok r \<longleftrightarrow> length r \<le> COMPRESS_BLOCK_SIZE"

lemma run_records: "cb_steps C s0 rs s \<Longrightarrow> list_all record_ok rs"
  by (induction rule: cb_steps.induct)
    (auto simp: record_ok_def COMPRESS_BLOCK_SIZE_def elim!: cb_stepE)

text \<open>The records, cut_into into blocks.\<close>

definition cut_into :: "bytes list \<Rightarrow> bytes list list \<Rightarrow> bool" where
  "cut_into rs gs \<longleftrightarrow> concat gs = rs \<and> list_all (\<lambda>g. length (concat g) \<le> COMPRESS_BLOCK_SIZE) gs"

definition padded :: "bytes list \<Rightarrow> bytes" where
  "padded g = concat g @ padding (concat g)"

lemma filled_blocks:
  assumes "fold_opt fill rs ([], []) = Some w" "list_all record_ok rs"
  shows "\<exists>gs g. w = (map padded gs, concat g) \<and> cut_into rs (gs @ [g]) \<and> (rs \<noteq> [] \<longrightarrow> [] \<notin> set (gs @ [g]))"
proof -
  have r: "list_all (\<lambda>r. length r \<le> COMPRESS_BLOCK_SIZE) rs"
    using assms(2) by (simp add: list_all_iff record_ok_def)
  have p: "padded = (\<lambda>h. concat h @ padding (concat h))"
    by (simp add: fun_eq_iff padded_def)
  obtain gs g where "w = (map padded gs, concat g)" "concat gs @ g = rs" "length (concat g) \<le> COMPRESS_BLOCK_SIZE"
    "list_all (\<lambda>h. h \<noteq> [] \<and> length (concat h @ padding (concat h)) \<le> COMPRESS_BLOCK_SIZE) gs" "g = [] \<longrightarrow> rs = []"
    using rbuf.emit_all [of "([], [])" "[]" "[]" rs] assms(1) r unfolding p by auto
  then show ?thesis
    by (intro exI [of _ gs] exI [of _ g]) (auto simp: cut_into_def list_all_iff)
qed

lemma file_is_prefix:
  assumes "cb_run C rs s"
  shows "\<exists>gs d. cut_into rs gs \<and> trace_file s = file_of C (map padded (take d gs))"
proof -
  obtain w c d where t: "cb_tracks C rs s w c d" using cb_tracks_run [OF assms] by blast
  obtain gs g where w: "w = (map padded gs, concat g)" and rs: "cut_into rs (gs @ [g])"
    using filled_blocks [OF _ run_records [OF assms]] t by (auto simp: cb_tracks_def)
  have g: "given (app_at s) w = map padded (gs @ [g]) \<or> given (app_at s) w = map padded gs"
    by (simp add: given_def w padded_def)
  have "\<exists>e. take n (given (app_at s) w) = map padded (take e (gs @ [g]))" for n
    using g
  proof
    assume "given (app_at s) w = map padded (gs @ [g])"
    then show ?thesis by (intro exI [of _ n]) (simp only: take_map)
  next
    assume "given (app_at s) w = map padded gs"
    then show ?thesis by (intro exI [of _ "min n (length gs)"]) (simp add: take_map min_def)
  qed
  then obtain e where "take (d + d_dumped (dump_at s)) (given (app_at s) w) = map padded (take e (gs @ [g]))" by blast
  moreover have "trace_file s = file_of C (take (d + d_dumped (dump_at s)) (given (app_at s) w))"
    using t by (simp add: cb_tracks_defs)
  ultimately show ?thesis using rs by metis
qed

section \<open>The flags\<close>

definition flags_ok :: "circular_buffer \<Rightarrow> bool" where
  "flags_ok s \<longleftrightarrow>
     (compress_at s = CExit \<longrightarrow> compress_done s) \<and> (dump_at s = DExit \<longrightarrow> dump_done s)
     \<and> (compress_done s \<longrightarrow> app_at s \<in> {SetDumpDone, LastSignal, JoinCompress, JoinDump, Closed})
     \<and> (dump_done s \<longrightarrow> app_at s \<in> {LastSignal, JoinCompress, JoinDump, Closed})
     \<and> (app_at s \<in> {JoinDump, Closed} \<longrightarrow> compress_at s = CExit)
     \<and> (app_at s = Closed \<longrightarrow> dump_at s = DExit)"

lemma flags_app: "flags_ok s \<Longrightarrow> app_step s = Some s' \<Longrightarrow> flags_ok s'"
proof (cases "app_at s")
  case (Waiting r cl)
  assume "flags_ok s" "app_step s = Some s'"
  with Waiting show ?thesis
    by (cases cl) (auto simp: flags_ok_def app_step_def StartAppend_wait_def)
qed (clarsimp simp: flags_ok_def app_step_def Let_def split: if_splits)+

lemma flags_compress: "flags_ok s \<Longrightarrow> compress_step C s = Some s' \<Longrightarrow> flags_ok s'"
  by (cases "compress_at s") (clarsimp simp: flags_ok_def compress_step_def)+

lemma flags_dump: "flags_ok s \<Longrightarrow> dump_step s = Some s' \<Longrightarrow> flags_ok s'"
  by (cases "dump_at s") (clarsimp simp: flags_ok_def dump_step_def)+

lemma flags_append: "flags_ok s \<Longrightarrow> app_at s = Running \<Longrightarrow> flags_ok (StartAppend r closing s)"
  by (clarsimp simp: flags_ok_def StartAppend_def Let_def)

lemma flags_step: "flags_ok s \<Longrightarrow> cb_step C xs s s' \<Longrightarrow> flags_ok s'"
  by (erule cb_stepE) (blast intro: flags_app flags_compress flags_dump flags_append)+

lemma flags_steps: "cb_steps C s0 rs s \<Longrightarrow> flags_ok s0 \<Longrightarrow> flags_ok s"
  by (induction rule: cb_steps.induct) (auto intro: flags_step)

lemma flags_run: "cb_run C rs s \<Longrightarrow> flags_ok s"
  by (erule flags_steps) (simp add: flags_ok_def CircularBuffer_Init_def)

section \<open>No writer waits for ever before the close\<close>

lemma compress_blocked:
  assumes t: "cb_tracks C rs s w c d" and "compress_step C s = None" "compress_at s \<noteq> CExit"
  shows "(\<exists>i. compress_at s = CFilled i) \<and> c = length (given (app_at s) w)
    \<or> (\<exists>i. compress_at s = CEmpty i) \<and> c = d + COMPRESS_BLOCK_CNT"
proof -
  consider i where "compress_at s = CFilled i" | i where "compress_at s = CEmpty i"
    using assms(2,3) by (cases "compress_at s") (auto simp: compress_step_def)
  then show ?thesis
  proof cases
    case 1
    then have "c = length (given (app_at s) w)"
      using t assms(2) by (intro ring_blocked0 [of "filled_buffer s"]) (auto simp: cb_tracks_defs compress_step_def)
    with 1 show ?thesis by blast
  next
    case 2
    then have "c = d + COMPRESS_BLOCK_CNT"
      using t assms(2) by (intro ring_blocked1 [of "empty_compressed s"]) (auto simp: cb_tracks_defs compress_step_def)
    with 2 show ?thesis by blast
  qed
qed

lemma app_blocked:
  assumes t: "cb_tracks C rs s w c d" and "app_at s = Waiting r cl" "app_step s = None"
  shows "length (given (app_at s) w) = c + COMPRESS_BLOCK_CNT"
proof -
  have "acquired (app_at s) w = c + COMPRESS_BLOCK_CNT"
    using assms
    by (intro ring_blocked1 [of "empty_buffer s"])
      (auto simp: cb_tracks_defs app_step_def StartAppend_wait_def acquired_def Let_def)
  with assms(2) show ?thesis by (simp add: given_def acquired_def)
qed

lemma idle_workers:
  assumes t: "cb_tracks C rs s w c d" and f: "compress_at s \<noteq> CExit" "dump_at s \<noteq> DExit"
    and stuck: "compress_step C s = None" "dump_step s = None"
  shows "(\<exists>i. compress_at s = CFilled i) \<and> (\<exists>j. dump_at s = DFilled j) \<and> c = length (given (app_at s) w) \<and> d = c"
proof -
  obtain j where j: "dump_at s = DFilled j"
    using stuck(2) f(2) by (cases "dump_at s") (auto simp: dump_step_def)
  have d: "d = c + c_handed (compress_at s)"
    using t j stuck(2) by (intro ring_blocked0 [of "filled_compressed s"]) (auto simp: cb_tracks_defs dump_step_def)
  from compress_blocked [OF t stuck(1) f(1)] j d show ?thesis
    using CNT_pos by auto
qed

lemma waiting_served:
  assumes run: "cb_run C rs s" and w: "app_at s = Waiting r cl"
  shows "app_step s \<noteq> None \<or> compress_step C s \<noteq> None \<or> dump_step s \<noteq> None"
proof (rule ccontr)
  assume "\<not> ?thesis"
  then have stuck: "app_step s = None" "compress_step C s = None" "dump_step s = None" by auto
  obtain v c d where t: "cb_tracks C rs s v c d" using cb_tracks_run [OF run] by blast
  have "compress_at s \<noteq> CExit" "dump_at s \<noteq> DExit"
    using flags_run [OF run] w by (auto simp: flags_ok_def)
  with idle_workers [OF t _ _ stuck(2,3)] have "c = length (given (app_at s) v)" by blast
  with app_blocked [OF t w stuck(1)] CNT_pos show False by simp
qed

section \<open>Closing\<close>

lemma drained_file:
  assumes run: "cb_run C rs s" and "app_at s = Closed"
    and zero: "\<And>i. i < COMPRESS_BLOCK_CNT \<Longrightarrow> filled_buffer s i = 0 \<and> filled_compressed s i = 0"
  shows "\<exists>gs. cut_into rs gs \<and> (rs \<noteq> [] \<longrightarrow> [] \<notin> set gs) \<and> trace_file s = file_of C (map padded gs)"
proof -
  obtain w c d where t: "cb_tracks C rs s w c d" using cb_tracks_run [OF run] by blast
  obtain gs g where w: "w = (map padded gs, concat g)" and rs: "cut_into rs (gs @ [g])" "rs \<noteq> [] \<longrightarrow> [] \<notin> set (gs @ [g])"
    using filled_blocks [OF _ run_records [OF run]] t by (auto simp: cb_tracks_def)
  have ex: "compress_at s = CExit" "dump_at s = DExit"
    using flags_run [OF run] assms(2) by (auto simp: flags_ok_def)
  have "c = length (given (app_at s) w)"
    using t ex zero by (intro ring_blocked0 [of "filled_buffer s"]) (auto simp: cb_tracks_defs wait_def)
  moreover have "d = c"
    using t ex zero by (intro ring_blocked0 [of "filled_compressed s"]) (auto simp: cb_tracks_defs wait_def)
  moreover have "given (app_at s) w = map padded (gs @ [g])"
    using assms(2) by (simp add: given_def w padded_def)
  ultimately have "trace_file s = file_of C (map padded (gs @ [g]))"
    using t ex by (simp add: cb_tracks_defs)
  with rs show ?thesis by blast
qed

text \<open>The file as the tools see it: the padding is a run of placeholder events.\<close>

definition with_padding :: "trace_event list \<Rightarrow> trace_event list" where
  "with_padding es = es @ replicate (COMPRESS_BLOCK_SIZE - length (block_of es)) PlaceHolder"

lemma padded_events: "padded (map event_bytes es) = block_of (with_padding es)"
proof -
  have "concat (replicate n [PlaceHolderLabel]) = replicate n PlaceHolderLabel" for n
    by (induction n) simp_all
  then show ?thesis
    by (simp add: padded_def padding_def with_padding_def block_of_def)
qed

lemma block_of_append: "block_of (xs @ ys) = block_of xs @ block_of ys"
  by (simp add: block_of_def)

lemma drained_reads_back:
  assumes ok: "lz4_ok C D" and es: "EndEvent \<notin> set es" "PlaceHolder \<notin> set es"
    and run: "cb_run C (map event_bytes (es @ [EndEvent])) s" "app_at s = Closed"
    and zero: "\<And>i. i < COMPRESS_BLOCK_CNT \<Longrightarrow> filled_buffer s i = 0 \<and> filled_compressed s i = 0"
  shows "\<exists>es' views. filter (\<lambda>e. e \<noteq> PlaceHolder) es' = es @ [EndEvent] \<and> list_all2 event_shows views es'
    \<and> (\<forall>s0. for_each_event D body (TraceIter (trace_file s)) no_ptrs s0 = fold_opt body views s0)"
proof -
  let ?rs = "map event_bytes (es @ [EndEvent])"
  obtain gs where gs: "cut_into ?rs gs" "[] \<notin> set gs" "trace_file s = file_of C (map padded gs)"
    using drained_file [OF run zero] by auto
  obtain hs where hs: "gs = map (map event_bytes) hs" "concat hs = es @ [EndEvent]"
    using map_concat_split [of gs event_bytes "es @ [EndEvent]"] gs(1) by (auto simp: cut_into_def)
  let ?ps = "map with_padding hs"
  have ne: "[] \<notin> set hs" using gs(2) unfolding hs(1) by force
  have "EndEvent \<notin> set (concat (butlast hs))"
    by (rule end_in_last [OF hs(2) ne es(1)])
  then have no_end: "EndEvent \<notin> set (concat (butlast ?ps))"
    by (auto simp: with_padding_def map_butlast [symmetric])
  have "list_all (\<lambda>g. length (block_of g) \<le> COMPRESS_BLOCK_SIZE) hs"
    using gs(1) by (simp add: cut_into_def hs(1) list_all_iff block_of_def)
  moreover have "length (block_of (replicate n PlaceHolder)) = n" for n
    by (induction n) (simp_all add: block_of_Cons)
  ultimately have bounded: "list_all (\<lambda>g. length (block_of g) \<le> COMPRESS_BLOCK_SIZE) ?ps"
    by (simp add: list_all_iff with_padding_def block_of_append)
  have "map padded gs = map block_of ?ps"
    by (simp add: hs(1) padded_events)
  then have contents: "trace_file s = file_of C (map block_of ?ps)"
    using gs(3) by simp
  have "[] \<notin> set ?ps" using ne by (auto simp: with_padding_def)
  then obtain views where "list_all2 event_shows views (concat ?ps)"
    "\<And>s0. for_each_event D body (TraceIter (trace_file s)) no_ptrs s0 = fold_opt body views s0"
    using read_file [OF ok, of "TraceIter (trace_file s)" "[]" ?ps body no_ptrs] no_end bounded contents
    by (auto simp: TraceIter_def)
  moreover have "filter (\<lambda>e. e \<noteq> PlaceHolder) (concat (map with_padding xs)) = filter (\<lambda>e. e \<noteq> PlaceHolder) (concat xs)" for xs
    by (induction xs) (simp_all add: with_padding_def)
  then have "filter (\<lambda>e. e \<noteq> PlaceHolder) (concat ?ps) = es @ [EndEvent]"
    using hs(2) es(2) by (auto simp: filter_id_conv)
  ultimately show ?thesis by blast
qed

section \<open>Runs that lose the trace\<close>

lemma steps_one: "cb_steps C s0 rs s \<Longrightarrow> cb_step C [] s s' \<Longrightarrow> cb_steps C s0 rs s'"
  using cb_steps.Step [of C s0 rs s "[]" s'] by simp

lemmas steps_app = steps_one [OF _ cb_step.App]
lemmas steps_compress = steps_one [OF _ cb_step.Compress]
lemmas steps_dump = steps_one [OF _ cb_step.Dumping]

lemma append_fits:
  "cb_steps C s0 rs s \<Longrightarrow> app_at s = Running \<Longrightarrow> length (buffer s (cur_block s)) + length (concat es) \<le> COMPRESS_BLOCK_SIZE \<Longrightarrow>
   cb_steps C s0 (rs @ es) (s\<lparr>buffer := (buffer s)(cur_block s := buffer s (cur_block s) @ concat es)\<rparr>)"
proof (induction es arbitrary: rs s)
  case (Cons e es)
  have "cb_step C [e] s (StartAppend e False s)"
    using Cons.prems by (intro cb_step.Append) simp_all
  moreover have app: "StartAppend e False s = s\<lparr>buffer := (buffer s)(cur_block s := buffer s (cur_block s) @ e)\<rparr>"
    using Cons.prems(2,3) by (simp add: StartAppend_def Let_def)
  ultimately have "cb_steps C s0 (rs @ [e]) (s\<lparr>buffer := (buffer s)(cur_block s := buffer s (cur_block s) @ e)\<rparr>)"
    using Cons.prems(1) by (metis cb_steps.Step)
  from Cons.IH [OF this] Cons.prems show ?case by (simp cong: if_cong)
qed simp

text \<open>The program closes before the workers look at their flags for the first time.\<close>

definition at_join :: "bytes list \<Rightarrow> circular_buffer" where
  "at_join es =
     (let block = concat es @ [EndEventLabel] in
      CircularBuffer_Init\<lparr>buffer := (\<lambda>_. [])(0 := block @ padding block), filled_buffer := (\<lambda>_. 0)(0 := 1),
        compress_done := True, dump_done := True, app_at := JoinCompress\<rparr>)"

lemma closes_early:
  assumes "cb_steps C s0 [] s" "length (concat es) < COMPRESS_BLOCK_SIZE" "s = CircularBuffer_Init\<lparr>dump_at := pc\<rparr>"
  shows "cb_steps C s0 (es @ [[EndEventLabel]]) ((at_join es)\<lparr>dump_at := pc\<rparr>)"
proof -
  let ?s1 = "s\<lparr>buffer := (\<lambda>_. [])(0 := concat es)\<rparr>"
  have "cb_steps C s0 es ?s1"
    using append_fits [OF assms(1), of es] assms(2,3) by (simp add: CircularBuffer_Init_def)
  moreover have "cb_step C [[EndEventLabel]] ?s1 (StartAppend [EndEventLabel] True ?s1)"
    using assms(3) by (intro cb_step.Close) (simp add: CircularBuffer_Init_def)
  ultimately have c: "cb_steps C s0 (es @ [[EndEventLabel]]) (StartAppend [EndEventLabel] True ?s1)"
    by (rule cb_steps.Step)
  show ?thesis
    using c [THEN steps_app, THEN steps_app, THEN steps_app, THEN steps_app] assms(2,3)
    by (simp add: app_step_def StartAppend_def Let_def CircularBuffer_Init_def at_join_def signal_def)
qed

lemma loses_all:
  assumes "length (concat es) < COMPRESS_BLOCK_SIZE"
  shows "\<exists>s. cb_run C (es @ [[EndEventLabel]]) s \<and> app_at s = Closed \<and> trace_file s = []"
proof -
  let ?s = "(at_join es)\<lparr>dump_at := DTop\<rparr>"
  have j: "cb_run C (es @ [[EndEventLabel]]) ?s"
    by (rule closes_early [OF cb_steps.Start assms]) (simp add: CircularBuffer_Init_def)
  let ?s1 = "?s\<lparr>compress_at := CExit, dump_at := DExit\<rparr>"
  have "cb_run C (es @ [[EndEventLabel]]) ?s1"
    using j [THEN steps_compress, THEN steps_dump]
    by (simp add: compress_step_def dump_step_def at_join_def CircularBuffer_Init_def Let_def)
  from this [THEN steps_app, THEN steps_app]
  have "cb_run C (es @ [[EndEventLabel]]) (?s1\<lparr>app_at := Closed\<rparr>)"
    by (simp add: app_step_def at_join_def CircularBuffer_Init_def Let_def)
  then show ?thesis
    by (intro exI [of _ "?s1\<lparr>app_at := Closed\<rparr>"]) (simp add: at_join_def CircularBuffer_Init_def Let_def)
qed

text \<open>The dumping thread already waits for the first block, the compressing thread has not started.\<close>

lemma hangs:
  assumes "length (concat es) < COMPRESS_BLOCK_SIZE"
  shows "\<exists>s. cb_run C (es @ [[EndEventLabel]]) s \<and> app_at s = JoinDump \<and> trace_file s = []
    \<and> (\<forall>xs s'. \<not> cb_step C xs s s')"
proof -
  have "cb_run C [] (CircularBuffer_Init\<lparr>dump_at := DFilled 0\<rparr>)"
    using cb_steps.Start [of C CircularBuffer_Init, THEN steps_dump, THEN steps_dump]
    by (simp add: dump_step_def CircularBuffer_Init_def COMPRESS_BLOCK_CNT_def)
  from closes_early [OF this assms refl]
  have j: "cb_run C (es @ [[EndEventLabel]]) ((at_join es)\<lparr>dump_at := DFilled 0\<rparr>)" .
  let ?s = "(at_join es)\<lparr>dump_at := DFilled 0, compress_at := CExit, app_at := JoinDump\<rparr>"
  have "cb_run C (es @ [[EndEventLabel]]) ?s"
    using j [THEN steps_compress, THEN steps_app]
    by (simp add: compress_step_def app_step_def at_join_def CircularBuffer_Init_def Let_def)
  moreover have "\<not> cb_step C xs ?s s'" for xs s'
    by (auto simp: cb_step_iff app_step_def compress_step_def dump_step_def wait_def at_join_def CircularBuffer_Init_def Let_def)
  ultimately show ?thesis
    by (intro exI [of _ ?s]) (simp add: at_join_def CircularBuffer_Init_def Let_def)
qed

section \<open>Closing while both workers wait\<close>

definition calm :: "circular_buffer \<Rightarrow> nat \<Rightarrow> nat \<Rightarrow> nat \<Rightarrow> bool" where
  "calm s n c d \<longleftrightarrow>
     app_at s \<in> {SetCompressDone, SetDumpDone, LastSignal, JoinCompress, JoinDump, Closed} \<and> n \<le> c \<and> n \<le> d
     \<and> (c = n \<longrightarrow> compress_at s \<noteq> CTop \<and> (\<forall>i. compress_at s \<noteq> CInner i) \<and> compress_at s \<noteq> CExit)
     \<and> (d = n \<longrightarrow> dump_at s \<noteq> DTop \<and> (\<forall>i. dump_at s \<noteq> DInner i) \<and> dump_at s \<noteq> DExit)"

lemma calm_app: "calm s n c d \<Longrightarrow> app_step s = Some s' \<Longrightarrow> calm s' n c d"
  by (cases "app_at s") (clarsimp simp: calm_def app_step_def Let_def split: if_splits)+

lemma calm_compress:
  "calm s n c d \<Longrightarrow> compress_step C s = Some s' \<Longrightarrow> calm s' n (c + (case compress_at s of CSignalEmpty _ \<Rightarrow> 1 | _ \<Rightarrow> 0)) d"
  by (cases "compress_at s") (clarsimp simp: calm_def compress_step_def)+

lemma calm_dump:
  "calm s n c d \<Longrightarrow> dump_step s = Some s' \<Longrightarrow> calm s' n c (d + (case dump_at s of DSignal _ \<Rightarrow> 1 | _ \<Rightarrow> 0))"
  by (cases "dump_at s") (clarsimp simp: calm_def dump_step_def)+

lemma calm_steps:
  assumes "cb_steps C s0 xs s" "cb_tracks C rs s0 w c d" "calm s0 n c d"
  shows "xs = [] \<and> (\<exists>c d. cb_tracks C rs s w c d \<and> calm s n c d)"
  using assms(1)
proof (induction rule: cb_steps.induct)
  case Start
  then show ?case using assms(2,3) by blast
next
  case (Step ys s1 xs s')
  then obtain c d where t: "cb_tracks C rs s1 w c d" "calm s1 n c d" and ys: "ys = []" by blast
  from Step.hyps(2) show ?case
  proof (cases rule: cb_step.cases)
    case App
    with t ys cb_tracks_app calm_app show ?thesis by blast
  next
    case Compress
    with t ys cb_tracks_compress calm_compress show ?thesis by blast
  next
    case Dumping
    with t ys cb_tracks_dump calm_dump show ?thesis by blast
  qed (use t(2) in \<open>auto simp: calm_def\<close>)
qed

lemma calm_close:
  assumes "cb_run C rs s0" "app_at s0 = SetCompressDone" "compress_step C s0 = None" "dump_step s0 = None"
    and "cb_steps C s0 xs s" "app_at s = Closed"
  shows "\<exists>gs. cut_into rs gs \<and> trace_file s = file_of C (map padded gs)"
proof -
  obtain w c d where t: "cb_tracks C rs s0 w c d" using cb_tracks_run [OF assms(1)] by blast
  obtain gs g where w: "w = (map padded gs, concat g)" and rs: "cut_into rs (gs @ [g])"
    using filled_blocks [OF _ run_records [OF assms(1)]] t by (auto simp: cb_tracks_def)
  have "compress_at s0 \<noteq> CExit" "dump_at s0 \<noteq> DExit"
    using flags_run [OF assms(1)] assms(2) by (auto simp: flags_ok_def)
  from idle_workers [OF t this assms(3,4)] have "calm s0 (length gs) c d"
    using assms(2) by (auto simp: calm_def given_def w)
  from calm_steps [OF assms(5) t this] obtain c' d' where t': "cb_tracks C rs s w c' d'" "calm s (length gs) c' d'"
    by blast
  have g: "given (app_at s) w = map padded (gs @ [g])"
    using assms(6) by (simp add: given_def w padded_def)
  have "length (gs @ [g]) \<le> d'"
    using t'(2) flags_steps [OF assms(5) flags_run [OF assms(1)]] assms(6)
    by (auto simp: calm_def flags_ok_def Suc_le_eq order_less_le)
  then have "trace_file s = file_of C (map padded (gs @ [g]))"
    using t'(1) g by (simp add: cb_tracks_defs)
  with rs show ?thesis by blast
qed

lemma steps_trans: "cb_steps C s xs s' \<Longrightarrow> cb_steps C s0 rs s \<Longrightarrow> cb_steps C s0 (rs @ xs) s'"
proof (induction rule: cb_steps.induct)
  case (Step ys s1 xs s')
  from cb_steps.Step [OF Step.IH [OF Step.prems] Step.hyps(2)] show ?case by simp
qed simp

section \<open>A waiting writer is served\<close>

text \<open>
  Steps taken while the writer's wait does not succeed: only the workers take any, in any order.
\<close>

inductive blocked_steps :: "compressor \<Rightarrow> circular_buffer \<Rightarrow> nat \<Rightarrow> circular_buffer \<Rightarrow> bool" for C s where
  None_yet: "blocked_steps C s 0 s"
| Another: "blocked_steps C s n s1 \<Longrightarrow> app_step s1 = None \<Longrightarrow> cb_step C [] s1 s2 \<Longrightarrow> blocked_steps C s (Suc n) s2"

text \<open>How far a worker is from passing its block on, on any way through its loops.\<close>

fun compress_rank :: "compress_pc \<Rightarrow> nat" where
  "compress_rank (CInner i) = (if i < COMPRESS_BLOCK_CNT then 7 else 9)"
| "compress_rank CTop = 8"
| "compress_rank (CFilled _) = 6"
| "compress_rank (CEmpty _) = 5"
| "compress_rank (CWork _) = 4"
| "compress_rank (CSignalFilled _) = 3"
| "compress_rank (CSignalEmpty _) = 2"
| "compress_rank CExit = 0"

fun dump_rank :: "dump_pc \<Rightarrow> nat" where
  "dump_rank (DInner i) = (if i < COMPRESS_BLOCK_CNT then 5 else 7)"
| "dump_rank DTop = 6"
| "dump_rank (DFilled _) = 4"
| "dump_rank (DDump _) = 3"
| "dump_rank (DSignal _) = 2"
| "dump_rank DExit = 0"

text \<open>The steps left before the compressing thread frees a block; the dumping thread cannot run ahead.\<close>

definition steps_left :: "circular_buffer \<Rightarrow> nat \<Rightarrow> nat \<Rightarrow> nat" where
  "steps_left s c d = 16 * compress_rank (compress_at s) + 8 * (c + c_handed (compress_at s) - d) + dump_rank (dump_at s)"

lemma compress_closer:
  assumes "compress_step C s = Some s'" "\<not> compress_done s" "\<And>i. compress_at s \<noteq> CSignalEmpty i"
  shows "steps_left s' c d < steps_left s c d"
proof -
  have "compress_rank (compress_at s') < compress_rank (compress_at s)"
    "c_handed (compress_at s') \<le> c_handed (compress_at s) + 1" "dump_at s' = dump_at s"
    using assms by (cases "compress_at s"; auto simp: compress_step_def)+
  then show ?thesis by (simp add: steps_left_def)
qed

lemma dump_closer:
  assumes "dump_step s = Some s'" "\<not> dump_done s" "d + d_taken (dump_at s) \<le> c + c_handed (compress_at s)"
  shows "steps_left s' c (d + (case dump_at s of DSignal _ \<Rightarrow> 1 | _ \<Rightarrow> 0)) < steps_left s c d"
proof -
  have at: "compress_at s' = compress_at s"
    using assms(1) by (cases "dump_at s") (auto simp: dump_step_def)
  show ?thesis
    using assms by (cases "dump_at s") (auto simp: dump_step_def at steps_left_def)
qed

lemma steps_left_bound:
  assumes "cb_tracks C rs s w c d"
  shows "steps_left s c d \<le> 1351"
proof -
  have "c_handed (compress_at s) \<le> c_room (compress_at s)" by (cases "compress_at s") auto
  then have "c + c_handed (compress_at s) - d \<le> COMPRESS_BLOCK_CNT"
    using cb_tracks_order(4) [OF assms] by linarith
  moreover have "compress_rank (compress_at s) \<le> 9" by (cases "compress_at s") auto
  moreover have "dump_rank (dump_at s) \<le> 7" by (cases "dump_at s") auto
  ultimately show ?thesis by (simp add: steps_left_def COMPRESS_BLOCK_CNT_def)
qed

lemma blocked_compress:
  assumes "cb_tracks C rs s w c d" "app_at s = Waiting r cl" "app_step s = None" "\<not> compress_done s" "compress_step C s = Some s2"
  shows "app_at s2 = Waiting r cl
    \<and> (\<exists>c' d'. cb_tracks C rs s2 w c' d' \<and> (app_step s2 = None \<longrightarrow> steps_left s2 c' d' < steps_left s c d))"
proof -
  have w2: "app_at s2 = Waiting r cl"
    using assms(2,5) by (auto simp: compress_step_def split: compress_pc.splits)
  have t2: "cb_tracks C rs s2 w (c + (case compress_at s of CSignalEmpty _ \<Rightarrow> 1 | _ \<Rightarrow> 0)) d"
    by (rule cb_tracks_compress [OF assms(1,5)])
  show ?thesis
  proof (cases "\<exists>i. compress_at s = CSignalEmpty i")
    case True
    have "app_step s2 \<noteq> None"
    proof
      assume "app_step s2 = None"
      from app_blocked [OF t2 w2 this] app_blocked [OF assms(1-3)] assms(2) w2 True show False by auto
    qed
    with w2 t2 show ?thesis by (intro conjI exI impI) (assumption | simp)+
  next
    case False
    then have "cb_tracks C rs s2 w c d" using t2 by (auto split: compress_pc.splits)
    moreover have "steps_left s2 c d < steps_left s c d"
      by (rule compress_closer [OF assms(5,4)]) (use False in blast)
    ultimately show ?thesis using w2 by blast
  qed
qed

lemma blocked_dump:
  assumes "cb_tracks C rs s w c d" "app_at s = Waiting r cl" "\<not> dump_done s" "dump_step s = Some s2"
  shows "app_at s2 = Waiting r cl
    \<and> (\<exists>c' d'. cb_tracks C rs s2 w c' d' \<and> (app_step s2 = None \<longrightarrow> steps_left s2 c' d' < steps_left s c d))"
proof -
  have "app_at s2 = Waiting r cl" using assms(2,4) by (auto simp: dump_step_def split: dump_pc.splits)
  with dump_closer [OF assms(4,3) cb_tracks_order(3) [OF assms(1)]] cb_tracks_dump [OF assms(1,4)]
  show ?thesis by (intro conjI exI) auto
qed

lemma blocked_run:
  assumes "blocked_steps C s n s'" "cb_run C rs s" "app_at s = Waiting r cl"
  shows "cb_run C rs s' \<and> app_at s' = Waiting r cl
    \<and> (\<exists>w c d. cb_tracks C rs s' w c d \<and> (app_step s' = None \<longrightarrow> n + steps_left s' c d \<le> 1351))"
  using assms
proof (induction rule: blocked_steps.induct)
  case None_yet
  then obtain w c d where t: "cb_tracks C rs s w c d" using cb_tracks_run by blast
  with None_yet steps_left_bound [OF t] show ?case
    by (intro conjI exI [of _ w] exI [of _ c] exI [of _ d]) simp_all
next
  case (Another n s1 s2)
  then obtain w c d where run: "cb_run C rs s1" and wt: "app_at s1 = Waiting r cl"
    and t: "cb_tracks C rs s1 w c d" and left: "n + steps_left s1 c d \<le> 1351" by auto
  have f: "\<not> compress_done s1" "\<not> dump_done s1"
    using flags_run [OF run] wt by (auto simp: flags_ok_def)
  from Another.hyps(3) have "app_at s2 = Waiting r cl
      \<and> (\<exists>c' d'. cb_tracks C rs s2 w c' d' \<and> (app_step s2 = None \<longrightarrow> steps_left s2 c' d' < steps_left s1 c d))"
    by (cases rule: cb_step.cases)
      (use Another.hyps(2) blocked_compress [OF t wt Another.hyps(2) f(1)] blocked_dump [OF t wt f(2)] in auto)
  then obtain c' d' where w2: "app_at s2 = Waiting r cl" and t2: "cb_tracks C rs s2 w c' d'"
    and less: "app_step s2 = None \<longrightarrow> steps_left s2 c' d' < steps_left s1 c d"
    by (elim conjE exE) (rule that, assumption+)
  from cb_steps.Step [OF run Another.hyps(3)] have "cb_run C rs s2" by simp
  with w2 t2 less left show ?case
    by (intro conjI exI [of _ w] exI [of _ c'] exI [of _ d']) auto
qed

lemma writer_served:
  assumes "cb_run C rs s" "app_at s = Waiting r cl" "blocked_steps C s n s'"
  shows "n \<le> 1352 \<and> (\<exists>s1. cb_step C [] s' s1)"
proof
  from blocked_run [OF assms(3,1,2)] have r: "cb_run C rs s'" "app_at s' = Waiting r cl" by auto
  from waiting_served [OF r] show "\<exists>s1. cb_step C [] s' s1"
    by (auto intro: cb_step.intros)
  from assms(3) show "n \<le> 1352"
  proof cases
    case (Another m s1)
    with blocked_run [OF Another(2) assms(1,2)] show ?thesis by auto
  qed simp
qed

text \<open>A slot is with the writer's side, with the compressing thread or with neither twice.\<close>

lemma slots_exclusive:
  assumes "cb_run C rs s" "i < COMPRESS_BLOCK_CNT"
  shows "empty_buffer s i + filled_buffer s i \<le> 1" "empty_compressed s i + filled_compressed s i \<le> 1"
proof -
  obtain w c d where t: "cb_tracks C rs s w c d" using cb_tracks_run [OF assms(1)] by blast
  have r: "filled_buffer s i + cnt (c + c_taken (compress_at s)) i = cnt (length (given (app_at s) w)) i"
    "empty_buffer s i + cnt (acquired (app_at s) w) i = 1 + cnt c i"
    "filled_compressed s i + cnt (d + d_taken (dump_at s)) i = cnt (c + c_handed (compress_at s)) i"
    "empty_compressed s i + cnt (c + c_room (compress_at s)) i = 1 + cnt d i"
    using t assms(2) by (auto simp: cb_tracks_def semaphores_ok_def ring_def)
  have "length (given (app_at s) w) \<le> acquired (app_at s) w"
    by (cases "app_at s") (auto simp: given_def acquired_def)
  then have "cnt (length (given (app_at s) w)) i \<le> cnt (acquired (app_at s) w) i"
    "cnt c i \<le> cnt (c + c_taken (compress_at s)) i" "cnt d i \<le> cnt (d + d_taken (dump_at s)) i"
    by (auto intro: cnt_mono)
  moreover have "cnt (c + c_handed (compress_at s)) i \<le> cnt (c + c_room (compress_at s)) i"
    by (rule cnt_mono) (cases "compress_at s"; simp)
  ultimately show "empty_buffer s i + filled_buffer s i \<le> 1" "empty_compressed s i + filled_compressed s i \<le> 1"
    using r by linarith+
qed

section \<open>A run that is drained\<close>

text \<open>A run that closes while both workers wait for the first block, and where it ends.\<close>

definition waiting_workers :: circular_buffer where
  "waiting_workers = CircularBuffer_Init\<lparr>compress_at := CFilled 0, dump_at := DFilled 0,
     buffer := (\<lambda>_. [])(0 := EndEventLabel # padding [EndEventLabel]), app_at := SetCompressDone\<rparr>"

definition drained :: "compressor \<Rightarrow> circular_buffer" where
  "drained C =
     (let block = EndEventLabel # padding [EndEventLabel] in
      CircularBuffer_Init\<lparr>buffer := (\<lambda>_. [])(0 := block), compressed := (\<lambda>_. [])(0 := C block),
        empty_buffer := (\<lambda>_. 1), compress_done := True, dump_done := True, trace_file := Dump (C block),
        compress_at := CExit, dump_at := DExit, app_at := Closed\<rparr>)"

lemma closed_while_waiting:
  "cb_run C [[EndEventLabel]] waiting_workers" "app_at waiting_workers = SetCompressDone"
  "compress_step C waiting_workers = None" "dump_step waiting_workers = None"
proof -
  have "cb_run C [] (CircularBuffer_Init\<lparr>compress_at := CFilled 0, dump_at := DFilled 0\<rparr>)"
    using cb_steps.Start [of C CircularBuffer_Init, THEN steps_dump, THEN steps_dump, THEN steps_compress, THEN steps_compress]
    by (simp add: dump_step_def compress_step_def CircularBuffer_Init_def COMPRESS_BLOCK_CNT_def)
  from cb_steps.Step [OF this cb_step.Close, THEN steps_app]
  show "cb_run C [[EndEventLabel]] waiting_workers"
    by (simp add: app_step_def StartAppend_def Let_def CircularBuffer_Init_def waiting_workers_def COMPRESS_BLOCK_SIZE_def)
qed (simp_all add: waiting_workers_def CircularBuffer_Init_def compress_step_def dump_step_def wait_def)

lemma steps_many:
  "cb_steps C s0 rs s \<Longrightarrow> set fs \<subseteq> {app_step, compress_step C, dump_step} \<Longrightarrow> fold_opt (\<lambda>f. f) fs s = Some s' \<Longrightarrow>
   cb_steps C s0 rs s'"
proof (induction fs arbitrary: s)
  case (Cons f fs)
  then obtain s1 where s1: "f s = Some s1" "fold_opt (\<lambda>f. f) fs s1 = Some s'" by (auto simp: fail_simps)
  have "cb_steps C s0 rs s1"
    using Cons.prems(1,2) s1(1) by (auto intro: steps_app steps_compress steps_dump)
  from Cons.IH [OF this _ s1(2)] Cons.prems(2) show ?case by simp
qed simp

lemma drained_steps: "cb_steps C waiting_workers [] (drained C)"
proof (rule steps_many [OF cb_steps.Start])
  let ?fs = "replicate 3 app_step @ replicate 7 (compress_step C) @ replicate 5 dump_step @ replicate 2 app_step"
  show "set ?fs \<subseteq> {app_step, compress_step C, dump_step}" by auto
  show "fold_opt (\<lambda>f. f) ?fs waiting_workers = Some (drained C)"
    by (simp add: numeral_eq_Suc waiting_workers_def drained_def CircularBuffer_Init_def app_step_def compress_step_def dump_step_def
        Let_def wait_def signal_def COMPRESS_BLOCK_CNT_def fun_upd_idem fun_eq_iff)
qed

lemma drained_run: "cb_run C [[EndEventLabel]] (drained C)"
  using steps_trans [OF drained_steps closed_while_waiting(1)] by simp

section \<open>A full ring\<close>

text \<open>A ring whose first \<open>k\<close> blocks are full and not compressed yet.\<close>

definition full_block :: bytes where
  "full_block = replicate COMPRESS_BLOCK_SIZE 0"

definition ring_at :: "nat \<Rightarrow> circular_buffer" where
  "ring_at k = CircularBuffer_Init\<lparr>buffer := (\<lambda>i. if i \<le> k then full_block else []),
     filled_buffer := (\<lambda>i. if i < k then 1 else 0), empty_buffer := (\<lambda>i. if i \<le> k then 0 else 1), cur_block := k\<rparr>"

lemma full_block_length [simp]: "length full_block = COMPRESS_BLOCK_SIZE" "padding full_block = []" "full_block \<noteq> []"
  by (simp_all add: full_block_def padding_def COMPRESS_BLOCK_SIZE_def)

lemma ring_filled: "k < COMPRESS_BLOCK_CNT \<Longrightarrow> cb_run C (replicate (Suc k) full_block) (ring_at k)"
proof (induction k)
  case 0
  have "cb_step C [full_block] CircularBuffer_Init (StartAppend full_block False CircularBuffer_Init)"
    by (rule cb_step.Append) (simp_all add: CircularBuffer_Init_def)
  moreover have "StartAppend full_block False CircularBuffer_Init = ring_at 0"
    by (simp add: StartAppend_def ring_at_def CircularBuffer_Init_def fun_eq_iff)
  ultimately show ?case using cb_steps.Step [OF cb_steps.Start] by fastforce
next
  case (Suc k)
  let ?s = "StartAppend full_block False (ring_at k)"
  have "cb_step C [full_block] (ring_at k) ?s"
    by (rule cb_step.Append) (simp_all add: ring_at_def CircularBuffer_Init_def)
  from cb_steps.Step [OF Suc.IH this] Suc.prems have "cb_run C (replicate (Suc k) full_block @ [full_block]) ?s"
    by simp
  then have "cb_run C (replicate (Suc (Suc k)) full_block) ?s"
    by (simp add: replicate_append_same)
  moreover have "app_step ?s = Some (ring_at (Suc k))"
    using Suc.prems
    by (simp add: app_step_def StartAppend_def StartAppend_wait_def wait_def signal_def ring_at_def CircularBuffer_Init_def
        Let_def COMPRESS_BLOCK_SIZE_def fun_eq_iff)
  ultimately show ?case by (rule steps_app)
qed

definition ring_full :: circular_buffer where
  "ring_full = StartAppend full_block False (ring_at 149)"

lemma ring_full_blocked:
  "cb_run C (replicate 151 full_block) ring_full" "app_at ring_full = Waiting full_block False" "app_step ring_full = None"
  "blocked_steps C ring_full 1 (ring_full\<lparr>compress_at := CInner 0\<rparr>)"
proof -
  have "cb_step C [full_block] (ring_at 149) ring_full"
    unfolding ring_full_def by (rule cb_step.Append) (simp_all add: ring_at_def CircularBuffer_Init_def)
  from cb_steps.Step [OF ring_filled this] show "cb_run C (replicate 151 full_block) ring_full"
    by (simp add: COMPRESS_BLOCK_CNT_def replicate_append_same replicate_Suc [symmetric] del: replicate_Suc)
  have at: "app_at ring_full = Waiting full_block False" "cur_block ring_full = 0" "empty_buffer ring_full 0 = 0"
    "compress_at ring_full = CTop" "\<not> compress_done ring_full"
    by (simp_all add: ring_full_def StartAppend_def ring_at_def CircularBuffer_Init_def Let_def COMPRESS_BLOCK_SIZE_def COMPRESS_BLOCK_CNT_def)
  then show "app_at ring_full = Waiting full_block False" by blast
  show stuck: "app_step ring_full = None"
    using at by (simp add: app_step_def StartAppend_wait_def wait_def)
  have "cb_step C [] ring_full (ring_full\<lparr>compress_at := CInner 0\<rparr>)"
    by (rule cb_step.Compress) (simp add: compress_step_def at)
  then show "blocked_steps C ring_full 1 (ring_full\<lparr>compress_at := CInner 0\<rparr>)"
    using blocked_steps.Another [OF blocked_steps.None_yet stuck] by simp
qed

end
