(* ===== verification/Report.thy ===== *)
theory Report
  imports Unneeded MemDep MergeTrace PostDominator InstFile ImpactfulFunCall
    "HOL-Library.List_Lexorder" "HOL-Library.Char_ord"
begin

text \<open>
  \<open>PrintBug\<close> and \<open>main\<close> (\<open>tools/PrintBug/PrintBug.cpp\<close>): the unneeded dynamic instructions are
  counted per instruction, instructions that depend on each other or touch the same address are
  linked, and every connected part of this graph is reported with the source lines around it. What
  is printed is a list of lines; the file system is a function from paths to contents.
\<close>

section \<open>GetCode\<close>

text \<open>The lines \<open>getline\<close> returns until the end of the file is met.\<close>

fun lines_of :: "string \<Rightarrow> string list" where
  "lines_of [] = [[]]"
| "lines_of (c # cs) =
     (if c = CHR 0x0A then [] # lines_of cs else (c # hd (lines_of cs)) # tl (lines_of cs))"

type_synonym files = "string \<Rightarrow> string option"
type_synonym code_cache = "string \<Rightarrow> string list option"

definition GetCode :: "files \<Rightarrow> code_cache \<Rightarrow> string \<Rightarrow> nat \<Rightarrow> string \<times> code_cache" where
  "GetCode fs cache path loc =
     (let c = (case cache path of
                 Some ls \<Rightarrow> ls
               | None \<Rightarrow> (case fs path of None \<Rightarrow> [] | Some contents \<Rightarrow> lines_of contents))
      in (if loc = 0 \<or> length c < loc then '''' else c ! (loc - 1), cache(path \<mapsto> c)))"

section \<open>The graph of unneeded instructions\<close>

type_synonym uneeded_graph = "u32 \<Rightarrow> u32 set"

definition link :: "u32 \<Rightarrow> u32 \<Rightarrow> uneeded_graph \<Rightarrow> uneeded_graph" where
  "link a b g = (let g1 = g(a := insert b (g a)) in g1(b := insert a (g1 b)))"

definition ssa_links :: "code_info \<Rightarrow> dynamic_inst set \<Rightarrow> dynamic_inst \<Rightarrow> uneeded_graph \<Rightarrow> uneeded_graph option" where
  "ssa_links C bug i g = do {
     x \<leftarrow> ins_at C (di_ID i);
     Some (fold (\<lambda>dep g. if fst dep = Inst \<and> DynamicInst (di_TID i) (snd dep) (Cnt i) \<in> bug
                         then link (di_ID i) (snd dep) g else g) (SSADependencies x) g)
   }"

definition mem_links :: "mem_deps \<Rightarrow> dynamic_inst set \<Rightarrow> dynamic_inst \<Rightarrow> uneeded_graph \<Rightarrow> uneeded_graph" where
  "mem_links md bug i g = fold (\<lambda>dep g. if dep \<in> bug then link (di_ID i) (di_ID dep) g else g) (md i) g"

definition addr_links :: "u32 set \<Rightarrow> uneeded_graph \<Rightarrow> uneeded_graph option" where
  "addr_links ids g =
     (case sorted_list_of_set ids of
        [] \<Rightarrow> None
      | i # _ \<Rightarrow> Some (fold (link i) (sorted_list_of_set ids) g))"

definition build_graph ::
  "code_info \<Rightarrow> mem_deps \<Rightarrow> dynamic_inst set \<Rightarrow> (u64, u32 set) mapping \<Rightarrow> uneeded_graph option" where
  "build_graph C md bug addrs = do {
     g \<leftarrow> fold_opt (\<lambda>i g. map_option (mem_links md bug i) (ssa_links C bug i g)) (sorted_list_of_set bug) (\<lambda>_. {});
     fold_opt (\<lambda>a. addr_links (Mapping.lookup_default {} addrs a)) (Mapping.ordered_keys addrs) g
   }"

section \<open>Connected parts\<close>

text \<open>
  The loop with the stack \<open>q\<close>, its top first. An instruction already printed may be on the stack again
  and is then taken again.
\<close>

function graph_loop :: "uneeded_graph \<Rightarrow> u32 list \<Rightarrow> u32 set \<Rightarrow> u32 set \<Rightarrow> u32 set \<times> u32 set" where
  "graph_loop g [] bug printed = (bug, printed)"
| "graph_loop g (i # q) bug printed =
     (let printed1 = insert i printed;
          next = filter (\<lambda>j. j \<notin> printed1) (sorted_list_of_set (g i))
      in graph_loop g (rev next @ q) (insert i bug) printed1)"
  by pat_completeness auto

lemma finite_words: "finite (A :: u32 set)"
  by (rule finite_subset [OF subset_UNIV finite_class.finite_UNIV])

lemma loop_less:
  fixes i :: u32
  assumes "list_all (\<lambda>j. j \<notin> insert i printed) next"
  shows "card (- insert i printed) < card (- printed) \<or> card (- insert i printed) = card (- printed)
     \<and> length (filter (\<lambda>j. j \<in> insert i printed) (next @ q)) < length (filter (\<lambda>j. j \<in> printed) (i # q))"
proof (cases "i \<in> printed")
  case True
  then have "insert i printed = printed" by blast
  with assms True show ?thesis by (simp add: list_all_iff filter_False)
next
  case False
  then have "- insert i printed \<subset> - printed" by blast
  with psubset_card_mono [OF finite_words this] show ?thesis by simp
qed

termination graph_loop
proof (relation "measures [\<lambda>(_, _, _, printed). card (- printed), \<lambda>(_, q, _, printed). length (filter (\<lambda>j. j \<in> printed) q)]")
  fix g i q bug and printed :: "u32 set" and printed1 "next"
  assume "printed1 = insert i printed" "next = filter (\<lambda>j. j \<notin> printed1) (sorted_list_of_set (g i))"
  then show "((g, rev next @ q, insert i bug, printed1), g, i # q, bug, printed)
      \<in> measures [\<lambda>(_, _, _, printed). card (- printed), \<lambda>(_, q, _, printed). length (filter (\<lambda>j. j \<in> printed) q)]"
    using loop_less [of i printed "rev next" q] by (simp add: list_all_iff)
qed simp

definition BFSOnUneededGraph :: "uneeded_graph \<Rightarrow> u32 \<Rightarrow> u32 set \<times> u32 set \<Rightarrow> u32 set \<times> u32 set" where
  "BFSOnUneededGraph g i s = (if i \<in> snd s then s else graph_loop g [i] (fst s) (snd s))"

text \<open>The loop over \<open>uneeded_ins_cnt\<close>: the reports in order.\<close>

definition one_report :: "uneeded_graph \<Rightarrow> u32 \<Rightarrow> u32 set list \<times> u32 set \<Rightarrow> u32 set list \<times> u32 set" where
  "one_report g i s =
     (if i \<notin> snd s
      then let (bug, printed) = BFSOnUneededGraph g i ({}, snd s) in (fst s @ [bug], printed)
      else s)"

definition bug_reports :: "uneeded_graph \<Rightarrow> u32 set \<Rightarrow> u32 set list" where
  "bug_reports g ids = fst (fold (one_report g) (sorted_list_of_set ids) ([], {}))"

section \<open>What is printed\<close>

definition uneeded_ins_cnt :: "dynamic_inst set \<Rightarrow> u32 \<Rightarrow> u32" where
  "uneeded_ins_cnt bug i = of_nat (card (Set.filter (\<lambda>d. di_ID d = i) bug))"

datatype printed_line = FileName string | Gap | Counted i32 int string | Uncounted int string

text \<open>\<open>used_code\<close> and \<open>code_cnt\<close>\<close>

definition used_lines :: "code_info \<Rightarrow> u32 list \<Rightarrow> string \<Rightarrow> int set" where
  "used_lines C bug path =
     (\<Union>j \<in> set bug. case ins_at C j of
        Some x \<Rightarrow> if File x = path \<and> path \<noteq> ''[UNKNOWN]'' then set (map (\<lambda>i. LoC x + i) [-3..3]) else {}
      | None \<Rightarrow> {})"

definition line_count :: "code_info \<Rightarrow> dynamic_inst set \<Rightarrow> u32 list \<Rightarrow> string \<Rightarrow> int \<Rightarrow> i32" where
  "line_count C un bug path l =
     fold (\<lambda>j n. case ins_at C j of
         Some x \<Rightarrow> if File x = path \<and> path \<noteq> ''[UNKNOWN]'' \<and> LoC x = l then n + uneeded_ins_cnt un j else n
       | None \<Rightarrow> n) bug 0"

fun print_lines ::
  "files \<Rightarrow> (int \<Rightarrow> i32) \<Rightarrow> string \<Rightarrow> int list \<Rightarrow> int \<Rightarrow> code_cache \<Rightarrow> printed_line list \<times> code_cache" where
  "print_lines fs count path [] last_line cache = ([], cache)"
| "print_lines fs count path (l # ls) last_line cache =
     (if l < 0 then print_lines fs count path ls last_line cache
      else let gap = (if last_line \<noteq> l - 1 then [Gap] else []);
               (code, cache1) = GetCode fs cache path (nat l);
               shown = (if code = '''' then []
                        else if 0 < sint (count l) then [Counted (count l) l code] else [Uncounted l code]);
               (rest, cache2) = print_lines fs count path ls l cache1
           in (gap @ shown @ rest, cache2))"

text \<open>\<open>Ins[j]\<close> is read for every instruction of the report.\<close>

definition print_report ::
  "files \<Rightarrow> code_info \<Rightarrow> dynamic_inst set \<Rightarrow> u32 list \<Rightarrow> code_cache \<Rightarrow> (printed_line list \<times> code_cache) option" where
  "print_report fs C un bug cache = do {
     infos \<leftarrow> those (map (ins_at C) bug);
     let paths = sorted_list_of_set (set (filter (\<lambda>p. p \<noteq> ''[UNKNOWN]'') (map File infos)));
     Some (fold (\<lambda>p (out, cache).
       let (ls, cache1) = print_lines fs (line_count C un bug p) p (sorted_list_of_set (used_lines C bug p)) (- 1) cache
       in (out @ FileName p # ls, cache1)) paths ([], cache))
   }"

fun print_reports ::
  "files \<Rightarrow> code_info \<Rightarrow> dynamic_inst set \<Rightarrow> u32 set list \<Rightarrow> code_cache \<Rightarrow> (u32 set \<times> printed_line list) list option" where
  "print_reports fs C un [] cache = Some []"
| "print_reports fs C un (b # bs) cache = do {
     (out, cache1) \<leftarrow> print_report fs C un (sorted_list_of_set b) cache;
     rest \<leftarrow> print_reports fs C un bs cache1;
     Some ((b, out) # rest)
   }"

definition PrintBug ::
  "files \<Rightarrow> code_info \<Rightarrow> mem_deps \<Rightarrow> (u64, u32 set) mapping \<Rightarrow> dynamic_inst set \<Rightarrow>
     (u32 set \<times> printed_line list) list option" where
  "PrintBug fs C md addrs bug = do {
     g \<leftarrow> build_graph C md bug addrs;
     print_reports fs C bug (bug_reports g (di_ID ` bug)) Map.empty
   }"

section \<open>The whole tool\<close>

definition unneeded_of ::
  "decompressor \<Rightarrow> string \<Rightarrow> string \<Rightarrow> bytes \<Rightarrow> bytes \<Rightarrow> (code_info \<times> mem_deps \<times> post_doms \<times> smallest_block list \<times> need_state) option" where
  "unneeded_of D inst bbgraph slimmer_trace pin_trace = do {
     C \<leftarrow> LoadInstInfo inst;
     impactful \<leftarrow> ExtractImpactfulFunCall D pin_trace;
     bt \<leftarrow> MergeTrace D C slimmer_trace impactful;
     G \<leftarrow> GroupMemory C bt;
     deps \<leftarrow> ExtractMemoryDependency G C bt;
     edges \<leftarrow> read_edges bbgraph;
     pd \<leftarrow> PreparePostDominator edges;
     st \<leftarrow> ExtractUneededOperation C (Mapping.lookup_default [] deps) pd bt;
     Some (C, Mapping.lookup_default [] deps, pd, bt, st)
   }"

definition print_bug ::
  "decompressor \<Rightarrow> files \<Rightarrow> string \<Rightarrow> string \<Rightarrow> bytes \<Rightarrow> bytes \<Rightarrow> (u32 set \<times> printed_line list) list option" where
  "print_bug D fs inst bbgraph slimmer_trace pin_trace = do {
     (C, md, pd, bt, st) \<leftarrow> unneeded_of D inst bbgraph slimmer_trace pin_trace;
     PrintBug fs C md (Addr2Unneded st) (unneeded_di st)
   }"

section \<open>The graph is undirected\<close>

definition sym_graph :: "uneeded_graph \<Rightarrow> bool" where
  "sym_graph g \<longleftrightarrow> (\<forall>a b. b \<in> g a \<longrightarrow> a \<in> g b)"

lemma link_iff: "y \<in> link a b g x \<longleftrightarrow> y \<in> g x \<or> (x = a \<and> y = b) \<or> (x = b \<and> y = a)"
  by (auto simp: link_def Let_def)

lemma sym_link: "sym_graph g \<Longrightarrow> sym_graph (link a b g)"
  unfolding sym_graph_def link_iff by blast

lemma sym_fold: "(\<And>x g. sym_graph g \<Longrightarrow> sym_graph (f x g)) \<Longrightarrow> sym_graph g \<Longrightarrow> sym_graph (fold f xs g)"
  by (induction xs arbitrary: g) auto

lemma sym_mem: "sym_graph g \<Longrightarrow> sym_graph (mem_links md bug i g)"
  unfolding mem_links_def by (rule sym_fold) (simp_all add: sym_link)

lemma sym_ssa: "sym_graph g \<Longrightarrow> ssa_links C bug i g = Some g' \<Longrightarrow> sym_graph g'"
proof -
  let ?f = "\<lambda>dep g. if fst dep = Inst \<and> DynamicInst (di_TID i) (snd dep) (Cnt i) \<in> bug
    then link (di_ID i) (snd dep) g else g"
  assume g: "sym_graph g" and e: "ssa_links C bug i g = Some g'"
  obtain x :: inst_info where "Some (fold ?f (SSADependencies x) g) = Some g'"
    using e unfolding ssa_links_def by (elim bind_SomeE)
  then have "g' = fold ?f (SSADependencies x) g" by (rule option.inject [THEN iffD1, symmetric])
  moreover have "sym_graph (fold ?f xs g)" for xs
    by (rule sym_fold [OF _ g]) (simp add: sym_link)
  ultimately show ?thesis by simp
qed

lemma sym_addr: "sym_graph g \<Longrightarrow> addr_links ids g = Some g' \<Longrightarrow> sym_graph g'"
  by (cases "sorted_list_of_set ids") (auto simp: addr_links_def sym_link intro: sym_fold)

interpretation inst_links: loop_body "\<lambda>i g. map_option (mem_links md bug i) (ssa_links C bug i g)" sym_graph "\<lambda>_ _. True"
  for C md bug
  by unfold_locales (auto dest: sym_ssa intro: sym_mem)

interpretation addr_loop: loop_body "\<lambda>a. addr_links (Mapping.lookup_default {} addrs a)" sym_graph "\<lambda>_ _. True"
  for addrs
  by unfold_locales (auto dest: sym_addr)

lemma build_graph_sym: "build_graph C md bug addrs = Some g \<Longrightarrow> sym_graph g"
proof -
  assume "build_graph C md bug addrs = Some g"
  then obtain g1 where f: "fold_opt (\<lambda>i g. map_option (mem_links md bug i) (ssa_links C bug i g)) (sorted_list_of_set bug) (\<lambda>_. {}) = Some g1"
    "fold_opt (\<lambda>a. addr_links (Mapping.lookup_default {} addrs a)) (Mapping.ordered_keys addrs) g1 = Some g"
    by (auto simp: build_graph_def fail_simps)
  have "sym_graph (\<lambda>_. {})" by (simp add: sym_graph_def)
  from addr_loop.loop_inv [OF inst_links.loop_inv [OF this f(1)] f(2)] show ?thesis .
qed

section \<open>A report is a connected part\<close>

definition part :: "uneeded_graph \<Rightarrow> u32 \<Rightarrow> u32 set" where
  "part g i = {j. (i, j) \<in> {(a, b). b \<in> g a}\<^sup>*}"

definition closed :: "uneeded_graph \<Rightarrow> u32 set \<Rightarrow> bool" where
  "closed g S \<longleftrightarrow> (\<forall>a \<in> S. g a \<subseteq> S)"

lemma part_self: "i \<in> part g i"
  by (simp add: part_def)

lemma part_step: "a \<in> part g i \<Longrightarrow> b \<in> g a \<Longrightarrow> b \<in> part g i"
  unfolding part_def by (auto intro: rtrancl_into_rtrancl)

lemma closed_part: "closed g S \<Longrightarrow> i \<in> S \<Longrightarrow> part g i \<subseteq> S"
proof
  fix j assume "closed g S" "i \<in> S" "j \<in> part g i"
  then have "(i, j) \<in> {(a, b). b \<in> g a}\<^sup>*" by (simp add: part_def)
  then show "j \<in> S"
    by induction (use \<open>closed g S\<close> \<open>i \<in> S\<close> in \<open>auto simp: closed_def\<close>)
qed

lemma part_sym: "sym_graph g \<Longrightarrow> j \<in> part g i \<Longrightarrow> i \<in> part g j"
proof -
  assume s: "sym_graph g" and j: "j \<in> part g i"
  have "sym {(a, b). b \<in> g a}" using s by (auto simp: sym_def sym_graph_def)
  then have "sym ({(a, b). b \<in> g a}\<^sup>*)" by (rule sym_rtrancl)
  with j show ?thesis by (auto simp: part_def sym_def)
qed

lemma graph_loop_result:
  assumes "\<And>a. a \<in> printed \<Longrightarrow> g a \<subseteq> printed \<union> set q" "graph_loop g q bug printed = (bug', printed')"
  shows "closed g printed' \<and> printed \<union> set q \<subseteq> printed' \<and> bug' = bug \<union> (printed' - printed) \<union> set q
    \<and> (\<forall>S. closed g S \<longrightarrow> printed \<union> set q \<subseteq> S \<longrightarrow> printed' \<subseteq> S)"
  using assms
proof (induction g q bug printed rule: graph_loop.induct)
  case (1 g bug printed)
  then show ?case by (auto simp: closed_def)
next
  case (2 g i q bug printed)
  let ?p = "insert i printed"
  let ?n = "rev (filter (\<lambda>j. j \<notin> ?p) (sorted_list_of_set (g i)))"
  have n: "set ?n = g i - ?p" using finite_words by auto
  have "g a \<subseteq> ?p \<union> set (?n @ q)" if "a \<in> ?p" for a
    using 2(2) [of a] that n by auto
  from 2(1) [OF refl refl this] 2(3)
  have "closed g printed' \<and> ?p \<union> set (?n @ q) \<subseteq> printed' \<and> bug' = insert i bug \<union> (printed' - ?p) \<union> set (?n @ q)
    \<and> (\<forall>S. closed g S \<longrightarrow> ?p \<union> set (?n @ q) \<subseteq> S \<longrightarrow> printed' \<subseteq> S)"
    by (simp add: Let_def)
  moreover have "?p \<union> set (?n @ q) \<subseteq> S" if "closed g S" "printed \<union> set (i # q) \<subseteq> S" for S
    using that n by (auto simp: closed_def)
  ultimately show ?case using n by (auto simp del: set_rev)
qed

lemma BFS_part:
  assumes "sym_graph g" "closed g printed" "i \<notin> printed"
  shows "BFSOnUneededGraph g i ({}, printed) = (part g i, printed \<union> part g i)"
proof -
  obtain bug' printed' where r: "graph_loop g [i] {} printed = (bug', printed')" by fastforce
  have "g a \<subseteq> printed \<union> set [i]" if "a \<in> printed" for a
    using assms(2) that by (auto simp: closed_def)
  from graph_loop_result [OF this r] have
    c: "closed g printed'" "printed \<union> {i} \<subseteq> printed'" "bug' = printed' - printed \<union> {i}"
    and least: "\<And>S. closed g S \<Longrightarrow> printed \<union> {i} \<subseteq> S \<Longrightarrow> printed' \<subseteq> S" by auto
  have "closed g (printed \<union> part g i)"
    using assms(2) part_step [of _ g i] by (auto simp: closed_def)
  then have p: "printed' = printed \<union> part g i"
    using least [of "printed \<union> part g i"] part_self [of i g] c(2) closed_part [OF c(1), of i] by auto
  have "j \<notin> printed" if "j \<in> part g i" for j
    using closed_part [OF assms(2), of j] part_sym [OF assms(1) that] assms(3) by blast
  then have "bug' = part g i"
    using c(3) p part_self [of i g] by auto
  with r p assms(3) show ?thesis by (simp add: BFSOnUneededGraph_def)
qed

section \<open>Every unneeded instruction is in one report\<close>

definition reports_ok :: "uneeded_graph \<Rightarrow> u32 set list \<Rightarrow> u32 set \<Rightarrow> bool" where
  "reports_ok g rs printed \<longleftrightarrow>
     closed g printed \<and> \<Union> (set rs) = printed \<and> distinct rs \<and> pairwise disjnt (set rs)
     \<and> (\<forall>B \<in> set rs. B \<noteq> {} \<and> (\<forall>i \<in> B. B = part g i))"

lemma part_eq: "sym_graph g \<Longrightarrow> j \<in> part g i \<Longrightarrow> part g j = part g i"
proof -
  assume s: "sym_graph g" and j: "j \<in> part g i"
  have cl: "closed g (part g k)" for k using part_step by (auto simp: closed_def)
  show ?thesis
    using closed_part [OF cl j] closed_part [OF cl part_sym [OF s j]] by blast
qed

lemma one_report_ok:
  assumes s: "sym_graph g" and r: "reports_ok g (fst st) (snd st)"
  shows "reports_ok g (fst (one_report g i st)) (snd (one_report g i st)) \<and> i \<in> snd (one_report g i st)
    \<and> snd st \<subseteq> snd (one_report g i st) \<and> snd (one_report g i st) \<subseteq> snd st \<union> part g i"
proof (cases "i \<in> snd st")
  case True
  with r show ?thesis by (simp add: one_report_def)
next
  case False
  obtain rs printed where st: "st = (rs, printed)" by (cases st)
  have "BFSOnUneededGraph g i ({}, printed) = (part g i, printed \<union> part g i)"
    using BFS_part [OF s] r False by (simp add: reports_ok_def st)
  then have e: "one_report g i st = (rs @ [part g i], printed \<union> part g i)"
    using False by (simp add: one_report_def st)
  have cl: "closed g printed" "\<Union> (set rs) = printed" using r by (simp_all add: reports_ok_def st)
  have disj: "disjnt (part g i) B" if "B \<in> set rs" for B
  proof -
    have "j \<notin> printed" if "j \<in> part g i" for j
      using closed_part [OF cl(1), of j] part_sym [OF s that] False by (auto simp: st)
    then show ?thesis using cl(2) that by (auto simp: disjnt_def)
  qed
  have new: "part g i \<notin> set rs"
    using cl(2) part_self [of i g] False by (auto simp: st)
  have "closed g (printed \<union> part g i)"
    using cl(1) part_step [of _ g i] by (auto simp: closed_def)
  moreover have "pairwise disjnt (insert (part g i) (set rs))"
    using r disj by (auto simp: pairwise_insert reports_ok_def st disjnt_sym)
  then have "pairwise disjnt (set (rs @ [part g i]))" by simp
  moreover have "\<forall>B \<in> set (rs @ [part g i]). B \<noteq> {} \<and> (\<forall>j \<in> B. B = part g j)"
  proof
    fix B assume "B \<in> set (rs @ [part g i])"
    then consider "B \<in> set rs" | "B = part g i" by auto
    then show "B \<noteq> {} \<and> (\<forall>j \<in> B. B = part g j)"
    proof cases
      case 1
      with r show ?thesis unfolding reports_ok_def st by simp
    next
      case 2
      then show ?thesis using part_self [of i g] part_eq [OF s, of _ i] by blast
    qed
  qed
  moreover have "\<Union> (set (rs @ [part g i])) = printed \<union> part g i"
    using cl(2) by auto
  moreover have "distinct (rs @ [part g i])" using r new by (simp add: reports_ok_def st)
  ultimately have "reports_ok g (rs @ [part g i]) (printed \<union> part g i)"
    unfolding reports_ok_def by blast
  with part_self [of i g] show ?thesis by (simp add: e [unfolded st] st)
qed

lemma reports_fold:
  assumes s: "sym_graph g"
  shows "reports_ok g (fst st) (snd st) \<Longrightarrow>
    reports_ok g (fst (fold (one_report g) is st)) (snd (fold (one_report g) is st))
    \<and> snd st \<union> set is \<subseteq> snd (fold (one_report g) is st)
    \<and> snd (fold (one_report g) is st) \<subseteq> snd st \<union> (\<Union>i \<in> set is. part g i)"
proof (induction "is" arbitrary: st)
  case (Cons i "is")
  note one = one_report_ok [OF s Cons.prems, of i]
  from one have "reports_ok g (fst (one_report g i st)) (snd (one_report g i st))" by blast
  note rest = Cons.IH [OF this]
  have "fold (one_report g) (i # is) st = fold (one_report g) is (one_report g i st)" by simp
  moreover have "snd st \<union> set (i # is) \<subseteq> snd (fold (one_report g) is (one_report g i st))"
    using one rest by auto
  moreover have "snd (fold (one_report g) is (one_report g i st)) \<subseteq> snd st \<union> (\<Union>i \<in> set (i # is). part g i)"
    using one rest(1) by (simp only: set_simps UN_insert) blast
  ultimately show ?case using rest by presburger
qed simp

lemma bug_reports_ok:
  assumes "sym_graph g"
  shows "reports_ok g (bug_reports g ids) (\<Union>i \<in> ids. part g i)"
proof -
  let ?st = "fold (one_report g) (sorted_list_of_set ids) ([], {})"
  have "reports_ok g (fst ([], {})) (snd ([], {}))" by (simp add: reports_ok_def closed_def)
  from reports_fold [OF assms this, of "sorted_list_of_set ids"]
  have r: "reports_ok g (fst ?st) (snd ?st)" "ids \<subseteq> snd ?st" "snd ?st \<subseteq> (\<Union>i \<in> ids. part g i)"
    using finite_words by auto
  then have "closed g (snd ?st)" by (simp add: reports_ok_def)
  with closed_part [OF this] r(2,3) have "snd ?st = (\<Union>i \<in> ids. part g i)" by blast
  with r(1) show ?thesis by (simp add: bug_reports_def)
qed

section \<open>The cache of source files is transparent\<close>

definition lines_at :: "files \<Rightarrow> string \<Rightarrow> string list" where
  "lines_at fs path = (case fs path of None \<Rightarrow> [] | Some contents \<Rightarrow> lines_of contents)"

definition cache_ok :: "files \<Rightarrow> code_cache \<Rightarrow> bool" where
  "cache_ok fs cache \<longleftrightarrow> (\<forall>path ls. cache path = Some ls \<longrightarrow> ls = lines_at fs path)"

lemma GetCode_ok:
  assumes "cache_ok fs cache"
  shows "cache_ok fs (snd (GetCode fs cache path loc))"
    and "fst (GetCode fs cache path loc) = (if 0 < loc \<and> loc \<le> length (lines_at fs path) then lines_at fs path ! (loc - 1) else '''')"
proof -
  have c: "(case cache path of Some ls \<Rightarrow> ls | None \<Rightarrow> lines_at fs path) = lines_at fs path"
    using assms by (cases "cache path") (simp_all add: cache_ok_def)
  have g: "GetCode fs cache path loc = (if loc = 0 \<or> length (lines_at fs path) < loc then '''' else lines_at fs path ! (loc - 1),
      cache(path \<mapsto> lines_at fs path))"
    unfolding GetCode_def Let_def lines_at_def [symmetric] c by (rule refl)
  show "fst (GetCode fs cache path loc) = (if 0 < loc \<and> loc \<le> length (lines_at fs path) then lines_at fs path ! (loc - 1) else '''')"
    by (auto simp: g)
  show "cache_ok fs (snd (GetCode fs cache path loc))"
    using assms by (simp add: g cache_ok_def)
qed

text \<open>What one file's part of a report says, without the cache.\<close>

fun listing :: "files \<Rightarrow> (int \<Rightarrow> i32) \<Rightarrow> string \<Rightarrow> int list \<Rightarrow> int \<Rightarrow> printed_line list" where
  "listing fs count path [] last_line = []"
| "listing fs count path (l # ls) last_line =
     (if l < 0 then listing fs count path ls last_line
      else let code = fst (GetCode fs Map.empty path (nat l)) in
        (if last_line \<noteq> l - 1 then [Gap] else [])
        @ (if code = '''' then [] else if 0 < sint (count l) then [Counted (count l) l code] else [Uncounted l code])
        @ listing fs count path ls l)"

lemma print_lines_cache:
  "cache_ok fs cache \<Longrightarrow> fst (print_lines fs count path ls last_line cache) = listing fs count path ls last_line
     \<and> cache_ok fs (snd (print_lines fs count path ls last_line cache))"
proof (induction ls arbitrary: last_line cache)
  case (Cons l ls)
  have empty: "cache_ok fs Map.empty" by (simp add: cache_ok_def)
  show ?case
  proof (cases "l < 0")
    case True
    with Cons show ?thesis by simp
  next
    case False
    obtain code cache1 where c: "GetCode fs cache path (nat l) = (code, cache1)" by fastforce
    then have "cache_ok fs cache1" "code = fst (GetCode fs Map.empty path (nat l))"
      using GetCode_ok [OF Cons.prems, of path "nat l"] GetCode_ok(2) [OF empty, of path "nat l"] by auto
    with Cons.IH [of cache1 l] c False show ?thesis
      by (simp add: Let_def case_prod_beta)
  qed
qed simp

text \<open>A report, and the reports of \<open>PrintBug\<close>, without the cache.\<close>

definition report_text :: "files \<Rightarrow> code_info \<Rightarrow> dynamic_inst set \<Rightarrow> u32 list \<Rightarrow> printed_line list option" where
  "report_text fs C un bug = do {
     infos \<leftarrow> those (map (ins_at C) bug);
     let paths = sorted_list_of_set (set (filter (\<lambda>p. p \<noteq> ''[UNKNOWN]'') (map File infos)));
     Some (concat (map (\<lambda>p. FileName p #
       listing fs (line_count C un bug p) p (sorted_list_of_set (used_lines C bug p)) (- 1)) paths))
   }"

lemma print_paths_cache:
  fixes fs :: files and count :: "string \<Rightarrow> int \<Rightarrow> i32" and used :: "string \<Rightarrow> int list"
  defines "step \<equiv> \<lambda>p (out, cache). let (ls, cache1) = print_lines fs (count p) p (used p) (- 1) cache
       in (out @ FileName p # ls, cache1)"
  assumes "cache_ok fs cache"
  shows "fst (fold step paths (out, cache)) = out @ concat (map (\<lambda>p. FileName p # listing fs (count p) p (used p) (- 1)) paths)
    \<and> cache_ok fs (snd (fold step paths (out, cache)))"
  using assms(2)
proof (induction paths arbitrary: out cache)
  case (Cons p paths)
  obtain ls cache1 where e: "print_lines fs (count p) p (used p) (- 1) cache = (ls, cache1)" by fastforce
  with print_lines_cache [OF Cons.prems, of "count p" p "used p" "- 1"]
  have "ls = listing fs (count p) p (used p) (- 1)" "cache_ok fs cache1" by simp_all
  with Cons.IH [of cache1 "out @ FileName p # ls"] e show ?case by (simp add: step_def)
qed simp

lemma print_report_cache:
  "cache_ok fs cache \<Longrightarrow> map_option fst (print_report fs C un bug cache) = report_text fs C un bug
     \<and> (\<forall>out cache1. print_report fs C un bug cache = Some (out, cache1) \<longrightarrow> cache_ok fs cache1)"
  using print_paths_cache [of fs cache "line_count C un bug" "\<lambda>p. sorted_list_of_set (used_lines C bug p)" _ "[]"]
  by (cases "those (map (ins_at C) bug)") (simp_all add: print_report_def report_text_def Let_def prod_eq_iff)

lemma print_reports_cache:
  "cache_ok fs cache \<Longrightarrow> print_reports fs C un bs cache
     = those (map (\<lambda>b. map_option (Pair b) (report_text fs C un (sorted_list_of_set b))) bs)"
proof (induction bs arbitrary: cache)
  case (Cons b bs)
  note one = print_report_cache [OF Cons.prems, of C un "sorted_list_of_set b"]
  show ?case
  proof (cases "print_report fs C un (sorted_list_of_set b) cache")
    case None
    with one show ?thesis by simp
  next
    case (Some r)
    obtain out cache1 where r: "r = (out, cache1)" by (cases r)
    with one Some have "report_text fs C un (sorted_list_of_set b) = Some out" "cache_ok fs cache1" by auto
    with Cons.IH [of cache1] Some r show ?thesis
      by (simp add: map_option_case split: Option.bind_split option.split)
  qed
qed simp

lemma PrintBug_text:
  "PrintBug fs C md addrs bug = do {
     g \<leftarrow> build_graph C md bug addrs;
     those (map (\<lambda>b. map_option (Pair b) (report_text fs C bug (sorted_list_of_set b))) (bug_reports g (di_ID ` bug)))
   }"
  by (simp add: PrintBug_def print_reports_cache cache_ok_def)

lemma those_fst: "those (map (\<lambda>b. map_option (Pair b) (f b)) bs) = Some rs \<Longrightarrow> map fst rs = bs"
  by (induction bs arbitrary: rs) (auto split: option.splits)

section \<open>The reports of the whole tool\<close>

lemma PrintBug_parts:
  assumes "PrintBug fs C md addrs bug = Some rs"
  shows "\<exists>g. build_graph C md bug addrs = Some g
    \<and> reports_ok g (map fst rs) (\<Union>i \<in> di_ID ` bug. part g i)"
proof -
  from assms obtain g where g: "build_graph C md bug addrs = Some g"
    "those (map (\<lambda>b. map_option (Pair b) (report_text fs C bug (sorted_list_of_set b))) (bug_reports g (di_ID ` bug))) = Some rs"
    unfolding PrintBug_text by (elim bind_SomeE)
  from those_fst [OF g(2)] bug_reports_ok [OF build_graph_sym [OF g(1)], of "di_ID ` bug"] g(1)
  show ?thesis by auto
qed

lemma unneeded_of_analysis:
  "unneeded_of D inst bb trace pin = Some (C, md, pd, bt, st) \<Longrightarrow> ExtractUneededOperation C md pd bt = Some st"
  unfolding unneeded_of_def by (elim bind_SomeE) (simp only: option.inject prod.inject)

lemma print_bug_parts:
  assumes "print_bug D fs inst bb trace pin = Some rs"
  shows "\<exists>C md pd bt st s. unneeded_of D inst bb trace pin = Some (C, md, pd, bt, st)
    \<and> live_trace C bt = Some s \<and> (bounded s \<longrightarrow> lv_live s \<inter> unneeded_di st = {})
    \<and> di_ID ` unneeded_di st \<subseteq> \<Union> (set (map fst rs))
    \<and> pairwise disjnt (set (map fst rs)) \<and> distinct (map fst rs)"
proof -
  obtain C md pd bt st where u: "unneeded_of D inst bb trace pin = Some (C, md, pd, bt, st)"
    and p: "PrintBug fs C md (Addr2Unneded st) (unneeded_di st) = Some rs"
    using assms unfolding print_bug_def by (auto elim!: bind_SomeE)
  from PrintBug_parts [OF p] obtain g where
    r: "reports_ok g (map fst rs) (\<Union>i \<in> di_ID ` unneeded_di st. part g i)" by blast
  then have all: "\<Union> (set (map fst rs)) = (\<Union>i \<in> di_ID ` unneeded_di st. part g i)"
    and apart: "pairwise disjnt (set (map fst rs))" "distinct (map fst rs)"
    by (simp_all only: reports_ok_def)
  have "di_ID ` unneeded_di st \<subseteq> \<Union> (set (map fst rs))"
    unfolding all using part_self [of _ g] by (intro subsetI UN_I) simp_all
  moreover obtain s where "live_trace C bt = Some s" "bounded s \<longrightarrow> lv_live s \<inter> unneeded_di st = {}"
    using unneeded_not_live [OF unneeded_of_analysis [OF u]] by blast
  ultimately show ?thesis using u apart by (intro exI conjI)
qed

end
