(* ===== verification/PTrace.thy ===== *)
theory PTrace
  imports TraceIO
begin

text \<open>
  \<open>tools/PTrace/lite-strace.cpp\<close>: it follows a program and its threads from stop to stop with
  \<open>ptrace\<close>, walks the stack at the system calls it is interested in, and writes the call sites and the
  called functions to a file. What the kernel and \<open>libunwind\<close> say is the input: the results of \<open>waitpid\<close>,
  with the number of the system call and the cursor's frames for a stop.
\<close>

section \<open>The walk up the stack\<close>

text \<open>
  One position of the cursor: the instruction pointer and the start of the function with its name, if
  they can be read, and whether the cursor can go on. A cursor that has no further position cannot be read.
\<close>

record unw_frame =
  fr_ip :: "u64 option"
  fr_proc :: "(u64 \<times> string) option"
  fr_steps :: bool

record call_state =
  CallIP :: "u64 set"
  LastFun :: "u64 set"
  Start2FunName :: "u64 \<Rightarrow> string option"

definition USER_DATA_BASE :: u64 where
  "USER_DATA_BASE = 0x7f0000000000"

definition backtrace_limit :: nat where
  "backtrace_limit = 64"

text \<open>The loop: the first frame below \<open>USER_DATA_BASE\<close> is the program's own and ends it.\<close>

fun backtrace_loop :: "nat \<Rightarrow> unw_frame list \<Rightarrow> u64 \<Rightarrow> call_state \<Rightarrow> call_state" where
  "backtrace_loop 0 fs last_fun st = st"
| "backtrace_loop (Suc n) [] last_fun st = st"
| "backtrace_loop (Suc n) (f # fs) last_fun st =
     (case fr_ip f of
        None \<Rightarrow> st
      | Some ip \<Rightarrow>
          if ip < USER_DATA_BASE
          then st\<lparr>CallIP := insert (ip - 5) (CallIP st), LastFun := insert last_fun (LastFun st)\<rparr>
          else (case fr_proc f of
              None \<Rightarrow> st
            | Some (start, name) \<Rightarrow>
                let st1 = st\<lparr>Start2FunName := (Start2FunName st)(start \<mapsto> name)\<rparr> in
                if fr_steps f then backtrace_loop n fs start st1 else st1))"

definition do_backtrace :: "unw_frame list option \<Rightarrow> call_state \<Rightarrow> call_state" where
  "do_backtrace frames st =
     (case frames of None \<Rightarrow> st | Some fs \<Rightarrow> backtrace_loop backtrace_limit fs 0 st)"

section \<open>The system calls looked at\<close>

definition watched_syscall :: "int \<Rightarrow> bool" where
  "watched_syscall n \<longleftrightarrow>
     n = 0 \<or> n = 1 \<or> n = 9 \<or> n = 17 \<or> n = 18 \<or> n = 20 \<or> (42 \<le> n \<and> n \<le> 50) \<or> n = 54 \<or> n = 62
     \<or> n = 68 \<or> n = 69 \<or> (82 \<le> n \<and> n \<le> 95) \<or> n = 202 \<or> n = 295 \<or> n = 296"

definition trace_syscall :: "int \<Rightarrow> unw_frame list option \<Rightarrow> call_state \<Rightarrow> call_state" where
  "trace_syscall n frames st = (if watched_syscall n then do_backtrace frames st else st)"

section \<open>The loop over the stops\<close>

datatype wait_status = Stopped int "unw_frame list option" | Exited | Signaled | Continued

datatype wait_result = WaitFailed | Waited int wait_status

record tracer =
  threads :: "int set"
  calls :: call_state

definition is_stopped :: "wait_status \<Rightarrow> bool" where
  "is_stopped status = (case status of Stopped _ _ \<Rightarrow> True | _ \<Rightarrow> False)"

text \<open>One turn. A thread seen for the first time joins when it stops; one that does not stop leaves.\<close>

definition trace_turn :: "wait_result \<Rightarrow> tracer \<Rightarrow> tracer" where
  "trace_turn w s =
     (case w of
        WaitFailed \<Rightarrow> s
      | Waited pid status \<Rightarrow>
          if pid \<notin> threads s \<and> \<not> is_stopped status then s
          else
            let s1 = s\<lparr>threads := insert pid (threads s)\<rparr> in
            (case status of
               Stopped n frames \<Rightarrow> s1\<lparr>calls := trace_syscall n frames (calls s1)\<rparr>
             | _ \<Rightarrow> s1\<lparr>threads := threads s1 - {pid}\<rparr>))"

text \<open>\<open>while (!threads.empty())\<close>; what is left of the results is not read.\<close>

fun trace_loop :: "wait_result list \<Rightarrow> tracer \<Rightarrow> wait_result list \<times> tracer" where
  "trace_loop ws s =
     (if threads s = {} then (ws, s)
      else case ws of [] \<Rightarrow> ([], s) | w # ws' \<Rightarrow> trace_loop ws' (trace_turn w s))"

declare trace_loop.simps [simp del]

definition tracer_init :: "int \<Rightarrow> tracer" where
  "tracer_init child = \<lparr>threads = {child}, calls = \<lparr>CallIP = {}, LastFun = {}, Start2FunName = Map.empty\<rparr>\<rparr>"

text \<open>The file: both sets in the order of \<open>long\<close>, a word each, and the destructor.\<close>

definition in_order :: "u64 set \<Rightarrow> u64 list" where
  "in_order S = sort_key sint (sorted_list_of_set S)"

definition dump_calls :: "compressor \<Rightarrow> call_state \<Rightarrow> bytes option" where
  "dump_calls compress st = do {
     cb \<leftarrow> fold_opt (CompressBuffer_Append compress) (map w64 (in_order (CallIP st) @ in_order (LastFun st)))
             CompressBuffer_new;
     Some (CompressBuffer_delete compress cb)
   }"

text \<open>Nothing is written as long as a thread is left.\<close>

definition do_trace :: "compressor \<Rightarrow> int \<Rightarrow> wait_result list \<Rightarrow> bytes option" where
  "do_trace compress child ws =
     (let s = snd (trace_loop ws (tracer_init child)) in
      if threads s = {} then dump_calls compress (calls s) else None)"

section \<open>What a backtrace finds\<close>

text \<open>
  The specification: behind the library frames that can be read and left, within the limit, the first
  frame of the program, with the start of the function it called.
\<close>

definition library_frame :: "unw_frame \<Rightarrow> bool" where
  "library_frame f \<longleftrightarrow> fr_steps f \<and> fr_proc f \<noteq> None \<and> (\<exists>ip. fr_ip f = Some ip \<and> USER_DATA_BASE \<le> ip)"

definition call_from :: "nat \<Rightarrow> u64 \<Rightarrow> unw_frame list \<Rightarrow> (u64 \<times> u64) option" where
  "call_from limit last_fun fs =
     (let libs = takeWhile library_frame fs in
      case drop (length libs) fs of
        [] \<Rightarrow> None
      | f # _ \<Rightarrow>
          (case fr_ip f of
             None \<Rightarrow> None
           | Some ip \<Rightarrow>
               if ip < USER_DATA_BASE \<and> length libs < limit
               then Some (ip - 5, if libs = [] then last_fun else fst (the (fr_proc (last libs)))) else None))"

definition call_site :: "unw_frame list \<Rightarrow> (u64 \<times> u64) option" where
  "call_site fs = call_from backtrace_limit 0 fs"

definition sites_of :: "wait_result \<Rightarrow> (u64 \<times> u64) set" where
  "sites_of w =
     (case w of
        Waited _ (Stopped n (Some fs)) \<Rightarrow> if watched_syscall n then set_option (call_site fs) else {}
      | _ \<Rightarrow> {})"

lemma call_from_library:
  assumes "library_frame f" "fr_proc f = Some (start, name)"
  shows "call_from (Suc n) lf (f # fs) = call_from n start fs"
proof (cases "takeWhile library_frame fs")
  case Nil
  with assms show ?thesis by (simp add: call_from_def Let_def cong: list.case_cong option.case_cong if_cong)
next
  case (Cons g gs)
  with assms(1) show ?thesis by (simp add: call_from_def Let_def cong: list.case_cong option.case_cong if_cong)
qed

lemma call_from_other:
  "\<not> library_frame f \<Longrightarrow> call_from (Suc n) lf (f # fs) =
     (case fr_ip f of Some ip \<Rightarrow> if ip < USER_DATA_BASE then Some (ip - 5, lf) else None | None \<Rightarrow> None)"
  by (simp add: call_from_def split: option.split)

lemma call_from_0: "call_from 0 lf fs = None"
  by (simp add: call_from_def Let_def split: list.split option.split)

lemma backtrace_finds:
  "CallIP (backtrace_loop n fs lf st) = CallIP st \<union> fst ` set_option (call_from n lf fs)
   \<and> LastFun (backtrace_loop n fs lf st) = LastFun st \<union> snd ` set_option (call_from n lf fs)"
proof (induction n fs lf st rule: backtrace_loop.induct)
  case (3 n f fs lf st)
  show ?case
  proof (cases "library_frame f")
    case True
    then obtain ip start name where f: "fr_ip f = Some ip" "\<not> ip < USER_DATA_BASE" "fr_proc f = Some (start, name)" "fr_steps f"
      by (auto simp: library_frame_def)
    with 3 [OF f(1) f(2) f(3) refl refl f(4)] call_from_library [OF True f(3)] show ?thesis
      by (simp add: Let_def)
  next
    case False
    then show ?thesis
      by (auto simp: call_from_other library_frame_def Let_def not_less split: option.splits)
  qed
qed (simp_all add: call_from_0, simp add: call_from_def)

lemma turn_finds:
  "CallIP (calls (trace_turn w s)) = CallIP (calls s) \<union> fst ` sites_of w"
  "LastFun (calls (trace_turn w s)) = LastFun (calls s) \<union> snd ` sites_of w"
  using backtrace_finds [of backtrace_limit _ 0 "calls s"]
  by (auto simp: trace_turn_def sites_of_def trace_syscall_def do_backtrace_def call_site_def is_stopped_def Let_def
      split: wait_result.splits wait_status.splits option.splits)

text \<open>
  Everything that is read before the last thread leaves is taken into account, and nothing else is read.
\<close>

lemma loop_finds:
  "trace_loop ws s = (left, s') \<Longrightarrow> \<exists>seen. ws = seen @ left \<and> (left \<noteq> [] \<longrightarrow> threads s' = {})
     \<and> CallIP (calls s') = CallIP (calls s) \<union> fst ` (\<Union>w \<in> set seen. sites_of w)
     \<and> LastFun (calls s') = LastFun (calls s) \<union> snd ` (\<Union>w \<in> set seen. sites_of w)"
proof (induction ws arbitrary: s)
  case Nil
  then show ?case by (auto simp: trace_loop.simps [of "[]"] split: if_splits)
next
  case (Cons w ws)
  show ?case
  proof (cases "threads s = {}")
    case True
    with Cons.prems show ?thesis by (intro exI [of _ "[]"]) (simp add: trace_loop.simps [of "w # ws"])
  next
    case False
    with Cons.prems have "trace_loop ws (trace_turn w s) = (left, s')"
      by (simp add: trace_loop.simps [of "w # ws"])
    from Cons.IH [OF this] obtain seen where "ws = seen @ left" "left \<noteq> [] \<longrightarrow> threads s' = {}"
      "CallIP (calls s') = CallIP (calls (trace_turn w s)) \<union> fst ` (\<Union>w \<in> set seen. sites_of w)"
      "LastFun (calls s') = LastFun (calls (trace_turn w s)) \<union> snd ` (\<Union>w \<in> set seen. sites_of w)"
      by (elim exE conjE) (rule that, assumption+)
    then show ?thesis
      by (intro exI [of _ "w # seen"]) (simp add: turn_finds image_Un Un_assoc)
  qed
qed

text \<open>The threads: those that stopped and have not left since, while the loop runs.\<close>

lemma turn_threads:
  "threads (trace_turn w s) =
     (case w of WaitFailed \<Rightarrow> threads s
      | Waited pid status \<Rightarrow> if is_stopped status then insert pid (threads s) else threads s - {pid})"
  by (auto simp: trace_turn_def is_stopped_def Let_def split: wait_result.splits wait_status.splits)

text \<open>When \<open>waitpid\<close> goes on failing, the loop spins.\<close>

lemma loop_spins: "threads s \<noteq> {} \<Longrightarrow> trace_loop (replicate n WaitFailed) s = ([], s)"
  by (induction n) (simp_all add: trace_loop.simps [of "[]"] trace_loop.simps [of "_ # _"] trace_turn_def)

section \<open>The file reads back\<close>

text \<open>\<open>Next\<close>, called for one record after the other.\<close>

fun read_records :: "decompressor \<Rightarrow> nat \<Rightarrow> nat \<Rightarrow> trace_iter \<Rightarrow> (bytes list \<times> trace_iter) option" where
  "read_records D len 0 it = Some ([], it)"
| "read_records D len (Suc n) it = do {
     (r, it1) \<leftarrow> Next D len it;
     r \<leftarrow> r;
     (rs, it2) \<leftarrow> read_records D len n it1;
     Some (r # rs, it2)
   }"

lemma read_records_append:
  "read_records D len n it = Some (rs, it1) \<Longrightarrow> read_records D len m it1 = Some (rs', it2) \<Longrightarrow>
   read_records D len (n + m) it = Some (rs @ rs', it2)"
  by (induction n arbitrary: it rs) (auto elim!: bind_SomeE)

lemma read_records_block:
  assumes "ti_decoded it = pre @ concat rs" "decoded_iter it = length pre" "\<forall>r \<in> set rs. length r = len" "0 < len"
  shows "read_records D len (length rs) it = Some (rs, it\<lparr>decoded_iter := length (ti_decoded it)\<rparr>)"
  using assms
proof (induction rs arbitrary: it pre)
  case Nil
  then have "it\<lparr>decoded_iter := length (ti_decoded it)\<rparr> = it" by (cases it) simp
  then show ?case by simp
next
  case (Cons r rs)
  let ?it = "it\<lparr>decoded_iter := length (pre @ r)\<rparr>"
  have "Next D len it = Some (Some r, ?it)"
    using Cons.prems by (simp add: Next_def Prepare_def require_def)
  moreover have "read_records D len (length rs) ?it = Some (rs, ?it\<lparr>decoded_iter := length (ti_decoded ?it)\<rparr>)"
    using Cons.prems by (intro Cons.IH [of _ "pre @ r"]) simp_all
  ultimately show ?case by simp
qed

lemma read_records_cong:
  "Prepare D it = Prepare D it' \<Longrightarrow> read_records D len (Suc n) it = read_records D len (Suc n) it'"
  by (simp add: Next_def)

lemma Next_end:
  "decoded_iter it \<ge> length (ti_decoded it) \<Longrightarrow> data_iter it \<ge> length (ti_trace it) \<Longrightarrow> Next D len it = Some (None, it)"
  by (simp add: Next_def Prepare_def)

lemma read_records_file:
  assumes ok: "lz4_ok C D" and len: "0 < len"
    and it: "ti_trace it = pre @ file_of C (map concat gs)" "data_iter it = length pre"
      "decoded_iter it \<ge> length (ti_decoded it)" "\<not> ti_ended it"
    and gs: "[] \<notin> set gs" "\<forall>g \<in> set gs. length (concat g) \<le> COMPRESS_BLOCK_SIZE" "\<forall>r \<in> set (concat gs). length r = len"
  shows "\<exists>it'. read_records D len (length (concat gs)) it = Some (concat gs, it') \<and> Next D len it' = Some (None, it')"
  using it gs
proof (induction gs arbitrary: it pre)
  case Nil
  then show ?case by (auto simp: Next_end file_of_simps)
next
  case (Cons g gs)
  let ?b = "concat g"
  let ?it1 = "it\<lparr>ti_decoded := ?b, decoded_iter := 0, data_iter := length (pre @ frame C ?b)\<rparr>"
  let ?it2 = "?it1\<lparr>decoded_iter := length (ti_decoded ?it1)\<rparr>"
  have b: "?b \<noteq> []" "length ?b \<le> COMPRESS_BLOCK_SIZE"
    using Cons.prems(5-7) len by (cases g; fastforce)+
  have tr: "ti_trace it = pre @ frame C ?b @ file_of C (map concat gs)"
    using Cons.prems(1) by (simp add: file_of_simps)
  have p: "Prepare D it = Some (True, ?it1)"
    by (rule Prepare_frame [OF ok b tr Cons.prems(2-4)])
  moreover have "Prepare D ?it1 = Some (True, ?it1)"
    using b(1) by (simp add: Prepare_def del: concat_eq_Nil_conv)
  moreover obtain m where "length g = Suc m" using Cons.prems(5) by (cases g) auto
  ultimately have "read_records D len (length g) it = read_records D len (length g) ?it1"
    using read_records_cong [of D it ?it1 len m] by simp
  moreover have "read_records D len (length g) ?it1 = Some (g, ?it2)"
    using Cons.prems(7) len by (intro read_records_block [of _ "[]"]) simp_all
  ultimately have first: "read_records D len (length g) it = Some (g, ?it2)" by simp
  have "ti_trace ?it2 = (pre @ frame C ?b) @ file_of C (map concat gs)" "data_iter ?it2 = length (pre @ frame C ?b)"
    "decoded_iter ?it2 \<ge> length (ti_decoded ?it2)" "\<not> ti_ended ?it2"
    using tr Cons.prems(4) by simp_all
  from Cons.IH [OF this] Cons.prems(5-7) obtain it' where
    "read_records D len (length (concat gs)) ?it2 = Some (concat gs, it')" "Next D len it' = Some (None, it')" by auto
  with read_records_append [OF first this(1)] show ?case by auto
qed

lemma file_of_records:
  assumes "\<forall>r \<in> set rs. length r \<le> COMPRESS_BLOCK_SIZE" "rs \<noteq> []"
  shows "\<exists>cb gs. fold_opt (CompressBuffer_Append C) rs CompressBuffer_new = Some cb
    \<and> CompressBuffer_delete C cb = file_of C (map concat gs) \<and> concat gs = rs \<and> [] \<notin> set gs
    \<and> (\<forall>g \<in> set gs. length (concat g) \<le> COMPRESS_BLOCK_SIZE)"
proof -
  have "cb_holds C CompressBuffer_new [] (concat [])"
    by (simp add: cb_holds_def CompressBuffer_new_def file_of_simps)
  from cbuf.emit_all [OF this, of rs] assms obtain cb gs g where
    "fold_opt (CompressBuffer_Append C) rs CompressBuffer_new = Some cb"
    "cb_holds C cb (map concat gs) (concat g)" "concat gs @ g = rs" "length (concat g) \<le> COMPRESS_BLOCK_SIZE"
    "list_all (\<lambda>h. h \<noteq> [] \<and> length (concat h) \<le> COMPRESS_BLOCK_SIZE) gs" "g \<noteq> []"
    by (auto simp: list_all_iff)
  then show ?thesis
    by (intro exI [of _ cb] exI [of _ "gs @ [g]"])
      (auto simp: CompressBuffer_delete_def cb_holds_def file_of_append file_of_simps list_all_iff)
qed

lemma set_in_order [simp]: "set (in_order S) = S" "length (in_order S) = card S"
  using finite_subset [OF subset_UNIV finite_class.finite_UNIV, of S] by (simp_all add: in_order_def)

lemma dump_reads_back:
  assumes "lz4_ok C D" "dump_calls C st = Some trace" "CallIP st \<noteq> {}"
  shows "\<exists>it. read_records D 8 (card (CallIP st) + card (LastFun st)) (TraceIter trace)
      = Some (map w64 (in_order (CallIP st) @ in_order (LastFun st)), it) \<and> Next D 8 it = Some (None, it)"
proof -
  let ?ws = "map w64 (in_order (CallIP st) @ in_order (LastFun st))"
  have n: "length ?ws = card (CallIP st) + card (LastFun st)" by simp
  have "set ?ws \<noteq> {}" using assms(3) by simp
  then have "?ws \<noteq> []" by blast
  moreover have eight: "\<forall>r \<in> set ?ws. length r = 8" by auto
  then have "\<forall>r \<in> set ?ws. length r \<le> COMPRESS_BLOCK_SIZE" by (auto simp: COMPRESS_BLOCK_SIZE_def)
  ultimately obtain cb gs where f: "fold_opt (CompressBuffer_Append C) ?ws CompressBuffer_new = Some cb"
    "CompressBuffer_delete C cb = file_of C (map concat gs)" "concat gs = ?ws" "[] \<notin> set gs"
    "\<forall>g \<in> set gs. length (concat g) \<le> COMPRESS_BLOCK_SIZE"
    using file_of_records [of ?ws C] by blast
  then have "trace = file_of C (map concat gs)"
    using assms(2) by (simp add: dump_calls_def)
  then have "\<exists>it. read_records D 8 (length (concat gs)) (TraceIter trace) = Some (concat gs, it) \<and> Next D 8 it = Some (None, it)"
    using f(3-5) eight by (intro read_records_file [OF assms(1), of 8 _ "[]"]) (simp_all add: TraceIter_def)
  then show ?thesis unfolding f(3) n .
qed

lemma dump_total: "\<exists>trace. dump_calls C st = Some trace"
proof (cases "map w64 (in_order (CallIP st) @ in_order (LastFun st)) = []")
  case True
  then show ?thesis unfolding dump_calls_def by simp
next
  case False
  have "\<forall>r \<in> set (map w64 (in_order (CallIP st) @ in_order (LastFun st))). length r \<le> COMPRESS_BLOCK_SIZE"
    by (auto simp: COMPRESS_BLOCK_SIZE_def)
  from file_of_records [OF this False] obtain cb where
    "fold_opt (CompressBuffer_Append C) (map w64 (in_order (CallIP st) @ in_order (LastFun st))) CompressBuffer_new = Some cb"
    by blast
  then show ?thesis by (simp add: dump_calls_def)
qed

text \<open>The whole tool: what it finds, and that it can be read.\<close>

lemma strace_reads_back:
  assumes ok: "lz4_ok C D" and run: "trace_loop ws (tracer_init child) = (left, s)" "threads s = {}"
    and ne: "w \<in> set ws - set left" "sites_of w \<noteq> {}"
  shows "\<exists>trace it seen. do_trace C child ws = Some trace \<and> ws = seen @ left
    \<and> read_records D 8 (card (CallIP (calls s)) + card (LastFun (calls s))) (TraceIter trace)
        = Some (map w64 (in_order (fst ` (\<Union>w \<in> set seen. sites_of w)) @ in_order (snd ` (\<Union>w \<in> set seen. sites_of w))), it)
    \<and> Next D 8 it = Some (None, it)"
proof -
  obtain seen where seen: "ws = seen @ left" "CallIP (calls s) = fst ` (\<Union>w \<in> set seen. sites_of w)"
    "LastFun (calls s) = snd ` (\<Union>w \<in> set seen. sites_of w)"
    using loop_finds [OF run(1)] by (auto simp: tracer_init_def)
  obtain trace where t: "dump_calls C (calls s) = Some trace" using dump_total by blast
  have "w \<in> set seen" using ne(1) seen(1) by auto
  then have "CallIP (calls s) \<noteq> {}" unfolding seen(2) using ne(2) by blast
  from dump_reads_back [OF ok t this] obtain it where
    "read_records D 8 (card (CallIP (calls s)) + card (LastFun (calls s))) (TraceIter trace)
      = Some (map w64 (in_order (CallIP (calls s)) @ in_order (LastFun (calls s))), it)" "Next D 8 it = Some (None, it)" by blast
  moreover have "do_trace C child ws = Some trace"
    using run t by (simp add: do_trace_def Let_def)
  ultimately show ?thesis using seen by (intro exI [of _ trace] exI [of _ it] exI [of _ seen]) simp
qed

section \<open>A run\<close>

text \<open>One stop in \<open>write\<close>, called from the program, and the end.\<close>

definition ex_stops :: "wait_result list" where
  "ex_stops =
     [Waited 1 (Stopped 1 (Some
        [\<lparr>fr_ip = Some 0x7f0000000010, fr_proc = Some (0x7f0000000000, ''write''), fr_steps = True\<rparr>,
         \<lparr>fr_ip = Some 0x400005, fr_proc = None, fr_steps = False\<rparr>])),
      Waited 1 Exited]"

definition ex_traced :: tracer where
  "ex_traced = \<lparr>threads = {}, calls = \<lparr>CallIP = {0x400000}, LastFun = {0x7f0000000000},
     Start2FunName = [0x7f0000000000 \<mapsto> ''write'']\<rparr>\<rparr>"

lemma in_order_single: "in_order {x} = [x]"
  by (simp add: in_order_def)

lemma backtrace_64: "backtrace_loop 64 (f # g # fs) lf st = backtrace_loop (Suc (Suc 62)) (f # g # fs) lf st"
  by simp

lemma ex_stops_loop: "trace_loop ex_stops (tracer_init 1) = ([], ex_traced)"
proof -
  have "backtrace_loop 64
      [\<lparr>fr_ip = Some 0x7f0000000010, fr_proc = Some (0x7f0000000000, ''write''), fr_steps = True\<rparr>,
       \<lparr>fr_ip = Some 0x400005, fr_proc = None, fr_steps = False\<rparr>] 0
      \<lparr>CallIP = {}, LastFun = {}, Start2FunName = Map.empty\<rparr> = calls ex_traced"
    unfolding backtrace_64 backtrace_loop.simps by (simp add: USER_DATA_BASE_def ex_traced_def)
  then show ?thesis
    by (simp add: ex_stops_def trace_loop.simps tracer_init_def trace_turn_def trace_syscall_def watched_syscall_def
        do_backtrace_def backtrace_limit_def is_stopped_def ex_traced_def)
qed

lemma ex_stops_site: "sites_of (hd ex_stops) = {(0x400000, 0x7f0000000000)}" "sites_of (last ex_stops) = {}"
  by (simp_all add: ex_stops_def sites_of_def watched_syscall_def call_site_def call_from_def library_frame_def
      backtrace_limit_def USER_DATA_BASE_def)

lemma ex_stops_set: "set ex_stops = {hd ex_stops, last ex_stops}"
  by (simp add: ex_stops_def)

end
