(* ===== verification/PassManagerBuilder.thy ===== *)
theory PassManagerBuilder
  imports Prelude
begin

text \<open>
  The pass pipelines (\<open>lib/SlimmerLTO/PassManagerBuilder.cpp\<close>): a pipeline is the list of the passes added
  to the pass manager, in order. The passes are LLVM's, but for \<open>SlimmerTracePass\<close>; here they are names. An
  extension adds the passes it computes from the builder's settings.
\<close>

datatype llvm_pass =
    VerifierPass | DataLayoutPass | TargetAnalysisPass nat | TargetLibraryInfoPass
  | TypeBasedAliasAnalysisPass | BasicAliasAnalysisPass
  | SlimmerTracePass
  | InternalizePass "string list"
  | FunctionInliningPass "u32 option" | OtherInlinerPass nat
  | BarrierNoopPass | CFGSimplificationPass | SROAPass bool | ScalarReplAggregatesPass bool
  | EarlyCSEPass | LowerExpectIntrinsicPass | GlobalOptimizerPass | IPSCCPPass | DeadArgEliminationPass
  | InstructionCombiningPass | PruneEHPass | FunctionAttrsPass | ArgumentPromotionPass | JumpThreadingPass
  | CorrelatedValuePropagationPass | TailCallEliminationPass | ReassociatePass | LoopRotatePass | LICMPass
  | LoopUnswitchPass bool | IndVarSimplifyPass | LoopIdiomPass | LoopDeletionPass | LoopVectorizePass bool
  | LoopUnrollPass | GVNPass | MemCpyOptPass | SCCPPass | DeadStoreEliminationPass | LoopRerollPass
  | SLPVectorizerPass | BBVectorizePass | AggressiveDCEPass | StripDeadPrototypesPass | GlobalDCEPass
  | ConstantMergePass | ObjCARCContractPass | CodeGenPass nat | ExtensionPass nat

datatype extension_point =
    EP_EarlyAsPossible | EP_ModuleOptimizerEarly | EP_LoopOptimizerEnd | EP_ScalarOptimizerLate
  | EP_OptimizerLast | EP_EnabledOnOptLevel0

text \<open>The command line's options, and the builder's fields.\<close>

record pass_flags =
  RunLoopVectorization :: bool
  LateVectorization :: bool
  RunSLPVectorization :: bool
  RunBBVectorization :: bool
  UseGVNAfterVectorization :: bool
  UseNewSROA :: bool
  RunLoopRerolling :: bool

definition default_flags :: pass_flags where
  "default_flags = \<lparr>RunLoopVectorization = False, LateVectorization = True, RunSLPVectorization = False,
     RunBBVectorization = False, UseGVNAfterVectorization = False, UseNewSROA = True, RunLoopRerolling = False\<rparr>"

record pass_settings =
  OptLevel :: u32
  SizeLevel :: u32
  LibraryInfo :: bool \<comment> \<open>whether there is one\<close>
  Inliner :: "llvm_pass option"
  DisableUnitAtATime :: bool
  DisableUnrollLoops :: bool
  BBVectorize :: bool
  SLPVectorize :: bool
  LoopVectorize :: bool
  LateVectorize :: bool
  RerollLoops :: bool

type_synonym extension = "extension_point \<times> (pass_settings \<Rightarrow> llvm_pass list)"

record pass_builder = pass_settings +
  Extensions :: "extension list"

definition PassManagerBuilder_new :: "pass_flags \<Rightarrow> pass_builder" where
  "PassManagerBuilder_new fl =
     \<lparr>OptLevel = 2, SizeLevel = 0, LibraryInfo = False, Inliner = None, DisableUnitAtATime = False,
      DisableUnrollLoops = False, BBVectorize = RunBBVectorization fl, SLPVectorize = RunSLPVectorization fl,
      LoopVectorize = RunLoopVectorization fl, LateVectorize = LateVectorization fl,
      RerollLoops = RunLoopRerolling fl, Extensions = []\<rparr>"

definition addGlobalExtension :: "extension_point \<Rightarrow> (pass_settings \<Rightarrow> llvm_pass list) \<Rightarrow> extension list \<Rightarrow> extension list" where
  "addGlobalExtension Ty Fn GlobalExtensions = GlobalExtensions @ [(Ty, Fn)]"

definition addExtension :: "extension_point \<Rightarrow> (pass_settings \<Rightarrow> llvm_pass list) \<Rightarrow> pass_builder \<Rightarrow> pass_builder" where
  "addExtension Ty Fn b = b\<lparr>Extensions := Extensions b @ [(Ty, Fn)]\<rparr>"

definition extension_passes :: "extension_point \<Rightarrow> pass_builder \<Rightarrow> extension list \<Rightarrow> llvm_pass list" where
  "extension_passes ETy b es = concat (map (\<lambda>(Ty, Fn). if Ty = ETy then Fn (pass_settings.truncate b) else []) es)"

definition addExtensionsToPM :: "extension list \<Rightarrow> extension_point \<Rightarrow> pass_builder \<Rightarrow> llvm_pass list \<Rightarrow> llvm_pass list" where
  "addExtensionsToPM GlobalExtensions ETy b PM =
     PM @ extension_passes ETy b GlobalExtensions @ extension_passes ETy b (Extensions b)"

definition addInitialAliasAnalysisPasses :: "llvm_pass list \<Rightarrow> llvm_pass list" where
  "addInitialAliasAnalysisPasses PM = PM @ [TypeBasedAliasAnalysisPass, BasicAliasAnalysisPass]"

definition populateFunctionPassManager ::
  "extension list \<Rightarrow> pass_flags \<Rightarrow> pass_builder \<Rightarrow> llvm_pass list \<Rightarrow> llvm_pass list" where
  "populateFunctionPassManager GlobalExtensions fl b FPM =
     (let FPM1 = addExtensionsToPM GlobalExtensions EP_EarlyAsPossible b FPM;
          FPM2 = FPM1 @ (if LibraryInfo b then [TargetLibraryInfoPass] else []) in
      if OptLevel b = 0 then FPM2
      else addInitialAliasAnalysisPasses FPM2 @
        [CFGSimplificationPass,
         if UseNewSROA fl then SROAPass True else ScalarReplAggregatesPass True,
         EarlyCSEPass, LowerExpectIntrinsicPass])"

text \<open>
  The inliner is handed to the pass manager and taken from the builder. The groups of passes between two
  conditions of the source are the lines of the list.
\<close>

definition populateModulePassManager ::
  "extension list \<Rightarrow> pass_flags \<Rightarrow> pass_builder \<Rightarrow> llvm_pass list \<Rightarrow> llvm_pass list \<times> pass_builder" where
  "populateModulePassManager GlobalExtensions fl b MPM =
     (let inliner = (case Inliner b of Some i \<Rightarrow> [i] | None \<Rightarrow> []);
          b1 = b\<lparr>Inliner := None\<rparr>;
          ext = (\<lambda>ETy b PM. addExtensionsToPM GlobalExtensions ETy b PM) in
      if OptLevel b = 0 then
        (ext EP_EnabledOnOptLevel0 b1
          (MPM @ inliner @ (if GlobalExtensions \<noteq> [] \<or> Extensions b \<noteq> [] then [BarrierNoopPass] else [])), b1)
      else
        let M1 = addInitialAliasAnalysisPasses (MPM @ (if LibraryInfo b then [TargetLibraryInfoPass] else []));
            M2 = (if DisableUnitAtATime b then M1
                  else ext EP_ModuleOptimizerEarly b M1 @
                    [GlobalOptimizerPass, IPSCCPPass, DeadArgEliminationPass, InstructionCombiningPass, CFGSimplificationPass]);
            M3 = M2 @ (if DisableUnitAtATime b then [] else [PruneEHPass])
                    @ inliner
                    @ (if DisableUnitAtATime b then [] else [FunctionAttrsPass])
                    @ (if OptLevel b > 2 then [ArgumentPromotionPass] else [])
                    @ [if UseNewSROA fl then SROAPass False else ScalarReplAggregatesPass False,
                       EarlyCSEPass, JumpThreadingPass, CorrelatedValuePropagationPass, CFGSimplificationPass,
                       InstructionCombiningPass, TailCallEliminationPass, CFGSimplificationPass, ReassociatePass,
                       LoopRotatePass, LICMPass, LoopUnswitchPass (SizeLevel b \<noteq> 0 \<or> OptLevel b < 3),
                       InstructionCombiningPass, IndVarSimplifyPass, LoopIdiomPass, LoopDeletionPass]
                    @ (if \<not> LateVectorize b \<and> LoopVectorize b then [LoopVectorizePass (DisableUnrollLoops b)] else [])
                    @ (if DisableUnrollLoops b then [] else [LoopUnrollPass]);
            M4 = ext EP_LoopOptimizerEnd b1 M3
                    @ (if OptLevel b > 1 then [GVNPass] else [])
                    @ [MemCpyOptPass, SCCPPass, InstructionCombiningPass, JumpThreadingPass,
                       CorrelatedValuePropagationPass, DeadStoreEliminationPass];
            M5 = ext EP_ScalarOptimizerLate b1 M4
                    @ (if RerollLoops b then [LoopRerollPass] else [])
                    @ (if SLPVectorize b then [SLPVectorizerPass] else [])
                    @ (if BBVectorize b
                       then [BBVectorizePass, InstructionCombiningPass,
                             if OptLevel b > 1 \<and> UseGVNAfterVectorization fl then GVNPass else EarlyCSEPass]
                            @ (if DisableUnrollLoops b then [] else [LoopUnrollPass])
                       else [])
                    @ [AggressiveDCEPass, CFGSimplificationPass, InstructionCombiningPass]
                    @ (if LateVectorize b \<and> LoopVectorize b
                       then [BarrierNoopPass, LoopVectorizePass (DisableUnrollLoops b), InstructionCombiningPass,
                             CFGSimplificationPass]
                       else [])
                    @ (if DisableUnitAtATime b then []
                       else StripDeadPrototypesPass # (if OptLevel b > 1 then [GlobalDCEPass, ConstantMergePass] else []))
        in (ext EP_OptimizerLast b1 M5, b1))"

text \<open>What is left of the link-time pipeline: the alias analyses and the instrumentation.\<close>

definition populateLTOPassManager :: "llvm_pass list \<Rightarrow> bool \<Rightarrow> bool \<Rightarrow> bool \<Rightarrow> llvm_pass list" where
  "populateLTOPassManager PM Internalize RunInliner DisableGVNLoadPRE =
     addInitialAliasAnalysisPasses PM @ [SlimmerTracePass]"

section \<open>The C interface\<close>

definition LLVMPassManagerBuilderSetOptLevel :: "u32 \<Rightarrow> pass_builder \<Rightarrow> pass_builder" where
  "LLVMPassManagerBuilderSetOptLevel n b = b\<lparr>OptLevel := n\<rparr>"

definition LLVMPassManagerBuilderSetSizeLevel :: "u32 \<Rightarrow> pass_builder \<Rightarrow> pass_builder" where
  "LLVMPassManagerBuilderSetSizeLevel n b = b\<lparr>SizeLevel := n\<rparr>"

definition LLVMPassManagerBuilderSetDisableUnitAtATime :: "i32 \<Rightarrow> pass_builder \<Rightarrow> pass_builder" where
  "LLVMPassManagerBuilderSetDisableUnitAtATime v b = b\<lparr>DisableUnitAtATime := (v \<noteq> 0)\<rparr>"

definition LLVMPassManagerBuilderSetDisableUnrollLoops :: "i32 \<Rightarrow> pass_builder \<Rightarrow> pass_builder" where
  "LLVMPassManagerBuilderSetDisableUnrollLoops v b = b\<lparr>DisableUnrollLoops := (v \<noteq> 0)\<rparr>"

definition LLVMPassManagerBuilderUseInlinerWithThreshold :: "u32 \<Rightarrow> pass_builder \<Rightarrow> pass_builder" where
  "LLVMPassManagerBuilderUseInlinerWithThreshold n b = b\<lparr>Inliner := Some (FunctionInliningPass (Some n))\<rparr>"

definition LLVMPassManagerBuilderPopulateLTOPassManager :: "llvm_pass list \<Rightarrow> i32 \<Rightarrow> i32 \<Rightarrow> llvm_pass list" where
  "LLVMPassManagerBuilderPopulateLTOPassManager PM Internalize RunInliner =
     populateLTOPassManager PM (Internalize \<noteq> 0) (RunInliner \<noteq> 0) False"

section \<open>What the pipelines contain\<close>

text \<open>Passes that only look at a module.\<close>

fun analysis_pass :: "llvm_pass \<Rightarrow> bool" where
  "analysis_pass VerifierPass = True"
| "analysis_pass DataLayoutPass = True"
| "analysis_pass (TargetAnalysisPass n) = True"
| "analysis_pass TargetLibraryInfoPass = True"
| "analysis_pass TypeBasedAliasAnalysisPass = True"
| "analysis_pass BasicAliasAnalysisPass = True"
| "analysis_pass BarrierNoopPass = True"
| "analysis_pass p = False"

lemma count_choice:
  "count_list (if c then xs else ys) x = (if c then count_list xs x else count_list ys x)"
  "(if c then a else b) = x \<longleftrightarrow> (if c then a = x else b = x)"
  by simp_all

text \<open>
  The module pipeline owns the inliner: it is in it as often as the builder had it, once, and the builder
  does not delete or hand out what the pass manager owns. (An extension does not add this inliner, and it
  is none of the pipeline's own passes.)
\<close>

lemma inliner_handed_over:
  assumes i: "Inliner b = Some (FunctionInliningPass n)" and MPM: "FunctionInliningPass n \<notin> set MPM"
    and ext: "\<And>ETy Fn s. (ETy, Fn) \<in> set (GlobalExtensions @ Extensions b) \<Longrightarrow> FunctionInliningPass n \<notin> set (Fn s)"
    and r: "populateModulePassManager GlobalExtensions fl b MPM = (MPM', b')"
  shows "count_list MPM' (FunctionInliningPass n) = 1 \<and> Inliner b' = None \<and>
    (\<forall>M. count_list (fst (populateModulePassManager GlobalExtensions fl b' M)) (FunctionInliningPass n) =
         count_list M (FunctionInliningPass n))"
proof -
  let ?I = "FunctionInliningPass n"
  have none: "count_list (extension_passes ETy c es) ?I = 0"
    if "set es \<subseteq> set (GlobalExtensions @ Extensions b)" for ETy c es
    using that ext by (induction es) (auto simp: extension_passes_def count_list_0_iff split: prod.split)
  have e: "count_list (addExtensionsToPM GlobalExtensions ETy c M) ?I = count_list M ?I"
    if "Extensions c = Extensions b" for ETy c M
    by (simp add: addExtensionsToPM_def none that)
  have b': "b' = b\<lparr>Inliner := None\<rparr>"
    using r by (auto simp: populateModulePassManager_def Let_def split: if_splits)
  have own: "count_list (fst (populateModulePassManager GlobalExtensions fl c M)) ?I =
      count_list M ?I + (case Inliner c of Some i \<Rightarrow> count_list [i] ?I | None \<Rightarrow> 0)"
    if "Extensions c = Extensions b" for c M
  proof -
    have that': "Extensions (c\<lparr>Inliner := None\<rparr>) = Extensions b" by (simp add: that)
    show ?thesis
      unfolding populateModulePassManager_def Let_def addInitialAliasAnalysisPasses_def
      by (cases "Inliner c") (simp_all only: fst_conv if_distrib [of fst] e [OF that] e [OF that']
          count_list_append count_list.simps count_choice llvm_pass.distinct llvm_pass.inject
          if_False if_True if_cancel option.case add_0 add_0_right simp_thms)
  qed
  have "count_list MPM' ?I = 1"
    using own [of b MPM] r i MPM by (simp add: count_list_0_iff)
  moreover have "count_list (fst (populateModulePassManager GlobalExtensions fl b' M)) ?I = count_list M ?I" for M
    using own [of b' M] by (simp add: b')
  ultimately show ?thesis by (simp add: b')
qed

end
