(* ===== verification/LTOSymbols.thy ===== *)
theory LTOSymbols
  imports Prelude
begin

text \<open>
  The symbol table the linker is given for a module (\<open>lib/SlimmerLTO/LTOModule.cpp\<close>). LLVM's global
  values, its mangler and its assembler parser are outside: a global value is a record of what the code
  asks of it, the assembler text is the list of what the parser reports to the streamer. An attribute
  word is a record of its fields, which the code combines by \<open>|=\<close> from disjoint bits. A \<open>StringMap\<close> is a
  map; the order of iteration over it, a hash's, is a parameter.
\<close>

section \<open>What LLVM says of a global value\<close>

datatype global_kind = FunctionValue | VariableValue | AliasValue

datatype linkage_type =
    ExternalLinkage | AvailableExternallyLinkage | LinkOnceAnyLinkage | LinkOnceODRLinkage
  | WeakAnyLinkage | WeakODRLinkage | AppendingLinkage | InternalLinkage | PrivateLinkage
  | LinkerPrivateLinkage | LinkerPrivateWeakLinkage | ExternalWeakLinkage | CommonLinkage

datatype visibility_type = DefaultVisibility | HiddenVisibility | ProtectedVisibility

text \<open>Initialisers, as far as the Objective-C structures are looked into.\<close>

datatype llvm_const =
    StructConst "llvm_const list"
  | ExprConst llvm_const \<comment> \<open>operand 0\<close>
  | VariableConst llvm_const \<comment> \<open>its initialiser\<close>
  | CStringConst string
  | OtherConst

record global_value =
  gv_name :: string
  gv_mangled :: string
  gv_kind :: global_kind
  gv_linkage :: linkage_type
  gv_visibility :: visibility_type
  gv_alignment :: u32
  gv_constant :: bool
  gv_unnamed_addr :: bool
  gv_compared :: "bool option" \<comment> \<open>\<open>GlobalStatus\<close>: \<open>None\<close> where the analysis gives up\<close>
  gv_section :: "string option"
  gv_init :: llvm_const
  gv_materializable :: bool
  gv_no_body :: bool \<comment> \<open>\<open>V.isDeclaration()\<close>\<close>

section \<open>Symbols\<close>

datatype sym_permission = PermissionsCode | PermissionsData | PermissionsRoData

datatype sym_definition =
    DefinitionRegular | DefinitionTentative | DefinitionWeak | DefinitionUndefined | DefinitionWeakUndef

datatype sym_scope = ScopeInternal | ScopeHidden | ScopeProtected | ScopeDefault | ScopeDefaultCanBeHidden

record sym_attributes =
  at_align :: nat
  at_permissions :: "sym_permission option"
  at_definition :: "sym_definition option"
  at_scope :: "sym_scope option"

record sym_info = \<comment> \<open>\<open>NameAndAttributes\<close>\<close>
  sy_name :: "string option"
  sy_attributes :: sym_attributes
  sy_isFunction :: bool
  sy_symbol :: "global_value option"

definition no_attributes :: sym_attributes where
  "no_attributes = \<lparr>at_align = 0, at_permissions = None, at_definition = None, at_scope = None\<rparr>"

definition no_info :: sym_info where
  "no_info = \<lparr>sy_name = None, sy_attributes = no_attributes, sy_isFunction = False, sy_symbol = None\<rparr>"

text \<open>\<open>_defines\<close>, \<open>_undefines\<close>, \<open>_asm_undefines\<close> and \<open>_symbols\<close>; the value of every key of \<open>_defines\<close> is 1.\<close>

record lto_module =
  lm_defines :: "string set"
  lm_undefines :: "string \<Rightarrow> sym_info option"
  asm_undefines :: "string list"
  lm_symbols :: "sym_info list"

definition LTOModule_new :: lto_module where
  "LTOModule_new = \<lparr>lm_defines = {}, lm_undefines = Map.empty, asm_undefines = [], lm_symbols = []\<rparr>"

definition push_symbol :: "sym_info \<Rightarrow> lto_module \<Rightarrow> lto_module" where
  "push_symbol info m = m\<lparr>lm_symbols := lm_symbols m @ [info]\<rparr>"

definition define_name :: "string \<Rightarrow> lto_module \<Rightarrow> lto_module" where
  "define_name n m = m\<lparr>lm_defines := insert n (lm_defines m)\<rparr>"

text \<open>\<open>GetOrCreateValue\<close>, and the entry filled in unless it has a name.\<close>

definition note_undefined :: "string \<Rightarrow> sym_info \<Rightarrow> lto_module \<Rightarrow> lto_module" where
  "note_undefined n info m =
     (case lm_undefines m n of
        Some old \<Rightarrow> if sy_name old \<noteq> None then m else m\<lparr>lm_undefines := (lm_undefines m)(n \<mapsto> info)\<rparr>
      | None \<Rightarrow> m\<lparr>lm_undefines := (lm_undefines m)(n \<mapsto> info)\<rparr>)"

section \<open>Objective-C structures\<close>

definition objcClassNameFromExpression :: "llvm_const \<Rightarrow> string option" where
  "objcClassNameFromExpression c =
     (case c of ExprConst (VariableConst (CStringConst s)) \<Rightarrow> Some (''.objc_class_name_'' @ s) | _ \<Rightarrow> None)"

definition objc_undefined :: "string \<Rightarrow> global_value \<Rightarrow> sym_info" where
  "objc_undefined n clgv =
     \<lparr>sy_name = Some n, sy_attributes = no_attributes\<lparr>at_definition := Some DefinitionUndefined\<rparr>,
      sy_isFunction = False, sy_symbol = Some clgv\<rparr>"

definition addObjCClass :: "global_value \<Rightarrow> lto_module \<Rightarrow> lto_module option" where
  "addObjCClass clgv m =
     (case gv_init clgv of
        StructConst cs \<Rightarrow> do {
          superclass \<leftarrow> at cs 1;
          class \<leftarrow> at cs 2;
          let m1 = (case objcClassNameFromExpression superclass of
                      Some n \<Rightarrow> note_undefined n (objc_undefined n clgv) m | None \<Rightarrow> m);
          Some (case objcClassNameFromExpression class of
              Some n \<Rightarrow> push_symbol \<lparr>sy_name = Some n, sy_attributes = \<lparr>at_align = 0, at_permissions = Some PermissionsData,
                  at_definition = Some DefinitionRegular, at_scope = Some ScopeDefault\<rparr>,
                  sy_isFunction = False, sy_symbol = Some clgv\<rparr> (define_name n m1)
            | None \<Rightarrow> m1)
        }
      | _ \<Rightarrow> Some m)"

definition addObjCCategory :: "global_value \<Rightarrow> lto_module \<Rightarrow> lto_module option" where
  "addObjCCategory clgv m =
     (case gv_init clgv of
        StructConst cs \<Rightarrow> do {
          target \<leftarrow> at cs 1;
          Some (case objcClassNameFromExpression target of
              Some n \<Rightarrow> note_undefined n (objc_undefined n clgv) m | None \<Rightarrow> m)
        }
      | _ \<Rightarrow> Some m)"

definition addObjCClassRef :: "global_value \<Rightarrow> lto_module \<Rightarrow> lto_module" where
  "addObjCClassRef clgv m =
     (case objcClassNameFromExpression (gv_init clgv) of
        Some n \<Rightarrow> note_undefined n (objc_undefined n clgv) m | None \<Rightarrow> m)"

section \<open>Definitions\<close>

definition canBeHidden :: "global_value \<Rightarrow> bool" where
  "canBeHidden GV =
     (if gv_linkage GV \<noteq> LinkOnceODRLinkage then False
      else if gv_unnamed_addr GV then True
      else (case gv_compared GV of None \<Rightarrow> False | Some compared \<Rightarrow> \<not> compared))"

fun trailing_zeros :: "nat \<Rightarrow> u32 \<Rightarrow> nat" where
  "trailing_zeros 0 x = 0"
| "trailing_zeros (Suc n) x = (if bit x 0 then 0 else 1 + trailing_zeros n (drop_bit 1 x))"

definition weak_linkage :: "linkage_type \<Rightarrow> bool" where
  "weak_linkage l \<longleftrightarrow> l \<in> {WeakAnyLinkage, WeakODRLinkage, LinkOnceAnyLinkage, LinkOnceODRLinkage, LinkerPrivateWeakLinkage}"

definition defined_attributes :: "global_value \<Rightarrow> bool \<Rightarrow> sym_attributes" where
  "defined_attributes gv isFunction =
     \<lparr>at_align = (if gv_alignment gv \<noteq> 0 then trailing_zeros 32 (gv_alignment gv) else 0),
      at_permissions = Some (
        if isFunction then PermissionsCode
        else if gv_kind gv = VariableValue \<and> gv_constant gv then PermissionsRoData else PermissionsData),
      at_definition = Some (
        if weak_linkage (gv_linkage gv) then DefinitionWeak
        else if gv_linkage gv = CommonLinkage then DefinitionTentative else DefinitionRegular),
      at_scope = Some (
        if gv_visibility gv = HiddenVisibility then ScopeHidden
        else if gv_visibility gv = ProtectedVisibility then ScopeProtected
        else if canBeHidden gv then ScopeDefaultCanBeHidden
        else if gv_linkage gv = ExternalLinkage \<or> weak_linkage (gv_linkage gv) \<or> gv_linkage gv = CommonLinkage
          then ScopeDefault
        else ScopeInternal)\<rparr>"

definition llvm_name :: "global_value \<Rightarrow> bool" where
  "llvm_name gv \<longleftrightarrow> take 5 (gv_name gv) = ''llvm.''"

definition addDefinedSymbol :: "global_value \<Rightarrow> bool \<Rightarrow> lto_module \<Rightarrow> lto_module" where
  "addDefinedSymbol gv isFunction m =
     (if llvm_name gv then m
      else push_symbol \<lparr>sy_name = Some (gv_mangled gv), sy_attributes = defined_attributes gv isFunction,
             sy_isFunction = isFunction, sy_symbol = Some gv\<rparr> (define_name (gv_mangled gv) m))"

definition addDefinedDataSymbol :: "global_value \<Rightarrow> lto_module \<Rightarrow> lto_module option" where
  "addDefinedDataSymbol v m =
     (let m1 = addDefinedSymbol v False m in
      case gv_section v of
        None \<Rightarrow> Some m1
      | Some section \<Rightarrow>
          if take 15 section = ''__OBJC,__class,'' then (if gv_kind v = VariableValue then addObjCClass v m1 else Some m1)
          else if take 18 section = ''__OBJC,__category,'' then (if gv_kind v = VariableValue then addObjCCategory v m1 else Some m1)
          else if take 18 section = ''__OBJC,__cls_refs,''
            then Some (if gv_kind v = VariableValue then addObjCClassRef v m1 else m1)
          else Some m1)"

definition addDefinedFunctionSymbol :: "global_value \<Rightarrow> lto_module \<Rightarrow> lto_module" where
  "addDefinedFunctionSymbol f m = addDefinedSymbol f True m"

section \<open>References\<close>

definition addPotentialUndefinedSymbol :: "global_value \<Rightarrow> bool \<Rightarrow> lto_module \<Rightarrow> lto_module" where
  "addPotentialUndefinedSymbol gv isFunc m =
     (if llvm_name gv \<or> gv_kind gv = AliasValue then m
      else note_undefined (gv_mangled gv)
        \<lparr>sy_name = Some (gv_mangled gv),
         sy_attributes = no_attributes\<lparr>at_definition :=
           Some (if gv_linkage gv = ExternalWeakLinkage then DefinitionWeakUndef else DefinitionUndefined)\<rparr>,
         sy_isFunction = isFunc, sy_symbol = Some gv\<rparr> m)"

section \<open>Symbols of assembler text\<close>

text \<open>\<open>_symbols.back()\<close> of an empty vector is out of bounds.\<close>

definition rescope_last :: "sym_scope \<Rightarrow> lto_module \<Rightarrow> lto_module option" where
  "rescope_last scope m =
     (if lm_symbols m = [] then None
      else let info = last (lm_symbols m) in
        Some (m\<lparr>lm_symbols := butlast (lm_symbols m) @
          [info\<lparr>sy_attributes := (sy_attributes info)\<lparr>at_scope := Some scope\<rparr>\<rparr>]\<rparr>))"

definition addAsmGlobalSymbol :: "string \<Rightarrow> sym_scope \<Rightarrow> lto_module \<Rightarrow> lto_module option" where
  "addAsmGlobalSymbol name scope m =
     (if name \<in> lm_defines m then Some m
      else
        let m1 = define_name name m;
            info = (case lm_undefines m1 name of Some i \<Rightarrow> i | None \<Rightarrow> no_info) in
        (case sy_symbol info of
           None \<Rightarrow>
             let info1 = \<lparr>sy_name = Some name, sy_attributes = \<lparr>at_align = 0, at_permissions = Some PermissionsData,
                   at_definition = Some DefinitionRegular, at_scope = Some scope\<rparr>, sy_isFunction = False, sy_symbol = None\<rparr>
             in Some (push_symbol info1 (m1\<lparr>lm_undefines := (lm_undefines m1)(name \<mapsto> info1)\<rparr>))
         | Some gv \<Rightarrow> do {
             m2 \<leftarrow> (if sy_isFunction info then Some (addDefinedFunctionSymbol gv m1) else addDefinedDataSymbol gv m1);
             rescope_last scope m2
           }))"

definition addAsmGlobalSymbolUndef :: "string \<Rightarrow> lto_module \<Rightarrow> lto_module" where
  "addAsmGlobalSymbolUndef name m =
     note_undefined name
       \<lparr>sy_name = Some name, sy_attributes = no_attributes\<lparr>at_definition := Some DefinitionUndefined, at_scope := Some ScopeDefault\<rparr>,
        sy_isFunction = False, sy_symbol = None\<rparr>
       (m\<lparr>asm_undefines := asm_undefines m @ [name]\<rparr>)"

section \<open>\<open>RecordStreamer\<close>\<close>

datatype stream_state = NeverSeen | SeenGlobal | SeenDefined | DefinedGlobal | SeenUsed

datatype mc_expr =
    TargetExpr
  | ConstantExpr
  | BinaryExpr mc_expr mc_expr
  | SymbolRefExpr string
  | UnaryExpr mc_expr

text \<open>What the parser reports: an operand that is no expression is \<open>None\<close>.\<close>

datatype asm_event =
    EmitInstruction "mc_expr option list"
  | EmitLabel string
  | EmitDebugLabel string
  | EmitAssignment string
  | EmitSymbolAttribute string bool \<comment> \<open>\<open>MCSA_Global\<close>?\<close>
  | EmitZerofill string
  | EmitCommonSymbol string

type_synonym stream = "string \<Rightarrow> stream_state"

definition markDefined :: "string \<Rightarrow> stream \<Rightarrow> stream" where
  "markDefined x S = S(x := (case S x of
     DefinedGlobal \<Rightarrow> DefinedGlobal | SeenGlobal \<Rightarrow> DefinedGlobal | _ \<Rightarrow> SeenDefined))"

definition markGlobal :: "string \<Rightarrow> stream \<Rightarrow> stream" where
  "markGlobal x S = S(x := (case S x of
     DefinedGlobal \<Rightarrow> DefinedGlobal | SeenDefined \<Rightarrow> DefinedGlobal | _ \<Rightarrow> SeenGlobal))"

definition markUsed :: "string \<Rightarrow> stream \<Rightarrow> stream" where
  "markUsed x S = S(x := (case S x of NeverSeen \<Rightarrow> SeenUsed | SeenUsed \<Rightarrow> SeenUsed | s \<Rightarrow> s))"

fun AddValueSymbols :: "mc_expr \<Rightarrow> stream \<Rightarrow> stream" where
  "AddValueSymbols TargetExpr S = S"
| "AddValueSymbols ConstantExpr S = S"
| "AddValueSymbols (BinaryExpr l r) S = AddValueSymbols r (AddValueSymbols l S)"
| "AddValueSymbols (SymbolRefExpr x) S = markUsed x S"
| "AddValueSymbols (UnaryExpr e) S = AddValueSymbols e S"

text \<open>The operands are scanned from the last.\<close>

fun stream_event :: "asm_event \<Rightarrow> stream \<Rightarrow> stream" where
  "stream_event (EmitInstruction ops) S =
     fold (\<lambda>op S. case op of Some e \<Rightarrow> AddValueSymbols e S | None \<Rightarrow> S) (rev ops) S"
| "stream_event (EmitLabel x) S = markDefined x S"
| "stream_event (EmitDebugLabel x) S = markDefined x S"
| "stream_event (EmitAssignment x) S = markDefined x S"
| "stream_event (EmitSymbolAttribute x glob) S = (if glob then markGlobal x S else S)"
| "stream_event (EmitZerofill x) S = markDefined x S"
| "stream_event (EmitCommonSymbol x) S = markDefined x S"

definition RecordStreamer :: "asm_event list \<Rightarrow> stream" where
  "RecordStreamer es = fold stream_event es (\<lambda>_. NeverSeen)"

text \<open>The names that have an entry.\<close>

fun expr_symbols :: "mc_expr \<Rightarrow> string set" where
  "expr_symbols TargetExpr = {}"
| "expr_symbols ConstantExpr = {}"
| "expr_symbols (BinaryExpr l r) = expr_symbols l \<union> expr_symbols r"
| "expr_symbols (SymbolRefExpr x) = {x}"
| "expr_symbols (UnaryExpr e) = expr_symbols e"

fun uses_of :: "asm_event \<Rightarrow> string set" where
  "uses_of (EmitInstruction ops) = (\<Union>op \<in> set ops. case op of Some e \<Rightarrow> expr_symbols e | None \<Rightarrow> {})"
| "uses_of _ = {}"

fun globals_of :: "asm_event \<Rightarrow> string set" where
  "globals_of (EmitSymbolAttribute x glob) = (if glob then {x} else {})"
| "globals_of _ = {}"

fun labels_of :: "asm_event \<Rightarrow> string set" where
  "labels_of (EmitLabel x) = {x}"
| "labels_of (EmitDebugLabel x) = {x}"
| "labels_of (EmitAssignment x) = {x}"
| "labels_of (EmitZerofill x) = {x}"
| "labels_of (EmitCommonSymbol x) = {x}"
| "labels_of _ = {}"

definition stream_names :: "asm_event list \<Rightarrow> string set" where
  "stream_names es = (\<Union>e \<in> set es. uses_of e \<union> globals_of e \<union> labels_of e)"

definition add_streamed :: "stream \<Rightarrow> string \<Rightarrow> lto_module \<Rightarrow> lto_module option" where
  "add_streamed S x m =
     (case S x of
        DefinedGlobal \<Rightarrow> addAsmGlobalSymbol x ScopeDefault m
      | SeenDefined \<Rightarrow> addAsmGlobalSymbol x ScopeInternal m
      | SeenGlobal \<Rightarrow> Some (addAsmGlobalSymbolUndef x m)
      | SeenUsed \<Rightarrow> Some (addAsmGlobalSymbolUndef x m)
      | NeverSeen \<Rightarrow> Some m)"

text \<open>
  The assembler text is empty, or no parser takes it (the target has none, or it reports an error), or it
  is parsed. The Boolean the code returns is true for an error.
\<close>

datatype asm_text = NoAsm | AsmUnparsed | AsmParsed "asm_event list"

definition addAsmGlobalSymbols ::
  "(string set \<Rightarrow> string list) \<Rightarrow> asm_text \<Rightarrow> lto_module \<Rightarrow> (bool \<times> lto_module) option" where
  "addAsmGlobalSymbols order asm m =
     (case asm of
        NoAsm \<Rightarrow> Some (False, m)
      | AsmUnparsed \<Rightarrow> Some (True, m)
      | AsmParsed es \<Rightarrow> do {
          m1 \<leftarrow> fold_opt (add_streamed (RecordStreamer es)) (order (stream_names es)) m;
          Some (False, m1)
        })"

section \<open>The whole table\<close>

definition isDeclaration_gv :: "global_value \<Rightarrow> bool" where
  "isDeclaration_gv V =
     (if gv_linkage V = AvailableExternallyLinkage then True
      else if gv_materializable V then False else gv_no_body V)"

record ir_module =
  ir_functions :: "global_value list"
  ir_globals :: "global_value list"
  ir_aliases :: "(global_value \<times> global_value) list" \<comment> \<open>with what it stands for\<close>
  ir_asm :: asm_text

definition parse_function :: "global_value \<Rightarrow> lto_module \<Rightarrow> lto_module option" where
  "parse_function f m =
     Some (if isDeclaration_gv f then addPotentialUndefinedSymbol f True m else addDefinedFunctionSymbol f m)"

definition parse_global :: "global_value \<Rightarrow> lto_module \<Rightarrow> lto_module option" where
  "parse_global v m =
     (if isDeclaration_gv v then Some (addPotentialUndefinedSymbol v False m) else addDefinedDataSymbol v m)"

definition parse_alias :: "global_value \<times> global_value \<Rightarrow> lto_module \<Rightarrow> lto_module option" where
  "parse_alias a m =
     (if isDeclaration_gv (snd a) then Some (addPotentialUndefinedSymbol (fst a) False m)
      else addDefinedDataSymbol (fst a) m)"

definition push_undefines :: "(string set \<Rightarrow> string list) \<Rightarrow> lto_module \<Rightarrow> lto_module" where
  "push_undefines order m =
     fold (\<lambda>n m. case lm_undefines m n of
          Some info \<Rightarrow> if n \<in> lm_defines m then m else push_symbol info m
        | None \<Rightarrow> m) (order (dom (lm_undefines m))) m"

definition parseSymbols :: "(string set \<Rightarrow> string list) \<Rightarrow> ir_module \<Rightarrow> (bool \<times> lto_module) option" where
  "parseSymbols order M = do {
     m1 \<leftarrow> fold_opt parse_function (ir_functions M) LTOModule_new;
     m2 \<leftarrow> fold_opt parse_global (ir_globals M) m1;
     (err, m3) \<leftarrow> addAsmGlobalSymbols order (ir_asm M) m2;
     if err then Some (True, m3)
     else do {
       m4 \<leftarrow> fold_opt parse_alias (ir_aliases M) m3;
       Some (False, push_undefines order m4)
     }
   }"

text \<open>
  \<open>makeLTOModule\<close>: the bitcode reader's result and whether the registry knows the target are LLVM's. The
  inner \<open>None\<close> is the null pointer.
\<close>

definition makeLTOModule ::
  "(string set \<Rightarrow> string list) \<Rightarrow> (string \<Rightarrow> bool) \<Rightarrow> string \<Rightarrow> (string \<times> ir_module) option \<Rightarrow> lto_module option option" where
  "makeLTOModule order lookupTarget default_triple parsed =
     (case parsed of
        None \<Rightarrow> Some None
      | Some (triple, M) \<Rightarrow>
          if \<not> lookupTarget (if triple = [] then default_triple else triple) then Some None
          else do {
            (err, m) \<leftarrow> parseSymbols order M;
            Some (if err then None else Some m)
          })"

section \<open>The streamer does not depend on the order\<close>

text \<open>What was reported of a name decides its state.\<close>

definition stream_summary :: "bool \<Rightarrow> bool \<Rightarrow> bool \<Rightarrow> stream_state" where
  "stream_summary defd glob used =
     (if defd \<and> glob then DefinedGlobal else if defd then SeenDefined else if glob then SeenGlobal
      else if used then SeenUsed else NeverSeen)"

definition seen_as :: "string \<Rightarrow> bool \<Rightarrow> bool \<Rightarrow> bool \<Rightarrow> stream \<Rightarrow> bool" where
  "seen_as x defd glob used S \<longleftrightarrow> S x = stream_summary defd glob used"

lemma mark_seen_as:
  "seen_as x d g u S \<Longrightarrow> seen_as x (d \<or> x = y) g u (markDefined y S)"
  "seen_as x d g u S \<Longrightarrow> seen_as x d (g \<or> x = y) u (markGlobal y S)"
  "seen_as x d g u S \<Longrightarrow> seen_as x d g (u \<or> x = y) (markUsed y S)"
  by (auto simp: markDefined_def markGlobal_def markUsed_def seen_as_def stream_summary_def)

lemma AddValueSymbols_seen_as:
  "seen_as x d g u S \<Longrightarrow> seen_as x d g (u \<or> x \<in> expr_symbols e) (AddValueSymbols e S)"
proof (induction e arbitrary: S u)
  case (BinaryExpr l r)
  show ?case
    using BinaryExpr.IH(2) [OF BinaryExpr.IH(1) [OF BinaryExpr.prems]] by (simp add: disj_assoc)
next
  case (SymbolRefExpr y)
  then show ?case using mark_seen_as(3) [of x d g u S y] by simp
qed simp_all

lemma operands_seen_as:
  "seen_as x d g u S \<Longrightarrow>
   seen_as x d g (u \<or> x \<in> uses_of (EmitInstruction ops))
     (fold (\<lambda>op S. case op of Some e \<Rightarrow> AddValueSymbols e S | None \<Rightarrow> S) ops S)"
proof (induction ops arbitrary: S u)
  case (Cons op ops)
  have "seen_as x d g (u \<or> x \<in> (case op of Some e \<Rightarrow> expr_symbols e | None \<Rightarrow> {}))
          (case op of Some e \<Rightarrow> AddValueSymbols e S | None \<Rightarrow> S)"
    using AddValueSymbols_seen_as [OF Cons.prems] by (cases op) (simp_all add: Cons.prems)
  from Cons.IH [OF this] show ?case by (simp add: disj_assoc)
qed simp

lemma stream_event_seen_as:
  assumes "seen_as x d g u S"
  shows "seen_as x (d \<or> x \<in> labels_of e) (g \<or> x \<in> globals_of e) (u \<or> x \<in> uses_of e) (stream_event e S)"
proof (cases e)
  case (EmitInstruction ops)
  have "uses_of (EmitInstruction (rev ops)) = uses_of (EmitInstruction ops)" by simp
  with operands_seen_as [OF assms, of "rev ops"] EmitInstruction show ?thesis by simp
next
  case (EmitSymbolAttribute y glob)
  then show ?thesis using mark_seen_as(2) [OF assms, of y] assms by simp
qed (use mark_seen_as(1) [OF assms] in simp_all)

lemma stream_fold_seen_as:
  "seen_as x d g u S \<Longrightarrow>
   seen_as x (d \<or> x \<in> \<Union> (labels_of ` set es)) (g \<or> x \<in> \<Union> (globals_of ` set es)) (u \<or> x \<in> \<Union> (uses_of ` set es))
     (fold stream_event es S)"
proof (induction es arbitrary: S d g u)
  case (Cons e es)
  show ?case
    using Cons.IH [OF stream_event_seen_as [OF Cons.prems, of e]] by (simp add: disj_assoc)
qed simp

lemma RecordStreamer_summary:
  "RecordStreamer es x =
     stream_summary (x \<in> \<Union> (labels_of ` set es)) (x \<in> \<Union> (globals_of ` set es)) (x \<in> \<Union> (uses_of ` set es))"
  unfolding RecordStreamer_def
  using stream_fold_seen_as [of x False False False "\<lambda>_. NeverSeen" es] by (simp add: seen_as_def stream_summary_def)

lemma stream_names_seen: "x \<in> stream_names es \<longleftrightarrow> RecordStreamer es x \<noteq> NeverSeen"
  by (auto simp: RecordStreamer_summary stream_summary_def stream_names_def)

section \<open>What the table lists\<close>

abbreviation symbol_names :: "sym_info list \<Rightarrow> string option set" where
  "symbol_names ss \<equiv> sy_name ` set ss"

definition table_ok :: "lto_module \<Rightarrow> bool" where
  "table_ok m \<longleftrightarrow>
     symbol_names (lm_symbols m) \<subseteq> Some ` lm_defines m \<and>
     (\<forall>n i. lm_undefines m n = Some i \<longrightarrow> sy_name i = Some n) \<and> finite (dom (lm_undefines m))"

definition table_grows :: "lto_module \<Rightarrow> lto_module \<Rightarrow> bool" where
  "table_grows m m' \<longleftrightarrow>
     lm_defines m \<subseteq> lm_defines m' \<and> dom (lm_undefines m) \<subseteq> dom (lm_undefines m') \<and>
     symbol_names (lm_symbols m) \<subseteq> symbol_names (lm_symbols m') \<and> set (asm_undefines m) \<subseteq> set (asm_undefines m')"

lemma table_grows_refl: "table_grows m m"
  by (simp add: table_grows_def)

lemma table_grows_trans: "table_grows m n \<Longrightarrow> table_grows n p \<Longrightarrow> table_grows m p"
  unfolding table_grows_def by (elim conjE, intro conjI) (erule (1) subset_trans)+

text \<open>A step on the table: it keeps the invariant, and the table only grows.\<close>

definition table_step :: "lto_module \<Rightarrow> lto_module \<Rightarrow> bool" where
  "table_step m m' \<longleftrightarrow> (table_ok m \<longrightarrow> table_ok m') \<and> table_grows m m'"

lemma table_step_refl: "table_step m m"
  by (simp add: table_step_def table_grows_refl)

lemma table_step_trans: "table_step m n \<Longrightarrow> table_step n p \<Longrightarrow> table_step m p"
  unfolding table_step_def by (auto intro: table_grows_trans)

lemma push_defined_step: "sy_name i = Some n \<Longrightarrow> table_step m (push_symbol i (define_name n m))"
  by (auto simp: table_step_def table_ok_def table_grows_def push_symbol_def define_name_def)

lemma push_symbol_step: "sy_name i = Some n \<Longrightarrow> n \<in> lm_defines m \<Longrightarrow> table_step m (push_symbol i m)"
  by (auto simp: table_step_def table_ok_def table_grows_def push_symbol_def)

lemma define_name_step: "table_step m (define_name n m)"
  by (auto simp: table_step_def table_ok_def table_grows_def define_name_def)

lemma note_undefined_step: "sy_name i = Some n \<Longrightarrow> table_step m (note_undefined n i m)"
  by (auto simp: table_step_def table_ok_def table_grows_def note_undefined_def split: option.splits)

lemma set_undefined_step:
  "sy_name i = Some n \<Longrightarrow> table_step m (m\<lparr>lm_undefines := (lm_undefines m)(n \<mapsto> i)\<rparr>)"
  by (auto simp: table_step_def table_ok_def table_grows_def)

lemma note_undefined_dom: "n \<in> dom (lm_undefines (note_undefined n i m))"
  by (auto simp: note_undefined_def split: option.splits)

lemma addDefinedSymbol_step: "table_step m (addDefinedSymbol gv f m)"
  by (simp add: addDefinedSymbol_def push_defined_step table_step_refl)

lemma addDefinedSymbol_named:
  "\<not> llvm_name gv \<Longrightarrow> Some (gv_mangled gv) \<in> symbol_names (lm_symbols (addDefinedSymbol gv f m))"
  by (simp add: addDefinedSymbol_def push_symbol_def define_name_def)

lemma note_class_step:
  "table_step m (case c of Some n \<Rightarrow> note_undefined n (objc_undefined n gv) m | None \<Rightarrow> m)"
  by (simp add: note_undefined_step objc_undefined_def table_step_refl split: option.split)

lemma addObjC_step:
  "addObjCClass gv m = Some m' \<Longrightarrow> table_step m m'"
  "addObjCCategory gv m = Some m' \<Longrightarrow> table_step m m'"
  "table_step m (addObjCClassRef gv m)"
    apply (auto simp: addObjCClass_def fail_simps Let_def split: llvm_const.splits option.splits
      intro: table_step_refl push_defined_step note_undefined_step
        table_step_trans [OF note_undefined_step push_defined_step] simp: objc_undefined_def)[1]
   apply (auto simp: addObjCCategory_def fail_simps note_class_step split: llvm_const.splits
      intro: table_step_refl)[1]
  by (simp add: addObjCClassRef_def note_class_step)

lemma addDefinedDataSymbol_step':
  "addDefinedDataSymbol gv m = Some m' \<Longrightarrow> table_step (addDefinedSymbol gv False m) m'"
  by (auto simp: addDefinedDataSymbol_def Let_def addObjC_step table_step_refl
      split: option.splits if_splits)

lemma addDefinedDataSymbol_step: "addDefinedDataSymbol gv m = Some m' \<Longrightarrow> table_step m m'"
  by (rule table_step_trans [OF addDefinedSymbol_step addDefinedDataSymbol_step'])

lemma table_step_names: "table_step m m' \<Longrightarrow> n \<in> symbol_names (lm_symbols m) \<Longrightarrow> n \<in> symbol_names (lm_symbols m')"
  unfolding table_step_def table_grows_def by (elim conjE) (rule subsetD)

lemma addDefinedDataSymbol_named:
  "addDefinedDataSymbol gv m = Some m' \<Longrightarrow> \<not> llvm_name gv \<Longrightarrow> Some (gv_mangled gv) \<in> symbol_names (lm_symbols m')"
  by (rule table_step_names [OF addDefinedDataSymbol_step' addDefinedSymbol_named])

lemma addPotentialUndefinedSymbol_step: "table_step m (addPotentialUndefinedSymbol gv f m)"
  by (simp add: addPotentialUndefinedSymbol_def note_undefined_step table_step_refl)

lemma addPotentialUndefinedSymbol_named:
  "\<not> llvm_name gv \<Longrightarrow> gv_kind gv \<noteq> AliasValue \<Longrightarrow>
   gv_mangled gv \<in> dom (lm_undefines (addPotentialUndefinedSymbol gv f m))"
  by (simp add: addPotentialUndefinedSymbol_def note_undefined_dom)

lemma push_undefined_step:
  "sy_name i = Some n \<Longrightarrow> n \<in> lm_defines m \<Longrightarrow>
   table_step m (push_symbol i (m\<lparr>lm_undefines := (lm_undefines m)(n \<mapsto> i)\<rparr>))"
  by (rule table_step_trans [OF set_undefined_step push_symbol_step]) simp_all

lemma define_name_in [simp]: "n \<in> lm_defines (define_name n m)"
  by (simp add: define_name_def)

text \<open>A change of the last symbol's scope leaves the names.\<close>

lemma rescope_last_step: "rescope_last scope m = Some m' \<Longrightarrow> table_step m m'"
proof -
  assume m': "rescope_last scope m = Some m'"
  let ?info = "last (lm_symbols m)"
  have ne: "lm_symbols m \<noteq> []" using m' by (auto simp: rescope_last_def)
  have m'_eq: "m' = m\<lparr>lm_symbols := butlast (lm_symbols m) @
      [?info\<lparr>sy_attributes := (sy_attributes ?info)\<lparr>at_scope := Some scope\<rparr>\<rparr>]\<rparr>"
    using m' ne by (simp add: rescope_last_def Let_def)
  have "symbol_names (lm_symbols m') = symbol_names (butlast (lm_symbols m) @ [?info])"
    unfolding m'_eq by (simp del: append_butlast_last_id)
  then have "symbol_names (lm_symbols m') = symbol_names (lm_symbols m)"
    by (simp only: append_butlast_last_id [OF ne])
  moreover have "lm_defines m' = lm_defines m" "lm_undefines m' = lm_undefines m" "asm_undefines m' = asm_undefines m"
    unfolding m'_eq by simp_all
  ultimately show ?thesis
    by (simp only: table_step_def table_ok_def table_grows_def subset_refl simp_thms)
qed

lemma addAsmGlobalSymbol_step:
  assumes m': "addAsmGlobalSymbol x scope m = Some m'"
  shows "table_step m m'" "x \<in> lm_defines m'"
proof -
  let ?m1 = "define_name x m"
  let ?info = "case lm_undefines ?m1 x of Some i \<Rightarrow> i | None \<Rightarrow> no_info"
  have "table_step ?m1 m'" if "x \<notin> lm_defines m"
  proof (cases "sy_symbol ?info")
    case None
    then show ?thesis
      using m' that by (auto simp: addAsmGlobalSymbol_def Let_def intro!: push_undefined_step [of _ x])
  next
    case (Some gv)
    then show ?thesis
      using m' that by (auto simp: addAsmGlobalSymbol_def Let_def addDefinedFunctionSymbol_def fail_simps
          split: if_splits intro: table_step_trans [OF addDefinedSymbol_step rescope_last_step]
          table_step_trans [OF addDefinedDataSymbol_step rescope_last_step])
  qed
  moreover have "m' = m" if "x \<in> lm_defines m" using m' that by (simp add: addAsmGlobalSymbol_def)
  ultimately have "table_step m m' \<and> x \<in> lm_defines m'"
    using table_step_trans [OF define_name_step, of x m m']
    by (cases "x \<in> lm_defines m") (auto simp: table_step_refl table_step_def table_grows_def)
  then show "table_step m m'" "x \<in> lm_defines m'" by auto
qed

lemma addAsmGlobalSymbolUndef_step:
  "table_step m (addAsmGlobalSymbolUndef x m)"
  "x \<in> dom (lm_undefines (addAsmGlobalSymbolUndef x m))"
  "x \<in> set (asm_undefines (addAsmGlobalSymbolUndef x m))"
proof -
  let ?m1 = "m\<lparr>asm_undefines := asm_undefines m @ [x]\<rparr>"
  have "table_step m ?m1" by (auto simp: table_step_def table_ok_def table_grows_def)
  then show "table_step m (addAsmGlobalSymbolUndef x m)"
    unfolding addAsmGlobalSymbolUndef_def by (rule table_step_trans) (simp add: note_undefined_step)
  show "x \<in> dom (lm_undefines (addAsmGlobalSymbolUndef x m))"
    unfolding addAsmGlobalSymbolUndef_def by (rule note_undefined_dom)
  show "x \<in> set (asm_undefines (addAsmGlobalSymbolUndef x m))"
    by (auto simp: addAsmGlobalSymbolUndef_def note_undefined_def split: option.split)
qed

text \<open>
  The four loops: a body that takes table steps and puts its element into the table (\<open>placed\<close>, which
  later steps keep).
\<close>

locale table_loop =
  fixes body :: "'e \<Rightarrow> lto_module \<Rightarrow> lto_module option"
    and placed :: "'e \<Rightarrow> lto_module \<Rightarrow> bool"
  assumes body_step: "body e m = Some m' \<Longrightarrow> table_step m m'"
    and body_places: "body e m = Some m' \<Longrightarrow> placed e m'"
    and placed_kept: "placed e m \<Longrightarrow> table_step m m' \<Longrightarrow> placed e m'"
begin

lemma loop_step: "fold_opt body es m = Some m' \<Longrightarrow> table_step m m'"
proof (induction es arbitrary: m)
  case (Cons e es)
  then obtain n where n: "body e m = Some n" "fold_opt body es n = Some m'" by (auto simp: fail_simps)
  show ?case by (rule table_step_trans [OF body_step [OF n(1)] Cons.IH [OF n(2)]])
qed (simp add: table_step_refl)

lemma loop_places: "fold_opt body es m = Some m' \<Longrightarrow> e \<in> set es \<Longrightarrow> placed e m'"
proof (induction es arbitrary: m)
  case (Cons a es)
  then obtain n where n: "body a m = Some n" "fold_opt body es n = Some m'" by (auto simp: fail_simps)
  show ?case
  proof (cases "e = a")
    case True
    then show ?thesis using placed_kept [OF body_places [OF n(1)] loop_step [OF n(2)]] by simp
  next
    case False
    then show ?thesis using Cons.IH [OF n(2)] Cons.prems by simp
  qed
qed simp

end

text \<open>Where a global value ends up.\<close>

definition gv_placed :: "bool \<Rightarrow> global_value \<Rightarrow> lto_module \<Rightarrow> bool" where
  "gv_placed decl gv m \<longleftrightarrow>
     llvm_name gv \<or>
     (if decl then gv_kind gv = AliasValue \<or> gv_mangled gv \<in> dom (lm_undefines m)
      else Some (gv_mangled gv) \<in> symbol_names (lm_symbols m))"

lemma gv_placed_kept: "gv_placed decl gv m \<Longrightarrow> table_step m m' \<Longrightarrow> gv_placed decl gv m'"
  unfolding gv_placed_def table_step_def table_grows_def
  by (cases decl) (simp_all only: if_True if_False, (blast dest: subsetD)+)

lemma gv_placed_intros:
  "gv_placed True gv (addPotentialUndefinedSymbol gv f m)"
  "gv_placed False gv (addDefinedSymbol gv f m)"
  "addDefinedDataSymbol gv m = Some m' \<Longrightarrow> gv_placed False gv m'"
  using addPotentialUndefinedSymbol_named [of gv f m] addDefinedSymbol_named [of gv f m]
    addDefinedDataSymbol_named [of gv m m']
  by (simp_all only: gv_placed_def if_True if_False; blast)+

lemma parse_function_places:
  "parse_function f m = Some m' \<Longrightarrow> gv_placed (isDeclaration_gv f) f m'"
  by (auto simp: parse_function_def addDefinedFunctionSymbol_def gv_placed_intros split: if_splits)

lemma parse_global_places:
  "parse_global v m = Some m' \<Longrightarrow> gv_placed (isDeclaration_gv v) v m'"
  by (auto simp: parse_global_def gv_placed_intros split: if_splits)

lemma parse_alias_places:
  "parse_alias a m = Some m' \<Longrightarrow> gv_placed (isDeclaration_gv (snd a)) (fst a) m'"
  by (auto simp: parse_alias_def gv_placed_intros split: if_splits)

interpretation fun_loop: table_loop parse_function "\<lambda>f. gv_placed (isDeclaration_gv f) f"
  by unfold_locales (auto simp: parse_function_places gv_placed_kept parse_function_def
      addPotentialUndefinedSymbol_step addDefinedFunctionSymbol_def addDefinedSymbol_step split: if_splits)

interpretation var_loop: table_loop parse_global "\<lambda>v. gv_placed (isDeclaration_gv v) v"
  by unfold_locales (auto simp: parse_global_places gv_placed_kept parse_global_def
      addPotentialUndefinedSymbol_step addDefinedDataSymbol_step split: if_splits)

interpretation alias_loop: table_loop parse_alias "\<lambda>a. gv_placed (isDeclaration_gv (snd a)) (fst a)"
  by unfold_locales (auto simp: parse_alias_places gv_placed_kept parse_alias_def
      addPotentialUndefinedSymbol_step addDefinedDataSymbol_step split: if_splits)

definition asm_placed :: "stream \<Rightarrow> string \<Rightarrow> lto_module \<Rightarrow> bool" where
  "asm_placed S x m \<longleftrightarrow>
     (S x \<in> {DefinedGlobal, SeenDefined} \<longrightarrow> x \<in> lm_defines m) \<and>
     (S x \<in> {SeenGlobal, SeenUsed} \<longrightarrow> x \<in> dom (lm_undefines m) \<and> x \<in> set (asm_undefines m))"

lemma asm_placed_kept: "asm_placed S x m \<Longrightarrow> table_step m m' \<Longrightarrow> asm_placed S x m'"
  unfolding asm_placed_def table_step_def table_grows_def by (blast dest: subsetD)

interpretation asm_loop: table_loop "add_streamed S" "asm_placed S" for S
proof
  show "table_step m m'" if "add_streamed S x m = Some m'" for x m m'
    using that by (auto simp: add_streamed_def addAsmGlobalSymbolUndef_step(1) table_step_refl
        intro: addAsmGlobalSymbol_step(1) split: stream_state.splits)
  show "asm_placed S x m'" if "add_streamed S x m = Some m'" for x m m'
    using that addAsmGlobalSymbolUndef_step(2,3) [of x m] addAsmGlobalSymbol_step(2) [of x _ m m']
    by (cases "S x") (auto simp: add_streamed_def asm_placed_def)
qed (rule asm_placed_kept)

section \<open>The table is the module's symbols\<close>

definition defined_names :: "ir_module \<Rightarrow> string set" where
  "defined_names M =
     gv_mangled ` {g \<in> set (ir_functions M) \<union> set (ir_globals M). \<not> isDeclaration_gv g \<and> \<not> llvm_name g} \<union>
     (gv_mangled \<circ> fst) ` {a \<in> set (ir_aliases M). \<not> isDeclaration_gv (snd a) \<and> \<not> llvm_name (fst a)}"

definition declared_names :: "ir_module \<Rightarrow> string set" where
  "declared_names M =
     gv_mangled ` {g \<in> set (ir_functions M) \<union> set (ir_globals M).
       isDeclaration_gv g \<and> \<not> llvm_name g \<and> gv_kind g \<noteq> AliasValue}"

text \<open>The names the assembler text gives a place, and the other names it uses or makes global.\<close>

definition asm_events :: "ir_module \<Rightarrow> asm_event list" where
  "asm_events M = (case ir_asm M of AsmParsed es \<Rightarrow> es | _ \<Rightarrow> [])"

definition asm_defined :: "ir_module \<Rightarrow> string set" where
  "asm_defined M = \<Union> (labels_of ` set (asm_events M))"

definition asm_referenced :: "ir_module \<Rightarrow> string set" where
  "asm_referenced M =
     \<Union> (globals_of ` set (asm_events M)) \<union> \<Union> (uses_of ` set (asm_events M)) - asm_defined M"

lemma asm_defined_states: "x \<in> asm_defined M \<longleftrightarrow> RecordStreamer (asm_events M) x \<in> {DefinedGlobal, SeenDefined}"
  by (simp add: asm_defined_def RecordStreamer_summary stream_summary_def)

lemma asm_referenced_states: "x \<in> asm_referenced M \<longleftrightarrow> RecordStreamer (asm_events M) x \<in> {SeenGlobal, SeenUsed}"
  by (simp add: asm_referenced_def asm_defined_def RecordStreamer_summary stream_summary_def)

definition enumerates :: "('a set \<Rightarrow> 'a list) \<Rightarrow> bool" where
  "enumerates order \<longleftrightarrow> (\<forall>S. finite S \<longrightarrow> set (order S) = S \<and> distinct (order S))"

lemma enumeratesD: "enumerates order \<Longrightarrow> finite S \<Longrightarrow> set (order S) = S \<and> distinct (order S)"
  by (simp add: enumerates_def)

lemma expr_symbols_finite: "finite (expr_symbols e)"
  by (induction e) simp_all

lemma stream_names_finite: "finite (stream_names es)"
proof -
  have "finite (uses_of e)" "finite (globals_of e)" "finite (labels_of e)" for e
    by (cases e; auto simp: expr_symbols_finite split: option.split)+
  then show ?thesis unfolding stream_names_def by simp
qed

lemma asm_step:
  assumes ord: "enumerates order" and ok: "addAsmGlobalSymbols order (ir_asm M) m = Some (False, m')"
  shows "table_step m m' \<and> asm_defined M \<subseteq> lm_defines m' \<and>
    asm_referenced M \<subseteq> dom (lm_undefines m') \<inter> set (asm_undefines m')"
proof (cases "ir_asm M")
  case (AsmParsed es)
  let ?S = "RecordStreamer es"
  have loop: "fold_opt (add_streamed ?S) (order (stream_names es)) m = Some m'"
    using ok AsmParsed by (auto simp: addAsmGlobalSymbols_def fail_simps)
  have placed: "asm_placed ?S x m'" for x
  proof (cases "?S x = NeverSeen")
    case False
    then show ?thesis
      using asm_loop.loop_places [OF loop] enumeratesD [OF ord stream_names_finite [of es]] by (simp add: stream_names_seen)
  qed (simp add: asm_placed_def)
  have es: "asm_events M = es" by (simp add: asm_events_def AsmParsed)
  have "asm_defined M \<subseteq> lm_defines m'"
    using placed unfolding subset_iff asm_defined_states es asm_placed_def by blast
  moreover have "asm_referenced M \<subseteq> dom (lm_undefines m') \<inter> set (asm_undefines m')"
    using placed unfolding subset_iff asm_referenced_states es asm_placed_def by blast
  ultimately show ?thesis using asm_loop.loop_step [OF loop] by simp
qed (use ok in \<open>auto simp: addAsmGlobalSymbols_def table_step_refl asm_defined_def asm_referenced_def asm_events_def\<close>)

lemma push_undefines_symbols:
  assumes "set xs \<subseteq> dom (lm_undefines m)"
  shows "fold (\<lambda>n m. case lm_undefines m n of
            Some info \<Rightarrow> if n \<in> lm_defines m then m else push_symbol info m | None \<Rightarrow> m) xs m =
         m\<lparr>lm_symbols := lm_symbols m @ map (the \<circ> lm_undefines m) (filter (\<lambda>n. n \<notin> lm_defines m) xs)\<rparr>"
  using assms by (induction xs arbitrary: m) (auto simp: push_symbol_def)

text \<open>
  A table read from a module: first the definitions, all of them marked as defined; then, once each, the
  symbols that are needed and not defined. What the module or its assembler text defines or needs is
  there, and what the text needs is kept for the code generator.
\<close>

definition lists_symbols :: "ir_module \<Rightarrow> lto_module \<Rightarrow> sym_info list \<Rightarrow> sym_info list \<Rightarrow> bool" where
  "lists_symbols M m defs undefs \<longleftrightarrow>
     lm_symbols m = defs @ undefs \<and>
     Some ` defined_names M \<subseteq> symbol_names defs \<and> symbol_names defs \<subseteq> Some ` lm_defines m \<and>
     asm_defined M \<subseteq> lm_defines m \<and>
     distinct (map sy_name undefs) \<and> symbol_names undefs \<inter> Some ` lm_defines m = {} \<and>
     Some ` (declared_names M \<union> asm_referenced M) \<subseteq> symbol_names undefs \<union> Some ` lm_defines m \<and>
     asm_referenced M \<subseteq> set (asm_undefines m)"

lemma placed_names:
  assumes f: "\<And>g. g \<in> set (ir_functions M) \<Longrightarrow> gv_placed (isDeclaration_gv g) g m"
    and v: "\<And>g. g \<in> set (ir_globals M) \<Longrightarrow> gv_placed (isDeclaration_gv g) g m"
    and a: "\<And>a. a \<in> set (ir_aliases M) \<Longrightarrow> gv_placed (isDeclaration_gv (snd a)) (fst a) m"
  shows "Some ` defined_names M \<subseteq> symbol_names (lm_symbols m)" "declared_names M \<subseteq> dom (lm_undefines m)"
proof -
  have d: "Some (gv_mangled g) \<in> symbol_names (lm_symbols m)"
    if "gv_placed b g m" "\<not> b" "\<not> llvm_name g" for b g
    using that by (cases b) (simp_all only: gv_placed_def if_False simp_thms)
  have u: "gv_mangled g \<in> dom (lm_undefines m)"
    if "gv_placed b g m" "b" "\<not> llvm_name g" "gv_kind g \<noteq> AliasValue" for b g
    using that by (cases b) (simp_all only: gv_placed_def if_True simp_thms)
  show "Some ` defined_names M \<subseteq> symbol_names (lm_symbols m)"
  proof
    fix n assume "n \<in> Some ` defined_names M"
    then consider g where "g \<in> set (ir_functions M)" "n = Some (gv_mangled g)" "\<not> isDeclaration_gv g" "\<not> llvm_name g"
      | g where "g \<in> set (ir_globals M)" "n = Some (gv_mangled g)" "\<not> isDeclaration_gv g" "\<not> llvm_name g"
      | a where "a \<in> set (ir_aliases M)" "n = Some (gv_mangled (fst a))" "\<not> isDeclaration_gv (snd a)" "\<not> llvm_name (fst a)"
      unfolding defined_names_def by fastforce
    then show "n \<in> symbol_names (lm_symbols m)"
      by cases (simp_all only: simp_thms d [OF f] d [OF v] d [OF a])
  qed
  show "declared_names M \<subseteq> dom (lm_undefines m)"
  proof
    fix n assume "n \<in> declared_names M"
    then consider g where "g \<in> set (ir_functions M)" "n = gv_mangled g" "isDeclaration_gv g" "\<not> llvm_name g" "gv_kind g \<noteq> AliasValue"
      | g where "g \<in> set (ir_globals M)" "n = gv_mangled g" "isDeclaration_gv g" "\<not> llvm_name g" "gv_kind g \<noteq> AliasValue"
      unfolding declared_names_def by blast
    then show "n \<in> dom (lm_undefines m)" by cases (simp_all only: simp_thms u [OF f] u [OF v])
  qed
qed

lemma parsed_table:
  assumes ord: "enumerates order" and ok: "parseSymbols order M = Some (False, m)"
  shows "\<exists>defs undefs. lists_symbols M m defs undefs"
proof -
  obtain m1 m2 m3 m4 where
    f: "fold_opt parse_function (ir_functions M) LTOModule_new = Some m1" and
    v: "fold_opt parse_global (ir_globals M) m1 = Some m2" and
    s: "addAsmGlobalSymbols order (ir_asm M) m2 = Some (False, m3)" and
    a: "fold_opt parse_alias (ir_aliases M) m3 = Some m4" and m: "m = push_undefines order m4"
    using ok by (auto simp: parseSymbols_def fail_simps split: if_splits)
  note s' = asm_step [OF ord s]
  have st4: "table_step m3 m4" by (rule alias_loop.loop_step [OF a])
  have st3: "table_step m2 m4" by (rule table_step_trans [OF conjunct1 [OF s'] st4])
  have st2: "table_step m1 m4" by (rule table_step_trans [OF var_loop.loop_step [OF v] st3])
  have st1: "table_step LTOModule_new m4" by (rule table_step_trans [OF fun_loop.loop_step [OF f] st2])
  have ok4: "table_ok m4"
    using st1 by (simp add: table_step_def) (simp add: table_ok_def LTOModule_new_def)
  have named: "Some ` defined_names M \<subseteq> symbol_names (lm_symbols m4)" "declared_names M \<subseteq> dom (lm_undefines m4)"
    using placed_names [OF gv_placed_kept [OF fun_loop.loop_places [OF f] st2]
        gv_placed_kept [OF var_loop.loop_places [OF v] st3] alias_loop.loop_places [OF a]] by simp_all
  have grown: "lm_defines m3 \<subseteq> lm_defines m4" "dom (lm_undefines m3) \<subseteq> dom (lm_undefines m4)"
    "set (asm_undefines m3) \<subseteq> set (asm_undefines m4)"
    using st4 by (simp_all only: table_step_def table_grows_def simp_thms)
  have asm: "asm_defined M \<subseteq> lm_defines m4" "asm_referenced M \<subseteq> dom (lm_undefines m4)"
    "asm_referenced M \<subseteq> set (asm_undefines m4)"
    using s' by (simp_all only: Int_subset_iff subset_trans [OF _ grown(1)] subset_trans [OF _ grown(2)]
        subset_trans [OF _ grown(3)])
  let ?xs = "order (dom (lm_undefines m4))"
  let ?us = "filter (\<lambda>n. n \<notin> lm_defines m4) ?xs"
  have xs: "set ?xs = dom (lm_undefines m4)" "distinct ?xs"
    using enumeratesD [OF ord, of "dom (lm_undefines m4)"] ok4 by (simp_all add: table_ok_def)
  have m_eq: "m = m4\<lparr>lm_symbols := lm_symbols m4 @ map (the \<circ> lm_undefines m4) ?us\<rparr>"
    unfolding m push_undefines_def by (rule push_undefines_symbols) (simp only: xs subset_refl)
  have "sy_name (the (lm_undefines m4 n)) = Some n" if "n \<in> dom (lm_undefines m4)" for n
    using that ok4 by (auto simp: table_ok_def)
  then have names: "map sy_name (map (the \<circ> lm_undefines m4) ?us) = map Some ?us"
    by (simp add: xs)
  have "symbol_names (map (the \<circ> lm_undefines m4) ?us) = set (map Some ?us)"
    unfolding names [symmetric] by (simp only: list.set_map)
  moreover have "set ?us = dom (lm_undefines m4) - lm_defines m4"
    using xs(1) by auto
  ultimately have unames: "symbol_names (map (the \<circ> lm_undefines m4) ?us) = Some ` (dom (lm_undefines m4) - lm_defines m4)"
    by (simp only: list.set_map)
  have "lists_symbols M m (lm_symbols m4) (map (the \<circ> lm_undefines m4) ?us)"
    unfolding lists_symbols_def names unames m_eq using named asm ok4 xs
    by (auto simp: table_ok_def distinct_map)
  then show ?thesis by blast
qed

end
