(* ===== verification/LTOCodeGen.thy ===== *)
theory LTOCodeGen
  imports PassManagerBuilder LTOSymbols "HOL-Library.List_Lexorder" "HOL-Library.Char_ord"
begin

text \<open>
  The code generator (\<open>lib/SlimmerLTO/LTOCodeGenerator.cpp\<close>) behind the C interface of
  \<open>tools/SlimmerGold/lto.cpp\<close>. The merged module has the global values the code looks at; the rest of it is
  a field of any type. LLVM is an environment: the registry of targets, the names of library functions,
  linking, what a pass does to a module, and writing an object file. Files are a map from paths to bytes.
\<close>

section \<open>LLVM\<close>

record 'c merged =
  mg_triple :: string
  mg_functions :: "global_value list"
  mg_globals :: "global_value list"
  mg_aliases :: "global_value list"
  mg_compiler_used :: "string option list option"
    \<comment> \<open>the elements of \<open>llvm.compiler.used\<close> without casts: the name of a global value, or something else\<close>
  mg_code :: 'c

datatype target_arch = X86_64 | X86 | OtherArch

datatype codegen_model = PIC_MODEL_STATIC | PIC_MODEL_DYNAMIC | PIC_MODEL_DYNAMIC_NO_PIC

datatype reloc_model = RelocStatic | RelocPIC | RelocDynamicNoPIC

datatype debug_model = DEBUG_MODEL_NONE | DEBUG_MODEL_DWARF

record target_options =
  LessPreciseFPMADOption :: bool
  NoFramePointerElim :: bool
  AllowFPOpFusion :: nat
  UnsafeFPMath :: bool
  NoInfsFPMath :: bool
  NoNaNsFPMath :: bool
  HonorSignDependentRoundingFPMathOption :: bool
  UseSoftFloat :: bool
  FloatABIType :: nat
  NoZerosInBSS :: bool
  GuaranteedTailCallOpt :: bool
  DisableTailCalls :: bool
  StackAlignmentOverride :: u32
  TrapFuncName :: string
  PositionIndependentExecutable :: bool
  EnableSegmentedStacks :: bool
  UseInitArray :: bool
  OtherOptions :: nat \<comment> \<open>the ones the code does not name\<close>

record target_machine =
  tm_triple :: string
  tm_cpu :: string
  tm_options :: target_options
  tm_reloc :: reloc_model

record 'c llvm_env =
  default_triple :: string
  lookup_target :: "string \<Rightarrow> bool"
  triple_darwin :: "string \<Rightarrow> bool"
  triple_arch :: "string \<Rightarrow> target_arch"
  library_functions :: "string \<Rightarrow> string list" \<comment> \<open>those the target has, by index\<close>
  lowering_libcalls :: "string \<Rightarrow> string option list option" \<comment> \<open>by index; a name may be missing\<close>
  analysis_passes :: "target_machine \<Rightarrow> llvm_pass list"
  emit_passes :: "target_machine \<Rightarrow> llvm_pass list option" \<comment> \<open>\<open>None\<close>: the file type is not supported\<close>
  link_in :: "string \<times> ir_module \<Rightarrow> 'c merged \<Rightarrow> bool \<times> 'c merged" \<comment> \<open>true for an error\<close>
  run_pass :: "llvm_pass \<Rightarrow> 'c merged \<Rightarrow> 'c merged"
  emit_object :: "llvm_pass list \<Rightarrow> 'c merged \<Rightarrow> 'c merged \<times> bytes"
  write_bitcode :: "'c merged \<Rightarrow> bytes"
  used_order :: "string set \<Rightarrow> string list" \<comment> \<open>iteration over a set of pointers\<close>

definition run_passes :: "'c llvm_env \<Rightarrow> llvm_pass list \<Rightarrow> 'c merged \<Rightarrow> 'c merged" where
  "run_passes env ps M = fold (run_pass env) ps M"

section \<open>The generator\<close>

text \<open>The buffer of the last object file: none, one, or a pointer to one that was deleted.\<close>

datatype native_object = NoObject | ObjectBuffer bytes | DanglingBuffer

record 'c code_generator =
  cg_linker :: "'c merged"
  cg_target :: "target_machine option"
  cg_options :: target_options
  EmitDwarfDebugInfo :: bool
  ScopeRestrictionsDone :: bool
  CodeModel :: codegen_model
  MustPreserveSymbols :: "string set"
  AsmUndefinedRefs :: "string set"
  MCpu :: string
  CodegenOptions :: "string list"
  NativeObjectPath :: string
  NativeObjectFile :: native_object

text \<open>\<open>ld_temp\<close> is LLVM's empty module, \<open>o\<close> its default options.\<close>

definition LTOCodeGenerator_new :: "'c merged \<Rightarrow> target_options \<Rightarrow> 'c code_generator" where
  "LTOCodeGenerator_new ld_temp opts =
     \<lparr>cg_linker = ld_temp, cg_target = None, cg_options = opts, EmitDwarfDebugInfo = False,
      ScopeRestrictionsDone = False, CodeModel = PIC_MODEL_DYNAMIC, MustPreserveSymbols = {}, AsmUndefinedRefs = {},
      MCpu = [], CodegenOptions = [], NativeObjectPath = [], NativeObjectFile = NoObject\<rparr>"

definition addModule :: "'c llvm_env \<Rightarrow> string \<times> ir_module \<Rightarrow> lto_module \<Rightarrow> 'c code_generator \<Rightarrow> bool \<times> 'c code_generator" where
  "addModule env M m g =
     (let (ret, L) = link_in env M (cg_linker g) in
      (\<not> ret, g\<lparr>cg_linker := L, AsmUndefinedRefs := AsmUndefinedRefs g \<union> set (asm_undefines m)\<rparr>))"

definition copy_options :: "target_options \<Rightarrow> target_options \<Rightarrow> target_options" where
  "copy_options from to = to
     \<lparr>LessPreciseFPMADOption := LessPreciseFPMADOption from, NoFramePointerElim := NoFramePointerElim from,
      AllowFPOpFusion := AllowFPOpFusion from, UnsafeFPMath := UnsafeFPMath from, NoInfsFPMath := NoInfsFPMath from,
      NoNaNsFPMath := NoNaNsFPMath from,
      HonorSignDependentRoundingFPMathOption := HonorSignDependentRoundingFPMathOption from,
      UseSoftFloat := UseSoftFloat from, FloatABIType := FloatABIType from, NoZerosInBSS := NoZerosInBSS from,
      GuaranteedTailCallOpt := GuaranteedTailCallOpt from, DisableTailCalls := DisableTailCalls from,
      StackAlignmentOverride := StackAlignmentOverride from, TrapFuncName := TrapFuncName from,
      PositionIndependentExecutable := PositionIndependentExecutable from,
      EnableSegmentedStacks := EnableSegmentedStacks from, UseInitArray := UseInitArray from\<rparr>"

definition setTargetOptions :: "target_options \<Rightarrow> 'c code_generator \<Rightarrow> 'c code_generator" where
  "setTargetOptions opts g = g\<lparr>cg_options := copy_options opts (cg_options g)\<rparr>"

definition setDebugInfo :: "debug_model \<Rightarrow> 'c code_generator \<Rightarrow> 'c code_generator" where
  "setDebugInfo d g =
     (case d of DEBUG_MODEL_NONE \<Rightarrow> g\<lparr>EmitDwarfDebugInfo := False\<rparr> | DEBUG_MODEL_DWARF \<Rightarrow> g\<lparr>EmitDwarfDebugInfo := True\<rparr>)"

definition setCodePICModel :: "codegen_model \<Rightarrow> 'c code_generator \<Rightarrow> 'c code_generator" where
  "setCodePICModel model g = g\<lparr>CodeModel := model\<rparr>"

definition reloc_of :: "codegen_model \<Rightarrow> reloc_model" where
  "reloc_of m = (case m of PIC_MODEL_STATIC \<Rightarrow> RelocStatic | PIC_MODEL_DYNAMIC \<Rightarrow> RelocPIC
     | PIC_MODEL_DYNAMIC_NO_PIC \<Rightarrow> RelocDynamicNoPIC)"

definition darwin_cpu :: "'c llvm_env \<Rightarrow> string \<Rightarrow> string \<Rightarrow> string" where
  "darwin_cpu env triple cpu =
     (if cpu = [] \<and> triple_darwin env triple
      then (case triple_arch env triple of X86_64 \<Rightarrow> ''core2'' | X86 \<Rightarrow> ''yonah'' | OtherArch \<Rightarrow> cpu)
      else cpu)"

definition determineTarget :: "'c llvm_env \<Rightarrow> 'c code_generator \<Rightarrow> bool \<times> 'c code_generator" where
  "determineTarget env g =
     (if cg_target g \<noteq> None then (True, g)
      else
        let given = mg_triple (cg_linker g);
            triple = (if given = [] then default_triple env else given) in
        if \<not> lookup_target env triple then (False, g)
        else
          let cpu = darwin_cpu env triple (MCpu g) in
          (True, g\<lparr>MCpu := cpu,
             cg_target := Some \<lparr>tm_triple = triple, tm_cpu = cpu, tm_options = cg_options g, tm_reloc = reloc_of (CodeModel g)\<rparr>\<rparr>))"

section \<open>What must stay visible\<close>

text \<open>\<open>std::binary_search\<close>: halve the range until the first element that is not smaller is found.\<close>

function lower_bound :: "string list \<Rightarrow> string \<Rightarrow> nat \<Rightarrow> nat \<Rightarrow> nat" where
  "lower_bound xs x lo n =
     (if n = 0 then lo
      else let half = n div 2; mid = lo + half in
        if xs ! mid < x then lower_bound xs x (mid + 1) (n - half - 1) else lower_bound xs x lo half)"
  by pat_completeness auto

termination lower_bound
  by (relation "measure (\<lambda>(xs, x, lo, n). n)") auto

definition binary_search :: "string list \<Rightarrow> string \<Rightarrow> bool" where
  "binary_search xs x = (let i = lower_bound xs x 0 (length xs) in i < length xs \<and> \<not> x < xs ! i)"

definition accumulateAndSortLibcalls :: "'c llvm_env \<Rightarrow> string \<Rightarrow> string list" where
  "accumulateAndSortLibcalls env triple =
     (let tli = library_functions env triple;
          lowering = (case lowering_libcalls env triple of None \<Rightarrow> [] | Some names \<Rightarrow> map the (filter (\<lambda>n. n \<noteq> None) names))
      in remdups_adj (sort (tli @ lowering)))"

text \<open>\<open>MustPreserveList\<close> and \<open>AsmUsed\<close>; the values in the set are known by their names.\<close>

definition applyRestriction ::
  "'c code_generator \<Rightarrow> string list \<Rightarrow> global_value \<Rightarrow> string list \<times> string set \<Rightarrow> string list \<times> string set" where
  "applyRestriction g Libcalls GV acc =
     (case acc of (MustPreserveList, AsmUsed) \<Rightarrow>
        if gv_no_body GV then (MustPreserveList, AsmUsed)
        else
          (if gv_mangled GV \<in> MustPreserveSymbols g then MustPreserveList @ [gv_name GV] else MustPreserveList,
           let used = (if gv_mangled GV \<in> AsmUndefinedRefs g then insert (gv_name GV) AsmUsed else AsmUsed) in
           if gv_kind GV = FunctionValue \<and> binary_search Libcalls (gv_name GV) then insert (gv_name GV) used else used))"

definition findUsedValues :: "string option list option \<Rightarrow> string set \<Rightarrow> string set" where
  "findUsedValues LLVMUsed UsedValues =
     (case LLVMUsed of None \<Rightarrow> UsedValues
      | Some inits \<Rightarrow> fold (\<lambda>op S. case op of Some x \<Rightarrow> insert x S | None \<Rightarrow> S) inits UsedValues)"

text \<open>Without a target machine the code goes through a null pointer.\<close>

definition applyScopeRestrictions :: "'c llvm_env \<Rightarrow> 'c code_generator \<Rightarrow> 'c code_generator option" where
  "applyScopeRestrictions env g =
     (if ScopeRestrictionsDone g then Some g
      else (case cg_target g of
          None \<Rightarrow> None
        | Some T \<Rightarrow>
            let M = cg_linker g;
                Libcalls = accumulateAndSortLibcalls env (tm_triple T);
                acc = fold (applyRestriction g Libcalls) (mg_functions M) ([], {});
                acc = fold (applyRestriction g Libcalls) (mg_globals M) acc;
                (MustPreserveList, AsmUsed) = fold (applyRestriction g Libcalls) (mg_aliases M) acc;
                AsmUsed = findUsedValues (mg_compiler_used M) AsmUsed;
                M1 = M\<lparr>mg_compiler_used := None\<rparr>;
                M2 = (if AsmUsed \<noteq> {} then M1\<lparr>mg_compiler_used := Some (map Some (used_order env AsmUsed))\<rparr> else M1)
            in Some (g\<lparr>cg_linker := run_passes env [VerifierPass, InternalizePass MustPreserveList] M2,
                       ScopeRestrictionsDone := True\<rparr>)))"

section \<open>Code generation\<close>

definition object_passes :: "'c llvm_env \<Rightarrow> target_machine \<Rightarrow> bool \<Rightarrow> bool \<Rightarrow> bool \<Rightarrow> llvm_pass list" where
  "object_passes env T DisableOpt DisableInline DisableGVNLoadPRE =
     (let passes = [VerifierPass, DataLayoutPass] @ analysis_passes env T;
          passes = (if DisableOpt then passes
                    else populateLTOPassManager passes False (\<not> DisableInline) DisableGVNLoadPRE)
      in passes @ [VerifierPass])"

text \<open>The result is the object file that is written, if any.\<close>

definition generateObjectFile ::
  "'c llvm_env \<Rightarrow> bool \<Rightarrow> bool \<Rightarrow> bool \<Rightarrow> 'c code_generator \<Rightarrow> (bytes option \<times> 'c code_generator) option" where
  "generateObjectFile env DisableOpt DisableInline DisableGVNLoadPRE g =
     (let (found, g1) = determineTarget env g in
      if \<not> found then Some (None, g1)
      else do {
        g2 \<leftarrow> applyScopeRestrictions env g1;
        T \<leftarrow> cg_target g2;
        let passes = object_passes env T DisableOpt DisableInline DisableGVNLoadPRE;
        let codeGenPasses = [DataLayoutPass] @ analysis_passes env T @ [ObjCARCContractPass];
        case emit_passes env T of
          None \<Rightarrow> Some (None, g2)
        | Some emit \<Rightarrow>
            let (M, obj) = emit_object env (codeGenPasses @ emit) (run_passes env passes (cg_linker g2)) in
            Some (Some obj, g2\<lparr>cg_linker := M\<rparr>)
      })"

section \<open>Object files\<close>

type_synonym files = "string \<Rightarrow> bytes option"

text \<open>
  The temporary file's name if it can be made, and whether writing to it reports an error. A file that is
  not kept is removed.
\<close>

record io_outcome =
  io_temp :: "string option"
  io_error :: bool
  io_unreadable :: bool

record cl_flags =
  DisableOpt :: bool
  DisableInline :: bool
  DisableGVNLoadPRE :: bool

definition compile_to_file ::
  "'c llvm_env \<Rightarrow> io_outcome \<Rightarrow> cl_flags \<Rightarrow> 'c code_generator \<times> files \<Rightarrow> (bool \<times> 'c code_generator \<times> files) option" where
  "compile_to_file env io fl s =
     (case s of (g, fs) \<Rightarrow>
        case io_temp io of
          None \<Rightarrow> Some (False, g, fs)
        | Some Filename \<Rightarrow> do {
            (result, g1) \<leftarrow> generateObjectFile env (DisableOpt fl) (DisableInline fl) (DisableGVNLoadPRE fl) g;
            case result of
              None \<Rightarrow> Some (False, g1, fs(Filename := None))
            | Some obj \<Rightarrow>
                if io_error io then Some (False, g1, fs(Filename := None))
                else Some (True, g1\<lparr>NativeObjectPath := Filename\<rparr>, fs(Filename \<mapsto> obj))
          })"

definition compile ::
  "'c llvm_env \<Rightarrow> io_outcome \<Rightarrow> cl_flags \<Rightarrow> 'c code_generator \<times> files \<Rightarrow> (bytes option \<times> 'c code_generator \<times> files) option" where
  "compile env io fl s = do {
     (ok, g, fs) \<leftarrow> compile_to_file env io fl s;
     if \<not> ok then Some (None, g, fs)
     else if NativeObjectFile g = DanglingBuffer then None
     else
       let path = NativeObjectPath g; fs1 = fs(path := None) in
       case (if io_unreadable io then None else fs path) of
         None \<Rightarrow> Some (None, g\<lparr>NativeObjectFile := (if NativeObjectFile g = NoObject then NoObject else DanglingBuffer)\<rparr>, fs1)
       | Some obj \<Rightarrow> Some (Some obj, g\<lparr>NativeObjectFile := ObjectBuffer obj\<rparr>, fs1)
   }"

text \<open>The destructor; a buffer is not deleted twice.\<close>

definition LTOCodeGenerator_delete :: "'c code_generator \<Rightarrow> unit option" where
  "LTOCodeGenerator_delete g = require (NativeObjectFile g \<noteq> DanglingBuffer)"

definition writeMergedModules ::
  "'c llvm_env \<Rightarrow> bool \<Rightarrow> bool \<Rightarrow> string \<Rightarrow> 'c code_generator \<times> files \<Rightarrow> (bool \<times> 'c code_generator \<times> files) option" where
  "writeMergedModules env opened write_error path s =
     (case s of (g, fs) \<Rightarrow>
        let (found, g1) = determineTarget env g in
        if \<not> found then Some (False, g1, fs)
        else do {
          g2 \<leftarrow> applyScopeRestrictions env g1;
          if \<not> opened then Some (False, g2, fs)
          else if write_error then Some (False, g2, fs(path := None))
          else Some (True, g2, fs(path \<mapsto> write_bitcode env (cg_linker g2)))
        })"

section \<open>Options for the code generator\<close>

text \<open>\<open>getToken\<close>: the first run of characters that are not white space, and what follows it.\<close>

definition delimiter :: "char \<Rightarrow> bool" where
  "delimiter c \<longleftrightarrow> c \<in> {CHR '' '', CHR 0x09, CHR 0x0A, CHR 0x0B, CHR 0x0C, CHR 0x0D}"

definition getToken :: "string \<Rightarrow> string \<times> string" where
  "getToken s = (let t = dropWhile delimiter s in (takeWhile (\<lambda>c. \<not> delimiter c) t, dropWhile (\<lambda>c. \<not> delimiter c) t))"

lemma getToken_shorter: "getToken s = (tok, rest) \<Longrightarrow> tok \<noteq> [] \<Longrightarrow> length rest < length s"
proof -
  assume t: "getToken s = (tok, rest)" "tok \<noteq> []"
  let ?t = "dropWhile delimiter s"
  have "tok @ rest = ?t" using t(1) by (auto simp: getToken_def Let_def)
  then have "length tok + length rest = length ?t" by (metis length_append)
  moreover have "length ?t \<le> length s" by (rule length_dropWhile_le)
  ultimately show "length rest < length s" using t(2) by (cases tok) simp_all
qed

function add_debug_options :: "string \<Rightarrow> string list \<Rightarrow> string list" where
  "add_debug_options s opts =
     (case getToken s of (tok, rest) \<Rightarrow>
        if tok = [] then opts
        else add_debug_options rest ((if opts = [] then [''libLLVMLTO''] else opts) @ [tok]))"
  by pat_completeness auto

termination add_debug_options
  by (relation "measure (length \<circ> fst)") (auto intro: getToken_shorter [OF sym])

definition setCodeGenDebugOptions :: "string \<Rightarrow> 'c code_generator \<Rightarrow> 'c code_generator" where
  "setCodeGenDebugOptions options g = g\<lparr>CodegenOptions := add_debug_options options (CodegenOptions g)\<rparr>"

text \<open>\<open>cl::ParseCommandLineOptions\<close> is LLVM's: it sets the flags of the process.\<close>

definition parseCodeGenDebugOptions :: "(string list \<Rightarrow> cl_flags \<Rightarrow> cl_flags) \<Rightarrow> 'c code_generator \<Rightarrow> cl_flags \<Rightarrow> cl_flags" where
  "parseCodeGenDebugOptions parse g fl = (if CodegenOptions g \<noteq> [] then parse (CodegenOptions g) fl else fl)"

section \<open>The C interface\<close>

text \<open>The flags of the process, and whether the options have been parsed: they are parsed once.\<close>

record lto_state =
  lto_flags :: cl_flags
  parsedOptions :: bool

definition lto_init :: lto_state where
  "lto_init = \<lparr>lto_flags = \<lparr>DisableOpt = False, DisableInline = False, DisableGVNLoadPRE = False\<rparr>, parsedOptions = False\<rparr>"

definition lto_parse_options :: "(string list \<Rightarrow> cl_flags \<Rightarrow> cl_flags) \<Rightarrow> 'c code_generator \<Rightarrow> lto_state \<Rightarrow> lto_state" where
  "lto_parse_options parse cg st =
     (if parsedOptions st then st
      else st\<lparr>lto_flags := parseCodeGenDebugOptions parse cg (lto_flags st), parsedOptions := True\<rparr>)"

text \<open>The command line's options over LLVM's defaults; the float ABI only if one was chosen (0 is the default).\<close>

definition lto_set_target_options :: "target_options \<Rightarrow> target_options \<Rightarrow> target_options" where
  "lto_set_target_options cl opts =
     (let abi = (if FloatABIType cl \<noteq> 0 then FloatABIType cl else FloatABIType opts)
      in (copy_options cl opts)\<lparr>FloatABIType := abi\<rparr>)"

definition lto_codegen_create :: "'c merged \<Rightarrow> target_options \<Rightarrow> target_options \<Rightarrow> 'c code_generator" where
  "lto_codegen_create ld_temp cl defaults =
     setTargetOptions (lto_set_target_options cl defaults) (LTOCodeGenerator_new ld_temp defaults)"

definition lto_codegen_add_module ::
  "'c llvm_env \<Rightarrow> string \<times> ir_module \<Rightarrow> lto_module \<Rightarrow> 'c code_generator \<Rightarrow> bool \<times> 'c code_generator" where
  "lto_codegen_add_module env M m cg = (let (ok, g) = addModule env M m cg in (\<not> ok, g))"

definition lto_codegen_add_must_preserve_symbol :: "string \<Rightarrow> 'c code_generator \<Rightarrow> 'c code_generator" where
  "lto_codegen_add_must_preserve_symbol x cg = cg\<lparr>MustPreserveSymbols := insert x (MustPreserveSymbols cg)\<rparr>"

definition lto_codegen_write_merged_modules ::
  "'c llvm_env \<Rightarrow> (string list \<Rightarrow> cl_flags \<Rightarrow> cl_flags) \<Rightarrow> bool \<Rightarrow> bool \<Rightarrow> string \<Rightarrow> lto_state \<times> 'c code_generator \<times> files \<Rightarrow>
   (bool \<times> lto_state \<times> 'c code_generator \<times> files) option" where
  "lto_codegen_write_merged_modules env parse opened write_error path s =
     (case s of (st, cg, fs) \<Rightarrow> do {
        (ok, s') \<leftarrow> writeMergedModules env opened write_error path (cg, fs);
        Some (\<not> ok, lto_parse_options parse cg st, s')
      })"

definition lto_codegen_compile ::
  "'c llvm_env \<Rightarrow> (string list \<Rightarrow> cl_flags \<Rightarrow> cl_flags) \<Rightarrow> io_outcome \<Rightarrow> lto_state \<times> 'c code_generator \<times> files \<Rightarrow>
   (bytes option \<times> lto_state \<times> 'c code_generator \<times> files) option" where
  "lto_codegen_compile env parse io s =
     (case s of (st, cg, fs) \<Rightarrow>
        let st1 = lto_parse_options parse cg st in
        do { (obj, s') \<leftarrow> compile env io (lto_flags st1) (cg, fs); Some (obj, st1, s') })"

definition lto_codegen_compile_to_file ::
  "'c llvm_env \<Rightarrow> (string list \<Rightarrow> cl_flags \<Rightarrow> cl_flags) \<Rightarrow> io_outcome \<Rightarrow> lto_state \<times> 'c code_generator \<times> files \<Rightarrow>
   (bool \<times> lto_state \<times> 'c code_generator \<times> files) option" where
  "lto_codegen_compile_to_file env parse io s =
     (case s of (st, cg, fs) \<Rightarrow>
        let st1 = lto_parse_options parse cg st in
        do { (ok, s') \<leftarrow> compile_to_file env io (lto_flags st1) (cg, fs); Some (\<not> ok, st1, s') })"

section \<open>The search finds what is there\<close>

lemma lower_bound_splits:
  "sorted xs \<Longrightarrow> lo + n \<le> length xs \<Longrightarrow> (\<And>i. i < lo \<Longrightarrow> xs ! i < x) \<Longrightarrow>
   (\<And>i. lo + n \<le> i \<Longrightarrow> i < length xs \<Longrightarrow> x \<le> xs ! i) \<Longrightarrow>
   (\<forall>i < lower_bound xs x lo n. xs ! i < x) \<and> (\<forall>i. lower_bound xs x lo n \<le> i \<and> i < length xs \<longrightarrow> x \<le> xs ! i)"
proof (induction xs x lo n rule: lower_bound.induct)
  case (1 xs x lo n)
  let ?half = "n div 2" and ?mid = "lo + n div 2"
  show ?case
  proof (cases "n = 0")
    case True
    then show ?thesis using "1.prems"(3,4) by (simp add: lower_bound.simps)
  next
    case False
    then have mid: "?mid < length xs" "?half < n" using "1.prems"(2) by auto
    show ?thesis
    proof (cases "xs ! ?mid < x")
      case True
      have low: "xs ! i < x" if "i < ?mid + 1" for i
        using sorted_nth_mono [OF "1.prems"(1), of i ?mid] that mid True by (auto intro: le_less_trans)
      have "lower_bound xs x lo n = lower_bound xs x (?mid + 1) (n - ?half - 1)"
        using True \<open>n \<noteq> 0\<close> by (subst lower_bound.simps) (simp add: Let_def)
      moreover have "(\<forall>i < lower_bound xs x (?mid + 1) (n - ?half - 1). xs ! i < x) \<and>
          (\<forall>i. lower_bound xs x (?mid + 1) (n - ?half - 1) \<le> i \<and> i < length xs \<longrightarrow> x \<le> xs ! i)"
        by (rule "1.IH"(1) [OF \<open>n \<noteq> 0\<close> refl refl True "1.prems"(1)])
          (use mid low "1.prems"(2,4) in auto)
      ultimately show ?thesis by simp
    next
      case False
      have high: "x \<le> xs ! i" if "?mid \<le> i" "i < length xs" for i
        using sorted_nth_mono [OF "1.prems"(1), of ?mid i] that mid False by (auto intro: order_trans)
      have "lower_bound xs x lo n = lower_bound xs x lo ?half"
        using False \<open>n \<noteq> 0\<close> by (subst lower_bound.simps) (simp add: Let_def)
      moreover have "(\<forall>i < lower_bound xs x lo ?half. xs ! i < x) \<and>
          (\<forall>i. lower_bound xs x lo ?half \<le> i \<and> i < length xs \<longrightarrow> x \<le> xs ! i)"
        by (rule "1.IH"(2) [OF \<open>n \<noteq> 0\<close> refl refl False "1.prems"(1)])
          (use mid high "1.prems"(2,3) in auto)
      ultimately show ?thesis by simp
    qed
  qed
qed

lemma binary_search_member: "sorted xs \<Longrightarrow> binary_search xs x \<longleftrightarrow> x \<in> set xs"
proof -
  assume s: "sorted xs"
  let ?i = "lower_bound xs x 0 (length xs)"
  have i: "\<forall>j < ?i. xs ! j < x" "\<forall>j. ?i \<le> j \<and> j < length xs \<longrightarrow> x \<le> xs ! j"
    using lower_bound_splits [OF s, of 0 "length xs" x] by auto
  show ?thesis
  proof
    assume "binary_search xs x"
    then have "?i < length xs" "\<not> x < xs ! ?i" by (simp_all add: binary_search_def Let_def)
    with i(2) show "x \<in> set xs" by (metis nth_mem order_refl order_le_less)
  next
    assume "x \<in> set xs"
    then obtain j where j: "j < length xs" "xs ! j = x" by (auto simp: in_set_conv_nth)
    then have "?i \<le> j" using i(1) by (metis linorder_not_le order_less_irrefl)
    then have "?i < length xs" "xs ! ?i \<le> x" using j sorted_nth_mono [OF s, of ?i j] by auto
    then show "binary_search xs x" by (auto simp: binary_search_def Let_def)
  qed
qed

lemma libcalls_sorted: "sorted (accumulateAndSortLibcalls env triple)"
  by (simp add: accumulateAndSortLibcalls_def Let_def sorted_remdups_adj)

definition libcall_names :: "'c llvm_env \<Rightarrow> string \<Rightarrow> string set" where
  "libcall_names env triple =
     set (library_functions env triple) \<union>
     {n. \<exists>names. lowering_libcalls env triple = Some names \<and> Some n \<in> set names}"

lemma libcalls_set: "set (accumulateAndSortLibcalls env triple) = libcall_names env triple"
  by (cases "lowering_libcalls env triple")
    (force simp: accumulateAndSortLibcalls_def Let_def libcall_names_def image_iff)+

section \<open>The module with its restrictions\<close>

definition all_values :: "'c merged \<Rightarrow> global_value list" where
  "all_values M = mg_functions M @ mg_globals M @ mg_aliases M"

text \<open>The definitions among the symbols that must be preserved: what internalisation leaves alone.\<close>

definition must_keep :: "string set \<Rightarrow> global_value \<Rightarrow> bool" where
  "must_keep must GV \<longleftrightarrow> \<not> gv_no_body GV \<and> gv_mangled GV \<in> must"

definition kept_definitions :: "string set \<Rightarrow> 'c merged \<Rightarrow> string list" where
  "kept_definitions must M = map gv_name (filter (must_keep must) (all_values M))"

text \<open>The definitions that assembler text or a library call may need, and those the compiler has marked.\<close>

definition may_need :: "'c llvm_env \<Rightarrow> string \<Rightarrow> string set \<Rightarrow> global_value \<Rightarrow> bool" where
  "may_need env triple asm_refs GV \<longleftrightarrow> \<not> gv_no_body GV \<and>
     (gv_mangled GV \<in> asm_refs \<or> gv_kind GV = FunctionValue \<and> gv_name GV \<in> libcall_names env triple)"

definition used_definitions :: "'c llvm_env \<Rightarrow> string \<Rightarrow> string set \<Rightarrow> 'c merged \<Rightarrow> string set" where
  "used_definitions env triple asm_refs M =
     gv_name ` {GV \<in> set (all_values M). may_need env triple asm_refs GV} \<union>
     {n. \<exists>inits. mg_compiler_used M = Some inits \<and> Some n \<in> set inits}"

definition mark_used :: "'c llvm_env \<Rightarrow> string set \<Rightarrow> 'c merged \<Rightarrow> 'c merged" where
  "mark_used env used M =
     M\<lparr>mg_compiler_used := (if used = {} then None else Some (map Some (used_order env used)))\<rparr>"

lemma applyRestriction_step:
  "applyRestriction g (accumulateAndSortLibcalls env triple) GV (ks, us) =
   (ks @ (if must_keep (MustPreserveSymbols g) GV then [gv_name GV] else []),
    us \<union> (if may_need env triple (AsmUndefinedRefs g) GV then {gv_name GV} else {}))"
  by (simp add: applyRestriction_def must_keep_def may_need_def binary_search_member [OF libcalls_sorted]
      libcalls_set Let_def)

lemma applyRestriction_fold:
  "fold (applyRestriction g (accumulateAndSortLibcalls env triple)) GVs (ks, us) =
   (ks @ map gv_name (filter (must_keep (MustPreserveSymbols g)) GVs),
    us \<union> gv_name ` {GV \<in> set GVs. may_need env triple (AsmUndefinedRefs g) GV})"
proof (induction GVs arbitrary: ks us)
  case (Cons GV GVs)
  have "{G \<in> set (GV # GVs). may_need env triple (AsmUndefinedRefs g) G} =
      (if may_need env triple (AsmUndefinedRefs g) GV then {GV} else {}) \<union>
      {G \<in> set GVs. may_need env triple (AsmUndefinedRefs g) G}" by auto
  then show ?case by (simp add: applyRestriction_step Cons image_Un)
qed simp

lemma findUsedValues_set:
  "findUsedValues used us = us \<union> {n. \<exists>inits. used = Some inits \<and> Some n \<in> set inits}"
proof -
  have "fold (\<lambda>op S. case op of Some x \<Rightarrow> insert x S | None \<Rightarrow> S) inits us = us \<union> {n. Some n \<in> set inits}" for inits
    by (induction inits arbitrary: us) (auto split: option.split)
  then show ?thesis by (cases used) (simp_all add: findUsedValues_def)
qed

definition passes_ok :: "'c llvm_env \<Rightarrow> bool" where
  "passes_ok env \<longleftrightarrow>
     (\<forall>p M. analysis_pass p \<longrightarrow> run_pass env p M = M) \<and> (\<forall>T p. p \<in> set (analysis_passes env T) \<longrightarrow> analysis_pass p)"

lemma run_passes_analysis:
  "passes_ok env \<Longrightarrow> (\<And>p. p \<in> set ps \<Longrightarrow> analysis_pass p) \<Longrightarrow> run_passes env ps M = M"
  unfolding run_passes_def by (induction ps arbitrary: M) (simp_all add: passes_ok_def)

lemma run_passes_append: "run_passes env (ps @ qs) M = run_passes env qs (run_passes env ps M)"
  by (simp add: run_passes_def)

text \<open>The module that internalisation is run on, and what it is run with.\<close>

definition restricted_module :: "'c llvm_env \<Rightarrow> string \<Rightarrow> string set \<Rightarrow> string set \<Rightarrow> 'c merged \<Rightarrow> 'c merged" where
  "restricted_module env triple must asm_refs M =
     run_pass env (InternalizePass (kept_definitions must M)) (mark_used env (used_definitions env triple asm_refs M) M)"

lemma applyScopeRestrictions_module:
  assumes ok: "passes_ok env" and T: "cg_target g = Some T" and fresh: "\<not> ScopeRestrictionsDone g"
  shows "applyScopeRestrictions env g = Some (g\<lparr>
    cg_linker := restricted_module env (tm_triple T) (MustPreserveSymbols g) (AsmUndefinedRefs g) (cg_linker g),
    ScopeRestrictionsDone := True\<rparr>)"
proof -
  let ?M = "cg_linker g"
  have v: "run_pass env VerifierPass M = M" for M using ok by (simp add: passes_ok_def)
  let ?f = "applyRestriction g (accumulateAndSortLibcalls env (tm_triple T))"
  let ?need = "may_need env (tm_triple T) (AsmUndefinedRefs g)"
  have acc: "fold ?f (mg_aliases ?M) (fold ?f (mg_globals ?M) (fold ?f (mg_functions ?M) ([], {}))) =
      (kept_definitions (MustPreserveSymbols g) ?M, gv_name ` {GV \<in> set (all_values ?M). ?need GV})"
    using applyRestriction_fold [of g env "tm_triple T" "all_values ?M" "[]" "{}"]
    by (simp only: all_values_def fold_append comp_apply append_Nil Un_empty_left kept_definitions_def)
  have used: "findUsedValues (mg_compiler_used ?M) (gv_name ` {GV \<in> set (all_values ?M). ?need GV}) =
      used_definitions env (tm_triple T) (AsmUndefinedRefs g) ?M"
    by (simp only: findUsedValues_set used_definitions_def)
  have marked: "(let M1 = ?M\<lparr>mg_compiler_used := None\<rparr> in
      if U \<noteq> {} then M1\<lparr>mg_compiler_used := Some (map Some (used_order env U))\<rparr> else M1) = mark_used env U ?M" for U
    by (simp add: mark_used_def Let_def)
  show ?thesis
    unfolding applyScopeRestrictions_def T restricted_module_def marked [symmetric]
    by (simp only: fresh if_False option.case Let_def acc prod.case used run_passes_def fold.simps v comp_apply id_apply)
qed

section \<open>The object file is made from the instrumented module\<close>

text \<open>Both files are made from the generator with its target chosen and its symbols restricted, once.\<close>

definition prepare :: "'c llvm_env \<Rightarrow> 'c code_generator \<Rightarrow> 'c code_generator option" where
  "prepare env g =
     (let (found, g1) = determineTarget env g in if found then applyScopeRestrictions env g1 else None)"

definition target_of :: "'c llvm_env \<Rightarrow> string \<Rightarrow> string \<Rightarrow> target_options \<Rightarrow> codegen_model \<Rightarrow> target_machine" where
  "target_of env given cpu opts model =
     (let triple = (if given = [] then default_triple env else given) in
      \<lparr>tm_triple = triple, tm_cpu = darwin_cpu env triple cpu, tm_options = opts, tm_reloc = reloc_of model\<rparr>)"

lemma determineTarget_result:
  "determineTarget env g = (True, g1) \<Longrightarrow>
   cg_target g1 \<noteq> None \<and>
   (cg_target g = None \<longrightarrow> cg_target g1 = Some (target_of env (mg_triple (cg_linker g)) (MCpu g) (cg_options g) (CodeModel g))) \<and>
   cg_linker g1 = cg_linker g \<and> MustPreserveSymbols g1 = MustPreserveSymbols g \<and>
   AsmUndefinedRefs g1 = AsmUndefinedRefs g \<and> ScopeRestrictionsDone g1 = ScopeRestrictionsDone g \<and>
   NativeObjectFile g1 = NativeObjectFile g"
  by (auto simp: determineTarget_def target_of_def Let_def split: if_splits)

lemma determineTarget_failed: "determineTarget env g = (False, g1) \<Longrightarrow> g1 = g"
  by (auto simp: determineTarget_def Let_def split: if_splits)

lemma applyScopeRestrictions_done:
  "applyScopeRestrictions env g = Some g' \<Longrightarrow> ScopeRestrictionsDone g' \<and> cg_target g' = cg_target g"
  by (auto simp: applyScopeRestrictions_def Let_def split: if_splits option.splits prod.splits)

lemma prepare_again:
  assumes p: "prepare env g = Some g'"
  shows "prepare env g' = Some g'" "determineTarget env g' = (True, g')" "applyScopeRestrictions env g' = Some g'"
proof -
  obtain g1 where g1: "determineTarget env g = (True, g1)" "applyScopeRestrictions env g1 = Some g'"
    using p by (auto simp: prepare_def split: prod.splits if_splits)
  have done_: "ScopeRestrictionsDone g'" "cg_target g' \<noteq> None"
    using applyScopeRestrictions_done [OF g1(2)] determineTarget_result [OF g1(1)] by auto
  then show t: "determineTarget env g' = (True, g')" by (simp add: determineTarget_def)
  show r: "applyScopeRestrictions env g' = Some g'" using done_ by (simp add: applyScopeRestrictions_def)
  show "prepare env g' = Some g'" by (simp add: prepare_def t r)
qed

lemma prepare_module:
  assumes ok: "passes_ok env" and p: "prepare env g = Some g'" and fresh: "\<not> ScopeRestrictionsDone g"
  shows "\<exists>T. cg_target g' = Some T \<and>
    cg_linker g' = restricted_module env (tm_triple T) (MustPreserveSymbols g) (AsmUndefinedRefs g) (cg_linker g) \<and>
    (cg_target g = None \<longrightarrow> T = target_of env (mg_triple (cg_linker g)) (MCpu g) (cg_options g) (CodeModel g))"
proof -
  obtain g1 where g1: "determineTarget env g = (True, g1)" "applyScopeRestrictions env g1 = Some g'"
    using p by (auto simp: prepare_def split: prod.splits if_splits)
  note r = determineTarget_result [OF g1(1)]
  then obtain T where T: "cg_target g1 = Some T" by auto
  show ?thesis
    using applyScopeRestrictions_module [OF ok T] r fresh g1(2) T by auto
qed

lemma object_passes_run:
  assumes ok: "passes_ok env"
  shows "run_passes env (object_passes env T disabled i l) M =
    (if disabled then M else run_pass env SlimmerTracePass M)"
proof -
  have a: "run_passes env [VerifierPass, DataLayoutPass] M = M" for M
    by (rule run_passes_analysis [OF ok]) auto
  have t: "run_passes env (analysis_passes env T) M = M" for M
    by (rule run_passes_analysis [OF ok]) (use ok in \<open>auto simp: passes_ok_def\<close>)
  have b: "run_passes env [TypeBasedAliasAnalysisPass, BasicAliasAnalysisPass] M = M" "run_passes env [VerifierPass] M = M" for M
    by (rule run_passes_analysis [OF ok]; auto)+
  have s: "run_passes env [SlimmerTracePass] M = run_pass env SlimmerTracePass M" for M
    by (simp add: run_passes_def)
  show ?thesis
    by (cases disabled) (simp_all only: object_passes_def Let_def populateLTOPassManager_def
        addInitialAliasAnalysisPasses_def run_passes_append if_True if_False simp_thms a t b s)
qed

text \<open>The bytes written for a prepared generator's target and an instrumented module.\<close>

definition object_of :: "'c llvm_env \<Rightarrow> target_machine \<Rightarrow> 'c merged \<Rightarrow> bytes option" where
  "object_of env T M =
     map_option (\<lambda>emit. snd (emit_object env (DataLayoutPass # analysis_passes env T @ ObjCARCContractPass # emit) M))
       (emit_passes env T)"

lemma generateObjectFile_object:
  assumes ok: "passes_ok env" and r: "generateObjectFile env disabled i l g = Some (Some obj, g')"
  shows "\<exists>g2 T. prepare env g = Some g2 \<and> cg_target g2 = Some T \<and> NativeObjectFile g' = NativeObjectFile g2 \<and>
    object_of env T (if disabled then cg_linker g2 else run_pass env SlimmerTracePass (cg_linker g2)) = Some obj"
proof -
  obtain g1 where t: "determineTarget env g = (True, g1)"
    using r by (auto simp: generateObjectFile_def split: prod.splits if_splits)
  then obtain g2 T where g2: "applyScopeRestrictions env g1 = Some g2" "cg_target g2 = Some T"
    using r by (auto simp: generateObjectFile_def fail_simps)
  have "prepare env g = Some g2" by (simp add: prepare_def t g2)
  moreover have "object_of env T (if disabled then cg_linker g2 else run_pass env SlimmerTracePass (cg_linker g2)) = Some obj"
    "NativeObjectFile g' = NativeObjectFile g2"
    using r t g2 by (auto simp: generateObjectFile_def Let_def object_passes_run [OF ok] object_of_def
        split: option.splits prod.splits)
  ultimately show ?thesis using g2 by blast
qed

lemma compile_to_file_object:
  assumes ok: "passes_ok env" and r: "compile_to_file env io fl (g, fs) = Some (True, g', fs')"
  shows "\<exists>g2 T obj. prepare env g = Some g2 \<and> cg_target g2 = Some T \<and> fs' (NativeObjectPath g') = Some obj \<and>
    object_of env T (if DisableOpt fl then cg_linker g2 else run_pass env SlimmerTracePass (cg_linker g2)) = Some obj"
proof -
  obtain path obj g1 where g1: "generateObjectFile env (DisableOpt fl) (DisableInline fl) (DisableGVNLoadPRE fl) g = Some (Some obj, g1)"
    "g' = g1\<lparr>NativeObjectPath := path\<rparr>" "fs' = fs(path \<mapsto> obj)"
    using r by (auto simp: compile_to_file_def fail_simps split: option.splits if_splits)
  then show ?thesis using generateObjectFile_object [OF ok g1(1)] by auto
qed

text \<open>Writing the bitcode file leaves a generator from which the same object file is made.\<close>

lemma writeMergedModules_prepares:
  assumes r: "writeMergedModules env opened werr path (g, fs) = Some (res, g', fs')"
  shows "prepare env g' = prepare env g"
proof -
  obtain found g1 where t: "determineTarget env g = (found, g1)" by (cases "determineTarget env g")
  show ?thesis
  proof (cases found)
    case False
    then show ?thesis
      using r t determineTarget_failed [of env g g1] by (auto simp: writeMergedModules_def)
  next
    case True
    then obtain g2 where g2: "applyScopeRestrictions env g1 = Some g2" "g' = g2"
      using r t by (auto simp: writeMergedModules_def fail_simps split: if_splits)
    then have "prepare env g = Some g'" using t True by (simp add: prepare_def)
    with prepare_again(1) [OF this] show ?thesis by simp
  qed
qed

text \<open>
  When the object file cannot be read back, the buffer of the call before has been deleted and the
  pointer to it is kept: the destructor deletes it again.
\<close>

lemma unreadable_object_deleted_twice:
  assumes "compile_to_file env io fl (g, fs) = Some (True, g1, fs1)" "NativeObjectFile g1 = ObjectBuffer b" "io_unreadable io"
  shows "\<exists>g2 fs2. compile env io fl (g, fs) = Some (None, g2, fs2) \<and> LTOCodeGenerator_delete g2 = None"
  using assms by (simp add: compile_def Let_def LTOCodeGenerator_delete_def require_def)

end
