(* ===== verification/GoldPlugin.thy ===== *)
theory GoldPlugin
  imports LTOCodeGen
begin

text \<open>
  The linker plugin (\<open>tools/SlimmerGold/gold-plugin.cpp\<close>). The linker's side is input: the transfer vector,
  the files it offers, the resolutions it reports, and whether its services succeed. The plugin's globals
  are a record; a service the linker did not pass is a null pointer. Messages and the files added to the
  link are kept in order.
\<close>

datatype plugin_level = LDPL_WARNING | LDPL_ERROR | LDPL_FATAL

datatype plugin_status = LDPS_OK | LDPS_ERR

datatype symbol_kind = LDPK_DEF | LDPK_WEAKDEF | LDPK_UNDEF | LDPK_WEAKUNDEF | LDPK_COMMON

datatype symbol_visibility = LDPV_DEFAULT | LDPV_PROTECTED | LDPV_HIDDEN

datatype symbol_resolution =
    LDPR_UNKNOWN | LDPR_UNDEF | LDPR_PREVAILING_DEF | LDPR_PREVAILING_DEF_IRONLY | LDPR_PREEMPTED_REG
  | LDPR_PREEMPTED_IR | LDPR_RESOLVED_IR | LDPR_RESOLVED_EXEC | LDPR_RESOLVED_DYN | LDPR_PREVAILING_DEF_IRONLY_EXP

record plugin_symbol =
  ps_name :: string
  ps_visibility :: symbol_visibility
  ps_def :: symbol_kind
  ps_comdat_key :: "string option"
  ps_resolution :: symbol_resolution

record claimed_file =
  cf_handle :: nat
  cf_syms :: "plugin_symbol list"

datatype generate_bc = BC_NO | BC_ALSO | BC_ONLY

record plugin_options =
  generate_api_file :: bool
  generate_bc_file :: generate_bc
  bc_path :: string
  obj_path :: string
  extra_library_path :: string
  opt_triple :: string
  opt_mcpu :: string
  opt_extra :: "string list"

record plugin_services =
  has_add_symbols :: bool
  has_get_symbols :: bool
  has_add_input_file :: bool
  has_add_input_library :: bool
  has_set_extra_library_path :: bool
  has_get_view :: bool
  has_message :: bool

record 'c plugin =
  api_version :: i32
  gold_version :: i32
  output_type :: codegen_model
  output_name :: string
  Modules :: "claimed_file list"
  Cleanup :: "string list"
  code_gen :: "'c code_generator option"
  CannotBeHidden :: "string set"
  p_options :: plugin_options
  services :: plugin_services
  p_lto :: lto_state
  p_files :: files
  messages :: "(plugin_level \<times> string) list"
  link_inputs :: "string list"

definition plugin_init :: "files \<Rightarrow> 'c plugin" where
  "plugin_init fs =
     \<lparr>api_version = 0, gold_version = 0, output_type = PIC_MODEL_STATIC, output_name = [], Modules = [], Cleanup = [],
      code_gen = None, CannotBeHidden = {},
      p_options = \<lparr>generate_api_file = False, generate_bc_file = BC_NO, bc_path = [], obj_path = [],
        extra_library_path = [], opt_triple = [], opt_mcpu = [], opt_extra = []\<rparr>,
      services = \<lparr>has_add_symbols = False, has_get_symbols = False, has_add_input_file = False,
        has_add_input_library = False, has_set_extra_library_path = False, has_get_view = False, has_message = False\<rparr>,
      p_lto = lto_init, p_files = fs, messages = [], link_inputs = []\<rparr>"

text \<open>\<open>discard_message\<close>, the message function before the linker passes one, aborts.\<close>

definition say :: "plugin_level \<Rightarrow> string \<Rightarrow> 'c plugin \<Rightarrow> 'c plugin option" where
  "say level txt_of p = (if has_message (services p) then Some (p\<lparr>messages := messages p @ [(level, txt_of)]\<rparr>) else None)"

section \<open>Options\<close>

definition startswith :: "string \<Rightarrow> string \<Rightarrow> bool" where
  "startswith s prefix \<longleftrightarrow> take (length prefix) s = prefix"

definition process_plugin_option :: "string option \<Rightarrow> 'c plugin \<Rightarrow> 'c plugin option" where
  "process_plugin_option arg p =
     (case arg of
        None \<Rightarrow> Some p
      | Some opt \<Rightarrow>
          let o1 = p_options p in
          if opt = ''generate-api-file'' then Some (p\<lparr>p_options := o1\<lparr>generate_api_file := True\<rparr>\<rparr>)
          else if startswith opt ''mcpu='' then Some (p\<lparr>p_options := o1\<lparr>opt_mcpu := drop (length ''mcpu='') opt\<rparr>\<rparr>)
          else if startswith opt ''extra-library-path=''
            then Some (p\<lparr>p_options := o1\<lparr>extra_library_path := drop (length ''extra_library_path='') opt\<rparr>\<rparr>)
          else if startswith opt ''mtriple='' then Some (p\<lparr>p_options := o1\<lparr>opt_triple := drop (length ''mtriple='') opt\<rparr>\<rparr>)
          else if startswith opt ''obj-path='' then Some (p\<lparr>p_options := o1\<lparr>obj_path := drop (length ''obj-path='') opt\<rparr>\<rparr>)
          else if opt = ''emit-llvm'' then Some (p\<lparr>p_options := o1\<lparr>generate_bc_file := BC_ONLY\<rparr>\<rparr>)
          else if opt = ''also-emit-llvm'' then Some (p\<lparr>p_options := o1\<lparr>generate_bc_file := BC_ALSO\<rparr>\<rparr>)
          else if startswith opt ''also-emit-llvm='' then
            let path = drop (length ''also-emit-llvm='') opt;
                p1 = p\<lparr>p_options := o1\<lparr>generate_bc_file := BC_ALSO\<rparr>\<rparr> in
            if bc_path o1 \<noteq> []
            then say LDPL_WARNING (''Path to the output IL file specified twice. Discarding '' @ opt) p1
            else Some (p1\<lparr>p_options := (p_options p1)\<lparr>bc_path := path\<rparr>\<rparr>)
          else Some (p\<lparr>p_options := o1\<lparr>opt_extra := opt_extra o1 @ [opt]\<rparr>\<rparr>))"

section \<open>Loading\<close>

text \<open>The entries of the transfer vector; for a registration, whether it succeeds; for a service, that it is no null pointer.\<close>

datatype plugin_tv =
    LDPT_API_VERSION i32 | LDPT_GOLD_VERSION i32 | LDPT_OUTPUT_NAME string | LDPT_LINKER_OUTPUT i32
  | LDPT_OPTION "string option"
  | LDPT_REGISTER_CLAIM_FILE_HOOK plugin_status | LDPT_REGISTER_ALL_SYMBOLS_READ_HOOK plugin_status
  | LDPT_REGISTER_CLEANUP_HOOK plugin_status
  | LDPT_ADD_SYMBOLS bool | LDPT_GET_SYMBOLS_V2 bool | LDPT_ADD_INPUT_FILE bool | LDPT_ADD_INPUT_LIBRARY bool
  | LDPT_SET_EXTRA_LIBRARY_PATH bool | LDPT_GET_VIEW bool | LDPT_MESSAGE bool | LDPT_OTHER

record 'c lto_library =
  lib_env :: "'c llvm_env"
  lib_empty :: "'c merged"
  lib_cl :: target_options
  lib_defaults :: target_options
  lib_parse :: "string list \<Rightarrow> cl_flags \<Rightarrow> cl_flags"
  lib_order :: "string set \<Rightarrow> string list"

text \<open>\<open>LDPO_REL\<close>, \<open>LDPO_EXEC\<close>, \<open>LDPO_DYN\<close> and the literal 3.\<close>

definition linker_output :: "i32 \<Rightarrow> codegen_model option" where
  "linker_output v = (if v = 0 \<or> v = 2 \<or> v = 3 then Some PIC_MODEL_DYNAMIC else if v = 1 then Some PIC_MODEL_STATIC else None)"

text \<open>The loop; the Boolean is \<open>registeredClaimFile\<close>.\<close>

fun onload_loop :: "'c lto_library \<Rightarrow> plugin_tv list \<Rightarrow> bool \<times> 'c plugin \<Rightarrow> (plugin_status \<times> bool \<times> 'c plugin) option" where
  "onload_loop lib [] (r, p) = Some (LDPS_OK, r, p)"
| "onload_loop lib (LDPT_API_VERSION v # tv) (r, p) = onload_loop lib tv (r, p\<lparr>api_version := v\<rparr>)"
| "onload_loop lib (LDPT_GOLD_VERSION v # tv) (r, p) = onload_loop lib tv (r, p\<lparr>gold_version := v\<rparr>)"
| "onload_loop lib (LDPT_OUTPUT_NAME s # tv) (r, p) = onload_loop lib tv (r, p\<lparr>output_name := s\<rparr>)"
| "onload_loop lib (LDPT_LINKER_OUTPUT v # tv) (r, p) =
     (case linker_output v of
        Some m \<Rightarrow> onload_loop lib tv (r, p\<lparr>output_type := m\<rparr>)
      | None \<Rightarrow> do { p1 \<leftarrow> say LDPL_ERROR ''Unknown output file type'' p; Some (LDPS_ERR, r, p1) })"
| "onload_loop lib (LDPT_OPTION s # tv) (r, p) =
     do { p1 \<leftarrow> process_plugin_option s p; onload_loop lib tv (r, p1) }"
| "onload_loop lib (LDPT_REGISTER_CLAIM_FILE_HOOK s # tv) (r, p) =
     (if s \<noteq> LDPS_OK then Some (LDPS_ERR, r, p) else onload_loop lib tv (True, p))"
| "onload_loop lib (LDPT_REGISTER_ALL_SYMBOLS_READ_HOOK s # tv) (r, p) =
     (if s \<noteq> LDPS_OK then Some (LDPS_ERR, r, p)
      else onload_loop lib tv (r, p\<lparr>code_gen := Some (lto_codegen_create (lib_empty lib) (lib_cl lib) (lib_defaults lib))\<rparr>))"
| "onload_loop lib (LDPT_REGISTER_CLEANUP_HOOK s # tv) (r, p) =
     (if s \<noteq> LDPS_OK then Some (LDPS_ERR, r, p) else onload_loop lib tv (r, p))"
| "onload_loop lib (LDPT_ADD_SYMBOLS b # tv) (r, p) =
     onload_loop lib tv (r, p\<lparr>services := (services p)\<lparr>has_add_symbols := b\<rparr>\<rparr>)"
| "onload_loop lib (LDPT_GET_SYMBOLS_V2 b # tv) (r, p) =
     onload_loop lib tv (r, p\<lparr>services := (services p)\<lparr>has_get_symbols := b\<rparr>\<rparr>)"
| "onload_loop lib (LDPT_ADD_INPUT_FILE b # tv) (r, p) =
     onload_loop lib tv (r, p\<lparr>services := (services p)\<lparr>has_add_input_file := b\<rparr>\<rparr>)"
| "onload_loop lib (LDPT_ADD_INPUT_LIBRARY b # tv) (r, p) =
     onload_loop lib tv (r, p\<lparr>services := (services p)\<lparr>has_add_input_library := b\<rparr>\<rparr>)"
| "onload_loop lib (LDPT_SET_EXTRA_LIBRARY_PATH b # tv) (r, p) =
     onload_loop lib tv (r, p\<lparr>services := (services p)\<lparr>has_set_extra_library_path := b\<rparr>\<rparr>)"
| "onload_loop lib (LDPT_GET_VIEW b # tv) (r, p) =
     onload_loop lib tv (r, p\<lparr>services := (services p)\<lparr>has_get_view := b\<rparr>\<rparr>)"
| "onload_loop lib (LDPT_MESSAGE b # tv) (r, p) =
     onload_loop lib tv (r, p\<lparr>services := (services p)\<lparr>has_message := b\<rparr>\<rparr>)"
| "onload_loop lib (LDPT_OTHER # tv) (r, p) = onload_loop lib tv (r, p)"

definition onload :: "'c lto_library \<Rightarrow> plugin_tv list \<Rightarrow> 'c plugin \<Rightarrow> (plugin_status \<times> 'c plugin) option" where
  "onload lib tv p = do {
     (status, registeredClaimFile, p1) \<leftarrow> onload_loop lib tv (False, p);
     if status = LDPS_ERR then Some (LDPS_ERR, p1)
     else if \<not> registeredClaimFile then do {
       p2 \<leftarrow> say LDPL_ERROR ''register_claim_file not passed to LLVMgold.'' p1; Some (LDPS_ERR, p2) }
     else if \<not> has_add_symbols (services p1) then do {
       p2 \<leftarrow> say LDPL_ERROR ''add_symbols not passed to LLVMgold.'' p1; Some (LDPS_ERR, p2) }
     else Some (LDPS_OK, p1)
   }"

section \<open>Claiming a file\<close>

text \<open>A file the linker offers: whether its bytes can be had, what LLVM makes of them, whether the linker takes its symbols.\<close>

record offered_file =
  of_handle :: nat
  of_name :: string
  of_view :: plugin_status
  of_bitcode :: bool
  of_parsed :: "(string \<times> ir_module) option"
  of_added :: plugin_status

definition visibility_of :: "sym_scope option \<Rightarrow> symbol_visibility" where
  "visibility_of sc = (case sc of Some ScopeHidden \<Rightarrow> LDPV_HIDDEN | Some ScopeProtected \<Rightarrow> LDPV_PROTECTED | _ \<Rightarrow> LDPV_DEFAULT)"

definition kind_of :: "sym_definition \<Rightarrow> symbol_kind" where
  "kind_of d = (case d of DefinitionRegular \<Rightarrow> LDPK_DEF | DefinitionUndefined \<Rightarrow> LDPK_UNDEF
     | DefinitionTentative \<Rightarrow> LDPK_COMMON | DefinitionWeak \<Rightarrow> LDPK_WEAKDEF | DefinitionWeakUndef \<Rightarrow> LDPK_WEAKUNDEF)"

text \<open>The loop over the module's symbols. A name is there, or \<open>strdup\<close> reads a null pointer.\<close>

fun claim_symbols :: "sym_info list \<Rightarrow> plugin_symbol list \<Rightarrow> 'c plugin \<Rightarrow> (plugin_status \<times> plugin_symbol list \<times> 'c plugin) option" where
  "claim_symbols [] syms p = Some (LDPS_OK, syms, p)"
| "claim_symbols (s # ss) syms p =
     (let attrs = sy_attributes s in
      if at_scope attrs = Some ScopeInternal then claim_symbols ss syms p
      else do {
        name \<leftarrow> sy_name s;
        let CanBeHidden = (at_scope attrs = Some ScopeDefaultCanBeHidden);
        let p1 = (if CanBeHidden then p else p\<lparr>CannotBeHidden := insert name (CannotBeHidden p)\<rparr>);
        let sym = \<lparr>ps_name = name, ps_visibility = visibility_of (at_scope attrs), ps_def = LDPK_DEF,
                   ps_comdat_key = None, ps_resolution = LDPR_UNKNOWN\<rparr>;
        case at_definition attrs of
          None \<Rightarrow> do { p2 \<leftarrow> say LDPL_ERROR ''Unknown definition attribute'' p1; Some (LDPS_ERR, syms @ [sym], p2) }
        | Some d \<Rightarrow>
            claim_symbols ss
              (syms @ [sym\<lparr>ps_def := kind_of d, ps_comdat_key := (if d = DefinitionWeak then Some name else None)\<rparr>]) p1
      })"

definition claim_file_hook ::
  "'c lto_library \<Rightarrow> offered_file \<Rightarrow> 'c plugin \<Rightarrow> (plugin_status \<times> bool \<times> 'c plugin) option" where
  "claim_file_hook lib file p =
     (if of_view file \<noteq> LDPS_OK then do {
        p1 \<leftarrow> say LDPL_ERROR (if has_get_view (services p) then ''Failed to get a view of '' @ of_name file
                            else ''the file cannot be read'') p;
        Some (LDPS_ERR, False, p1) }
      else if \<not> of_bitcode file then Some (LDPS_OK, False, p)
      else do {
        M \<leftarrow> makeLTOModule (lib_order lib) (lookup_target (lib_env lib)) (default_triple (lib_env lib)) (of_parsed file);
        case (M, of_parsed file) of
          (Some m, Some (triple, ir)) \<Rightarrow> do {
            let triple1 = (if opt_triple (p_options p) \<noteq> [] then opt_triple (p_options p) else triple);
            (status, syms, p1) \<leftarrow> claim_symbols (lm_symbols m) [] p;
            let p2 = p1\<lparr>Modules := Modules p1 @ [\<lparr>cf_handle = of_handle file, cf_syms = syms\<rparr>]\<rparr>;
            if status = LDPS_ERR then Some (LDPS_ERR, True, p2)
            else if syms \<noteq> [] \<and> \<not> has_add_symbols (services p2) then None
            else if syms \<noteq> [] \<and> of_added file \<noteq> LDPS_OK then do {
              p3 \<leftarrow> say LDPL_ERROR ''Unable to add symbols!'' p2; Some (LDPS_ERR, True, p3) }
            else (case code_gen p2 of
                None \<Rightarrow> Some (LDPS_OK, True, p2)
              | Some cg \<Rightarrow>
                  let (err, cg1) = lto_codegen_add_module (lib_env lib) (triple1, ir) m cg;
                      p3 = p2\<lparr>code_gen := Some cg1\<rparr> in
                  if err then do { p4 \<leftarrow> say LDPL_ERROR ''Error linking module'' p3; Some (LDPS_ERR, True, p4) }
                  else Some (LDPS_OK, True, p3))
          }
        | _ \<Rightarrow> do { p1 \<leftarrow> say LDPL_ERROR ''LLVM gold plugin has failed to create LTO module'' p; Some (LDPS_ERR, False, p1) }
      })"

section \<open>All symbols read\<close>

definition mustPreserve :: "string set \<Rightarrow> plugin_symbol \<Rightarrow> bool" where
  "mustPreserve cannot_be_hidden s =
     (if ps_resolution s = LDPR_PREVAILING_DEF then True
      else if ps_resolution s = LDPR_PREVAILING_DEF_IRONLY_EXP then ps_name s \<in> cannot_be_hidden
      else False)"

text \<open>The linker fills in the resolution of every symbol of a file.\<close>

definition get_symbols :: "(nat \<Rightarrow> nat \<Rightarrow> symbol_resolution) \<Rightarrow> claimed_file \<Rightarrow> claimed_file" where
  "get_symbols resolve F = F\<lparr>cf_syms :=
     map (\<lambda>(i, s). s\<lparr>ps_resolution := resolve (cf_handle F) i\<rparr>) (enumerate 0 (cf_syms F))\<rparr>"

definition resolve_modules :: "'c plugin \<Rightarrow> (nat \<Rightarrow> nat \<Rightarrow> symbol_resolution) \<Rightarrow> claimed_file list \<Rightarrow> claimed_file list option" where
  "resolve_modules p resolve Fs =
     (if (\<exists>F \<in> set Fs. cf_syms F \<noteq> []) \<and> \<not> has_get_symbols (services p) then None
      else Some (map (\<lambda>F. if cf_syms F = [] then F else get_symbols resolve F) Fs))"

definition preserved_names :: "string set \<Rightarrow> claimed_file list \<Rightarrow> string list" where
  "preserved_names cannot_be_hidden Fs =
     concat (map (\<lambda>F. map ps_name (filter (mustPreserve cannot_be_hidden) (cf_syms F))) Fs)"

definition text_bytes :: "string \<Rightarrow> bytes" where
  "text_bytes s = map of_char s"

text \<open>What the outside decides during the hook.\<close>

record read_outcome =
  ro_resolve :: "nat \<Rightarrow> nat \<Rightarrow> symbol_resolution"
  ro_api_opened :: bool
  ro_bc_opened :: bool
  ro_bc_error :: bool
  ro_io :: io_outcome
  ro_input_added :: plugin_status
  ro_path_set :: plugin_status

datatype hook_result = HookReturned plugin_status | HookExited

definition bitcode_path :: "'c plugin \<Rightarrow> string" where
  "bitcode_path p =
     (let o1 = p_options p in
      if generate_bc_file o1 = BC_ONLY then output_name p
      else if bc_path o1 \<noteq> [] then bc_path o1
      else output_name p @ ''.bc'')"

text \<open>The settings the plugin makes before it writes or compiles.\<close>

definition configure_codegen :: "'c plugin \<Rightarrow> string list \<Rightarrow> 'c code_generator \<Rightarrow> 'c code_generator" where
  "configure_codegen p keep cg =
     (let cg1 = fold lto_codegen_add_must_preserve_symbol keep cg;
          cg2 = setDebugInfo DEBUG_MODEL_DWARF (setCodePICModel (output_type p) cg1);
          cg3 = (if opt_mcpu (p_options p) \<noteq> [] then cg2\<lparr>MCpu := opt_mcpu (p_options p)\<rparr> else cg2)
      in fold setCodeGenDebugOptions (opt_extra (p_options p)) cg3)"

text \<open>The bitcode file, if one is asked for.\<close>

definition emit_bitcode ::
  "'c lto_library \<Rightarrow> read_outcome \<Rightarrow> 'c plugin \<Rightarrow> 'c code_generator \<Rightarrow> ('c plugin \<times> 'c code_generator) option" where
  "emit_bitcode lib ro p cg =
     (if generate_bc_file (p_options p) = BC_NO then Some (p, cg)
      else do {
        (err, lto, cg1, fs) \<leftarrow> lto_codegen_write_merged_modules (lib_env lib) (lib_parse lib) (ro_bc_opened ro) (ro_bc_error ro)
          (bitcode_path p) (p_lto p, cg, p_files p);
        let p1 = p\<lparr>p_lto := lto, p_files := fs\<rparr>;
        p2 \<leftarrow> (if err then say LDPL_FATAL ''Failed to write the output file.'' p1 else Some p1);
        Some (p2, cg1)
      })"

text \<open>The object file: when there is none, its name is read from a variable nobody wrote.\<close>

definition emit_object_file ::
  "'c lto_library \<Rightarrow> read_outcome \<Rightarrow> 'c plugin \<Rightarrow> 'c code_generator \<Rightarrow> (string \<times> 'c plugin \<times> 'c code_generator) option" where
  "emit_object_file lib ro p cg = do {
     (err, lto, cg1, fs) \<leftarrow> lto_codegen_compile_to_file (lib_env lib) (lib_parse lib) (ro_io ro) (p_lto p, cg, p_files p);
     let p1 = p\<lparr>p_lto := lto, p_files := fs\<rparr>;
     p2 \<leftarrow> (if err then say LDPL_ERROR ''Could not produce a combined object file'' p1 else Some p1);
     if err then None else Some (NativeObjectPath cg1, p2, cg1)
   }"

definition link_object ::
  "read_outcome \<Rightarrow> string \<Rightarrow> 'c plugin \<Rightarrow> (hook_result \<times> 'c plugin) option" where
  "link_object ro ObjPath p =
     (if \<not> has_add_input_file (services p) then None
      else let p1 = p\<lparr>link_inputs := link_inputs p @ [ObjPath]\<rparr> in
      if ro_input_added ro \<noteq> LDPS_OK then do {
        p2 \<leftarrow> say LDPL_ERROR ''Unable to add .o file to the link.'' p;
        p3 \<leftarrow> say LDPL_ERROR (''File left behind in: '' @ ObjPath) p2;
        Some (HookReturned LDPS_ERR, p3) }
      else if extra_library_path (p_options p1) \<noteq> [] \<and> \<not> has_set_extra_library_path (services p1) then None
      else if extra_library_path (p_options p1) \<noteq> [] \<and> ro_path_set ro \<noteq> LDPS_OK then do {
        p2 \<leftarrow> say LDPL_ERROR ''Unable to set the extra library path.'' p1;
        Some (HookReturned LDPS_ERR, p2) }
      else Some (HookReturned LDPS_OK,
        if obj_path (p_options p1) = [] then p1\<lparr>Cleanup := Cleanup p1 @ [ObjPath]\<rparr> else p1))"

definition all_symbols_read_hook ::
  "'c lto_library \<Rightarrow> read_outcome \<Rightarrow> 'c plugin \<Rightarrow> (hook_result \<times> 'c plugin) option" where
  "all_symbols_read_hook lib ro p = do {
     cg \<leftarrow> code_gen p;
     let api = generate_api_file (p_options p);
     p \<leftarrow> (if api \<and> \<not> ro_api_opened ro
           then Option.bind (say LDPL_FATAL ''Unable to open apifile.txt for writing.'' p) (\<lambda>_. None) else Some p);
     Fs \<leftarrow> resolve_modules p (ro_resolve ro) (Modules p);
     let keep = preserved_names (CannotBeHidden p) Fs;
     let p = p\<lparr>Modules := Fs,
               p_files := (if api then (p_files p)(''apifile.txt'' \<mapsto> text_bytes (concat (map (\<lambda>n. n @ [CHR 0x0A]) keep)))
                           else p_files p)\<rparr>;
     (p, cg) \<leftarrow> emit_bitcode lib ro p (configure_codegen p keep cg);
     if generate_bc_file (p_options p) = BC_ONLY then do {
       LTOCodeGenerator_delete cg;
       Some (HookExited, p\<lparr>code_gen := None\<rparr>) }
     else do {
       (ObjPath, p, cg) \<leftarrow> emit_object_file lib ro p cg;
       LTOCodeGenerator_delete cg;
       link_object ro ObjPath (p\<lparr>code_gen := None\<rparr>)
     }
   }"

text \<open>The temporary files are removed at the end; \<open>removable\<close> says whether that succeeds.\<close>

definition cleanup_hook :: "(string \<Rightarrow> bool) \<Rightarrow> 'c plugin \<Rightarrow> (plugin_status \<times> 'c plugin) option" where
  "cleanup_hook removable p =
     Option.bind
       (fold_opt (\<lambda>path p. if removable path then Some (p\<lparr>p_files := (p_files p)(path := None)\<rparr>)
                       else say LDPL_ERROR (''Failed to delete '' @ path) p) (Cleanup p) p)
       (\<lambda>p1. Some (LDPS_OK, p1))"

section \<open>What is added to the link\<close>

text \<open>The names whose definitions the linker wants from the plugin's files.\<close>

definition linker_wants :: "(nat \<Rightarrow> nat \<Rightarrow> symbol_resolution) \<Rightarrow> 'c plugin \<Rightarrow> string set" where
  "linker_wants resolve p =
     {x. \<exists>F \<in> set (Modules p). \<exists>i < length (cf_syms F). x = ps_name (cf_syms F ! i) \<and>
        (resolve (cf_handle F) i = LDPR_PREVAILING_DEF \<or>
         resolve (cf_handle F) i = LDPR_PREVAILING_DEF_IRONLY_EXP \<and> x \<in> CannotBeHidden p)}"

lemma get_symbols_nth:
  "i < length (cf_syms F) \<Longrightarrow>
   cf_syms (get_symbols resolve F) ! i = (cf_syms F ! i)\<lparr>ps_resolution := resolve (cf_handle F) i\<rparr>"
  by (simp add: get_symbols_def nth_enumerate_eq)

lemma get_symbols_length [simp]: "length (cf_syms (get_symbols resolve F)) = length (cf_syms F)"
  by (simp add: get_symbols_def)

lemma preserved_in_file:
  "ps_name ` {s \<in> set (cf_syms (get_symbols resolve F)). mustPreserve hid s} =
   {x. \<exists>i < length (cf_syms F). x = ps_name (cf_syms F ! i) \<and>
      (resolve (cf_handle F) i = LDPR_PREVAILING_DEF \<or>
       resolve (cf_handle F) i = LDPR_PREVAILING_DEF_IRONLY_EXP \<and> x \<in> hid)}" (is "?A = ?B")
proof -
  have p: "mustPreserve hid (s\<lparr>ps_resolution := r\<rparr>) \<longleftrightarrow>
      r = LDPR_PREVAILING_DEF \<or> r = LDPR_PREVAILING_DEF_IRONLY_EXP \<and> ps_name s \<in> hid" for s :: plugin_symbol and r
    by (simp add: mustPreserve_def)
  have "x \<in> ?A \<longleftrightarrow> x \<in> ?B" for x
    by (auto simp: in_set_conv_nth get_symbols_nth p image_iff)
  then show ?thesis by blast
qed

lemma preserved_wanted:
  assumes r: "resolve_modules p resolve (Modules p) = Some Fs"
  shows "set (preserved_names (CannotBeHidden p) Fs) = linker_wants resolve p"
proof -
  have Fs: "Fs = map (\<lambda>F. if cf_syms F = [] then F else get_symbols resolve F) (Modules p)"
    using r by (auto simp: resolve_modules_def split: if_splits)
  have "set (preserved_names (CannotBeHidden p) Fs) =
      (\<Union>F \<in> set (Modules p). ps_name ` {s \<in> set (cf_syms (if cf_syms F = [] then F else get_symbols resolve F)).
        mustPreserve (CannotBeHidden p) s})"
    by (auto simp: preserved_names_def Fs)
  also have "\<dots> = (\<Union>F \<in> set (Modules p). ps_name ` {s \<in> set (cf_syms (get_symbols resolve F)). mustPreserve (CannotBeHidden p) s})"
    by (rule SUP_cong) (auto simp: get_symbols_def)
  also have "\<dots> = linker_wants resolve p"
    unfolding preserved_in_file linker_wants_def by blast
  finally show ?thesis .
qed

lemma debug_options_fold:
  "fold setCodeGenDebugOptions os cg = cg\<lparr>CodegenOptions := fold add_debug_options os (CodegenOptions cg)\<rparr>"
  by (induction os arbitrary: cg) (simp_all add: setCodeGenDebugOptions_def)

lemma must_preserve_fold:
  "fold lto_codegen_add_must_preserve_symbol keep cg = cg\<lparr>MustPreserveSymbols := MustPreserveSymbols cg \<union> set keep\<rparr>"
  by (induction keep arbitrary: cg) (simp_all add: lto_codegen_add_must_preserve_symbol_def)

lemma configure_codegen_fields [simp]:
  "MustPreserveSymbols (configure_codegen p keep cg) = MustPreserveSymbols cg \<union> set keep"
  "AsmUndefinedRefs (configure_codegen p keep cg) = AsmUndefinedRefs cg"
  "cg_linker (configure_codegen p keep cg) = cg_linker cg"
  "ScopeRestrictionsDone (configure_codegen p keep cg) = ScopeRestrictionsDone cg"
  "cg_target (configure_codegen p keep cg) = cg_target cg"
  "cg_options (configure_codegen p keep cg) = cg_options cg"
  "CodeModel (configure_codegen p keep cg) = output_type p"
  "MCpu (configure_codegen p keep cg) = (if opt_mcpu (p_options p) \<noteq> [] then opt_mcpu (p_options p) else MCpu cg)"
  by (simp_all add: configure_codegen_def Let_def debug_options_fold must_preserve_fold setDebugInfo_def setCodePICModel_def)

lemma say_fields:
  "say l t p = Some p' \<Longrightarrow>
   link_inputs p' = link_inputs p \<and> p_files p' = p_files p \<and> p_lto p' = p_lto p \<and> p_options p' = p_options p"
  by (auto simp: say_def split: if_splits)

lemma emit_bitcode_fields:
  assumes r: "emit_bitcode lib ro p cg = Some (p', cg')"
  shows "prepare (lib_env lib) cg' = prepare (lib_env lib) cg \<and> link_inputs p' = link_inputs p \<and> p_options p' = p_options p"
proof (cases "generate_bc_file (p_options p) = BC_NO")
  case False
  then have "\<exists>res fs. writeMergedModules (lib_env lib) (ro_bc_opened ro) (ro_bc_error ro) (bitcode_path p) (cg, p_files p) =
      Some (res, cg', fs) \<and> link_inputs p' = link_inputs p \<and> p_options p' = p_options p"
    using r by (auto simp: emit_bitcode_def lto_codegen_write_merged_modules_def fail_simps Let_def split: if_splits
        dest!: say_fields)
  then show ?thesis using writeMergedModules_prepares by blast
qed (use r in \<open>simp add: emit_bitcode_def\<close>)

lemma emit_object_file_object:
  assumes ok: "passes_ok (lib_env lib)" and r: "emit_object_file lib ro p cg = Some (path, p', cg')"
  shows "\<exists>g2 T obj. prepare (lib_env lib) cg = Some g2 \<and> cg_target g2 = Some T \<and> p_files p' path = Some obj \<and>
    link_inputs p' = link_inputs p \<and>
    object_of (lib_env lib) T (if DisableOpt (lto_flags (p_lto p')) then cg_linker g2
      else run_pass (lib_env lib) SlimmerTracePass (cg_linker g2)) = Some obj"
proof -
  obtain lto fs where
    c: "compile_to_file (lib_env lib) (ro_io ro) (lto_flags lto) (cg, p_files p) = Some (True, cg', fs)"
    and p': "p' = p\<lparr>p_lto := lto, p_files := fs\<rparr>" "path = NativeObjectPath cg'"
    using r by (auto simp: emit_object_file_def lto_codegen_compile_to_file_def fail_simps Let_def split: if_splits)
  show ?thesis using compile_to_file_object [OF ok c] p' by auto
qed

lemma link_object_ok:
  "link_object ro path p = Some (HookReturned LDPS_OK, p') \<Longrightarrow>
   link_inputs p' = link_inputs p @ [path] \<and> p_files p' = p_files p \<and> p_lto p' = p_lto p"
  by (auto simp: link_object_def Let_def fail_simps split: if_splits)

lemma hook_links_object:
  assumes ok: "passes_ok (lib_env lib)"
    and r: "all_symbols_read_hook lib ro p = Some (HookReturned LDPS_OK, p')"
    and cg: "code_gen p = Some cg" "\<not> ScopeRestrictionsDone cg" "cg_target cg = None"
  shows "\<exists>path obj. link_inputs p' = link_inputs p @ [path] \<and> p_files p' path = Some obj \<and>
    (let T = target_of (lib_env lib) (mg_triple (cg_linker cg))
               (if opt_mcpu (p_options p) \<noteq> [] then opt_mcpu (p_options p) else MCpu cg) (cg_options cg) (output_type p);
         M = restricted_module (lib_env lib) (tm_triple T) (MustPreserveSymbols cg \<union> linker_wants (ro_resolve ro) p)
               (AsmUndefinedRefs cg) (cg_linker cg)
     in object_of (lib_env lib) T (if DisableOpt (lto_flags (p_lto p')) then M
          else run_pass (lib_env lib) SlimmerTracePass M) = Some obj)"
proof -
  let ?keep = "\<lambda>Fs. preserved_names (CannotBeHidden p) Fs"
  obtain Fs p1 p2 cg2 path p3 cg3 where
    Fs: "resolve_modules p (ro_resolve ro) (Modules p) = Some Fs" and
    b: "emit_bitcode lib ro p1 (configure_codegen p1 (?keep Fs) cg) = Some (p2, cg2)" and
    p1: "link_inputs p1 = link_inputs p" "p_options p1 = p_options p" "output_type p1 = output_type p" and
    o1: "emit_object_file lib ro p2 cg2 = Some (path, p3, cg3)" and
    l: "link_object ro path (p3\<lparr>code_gen := None\<rparr>) = Some (HookReturned LDPS_OK, p')"
    using r unfolding all_symbols_read_hook_def Let_def
    by (auto simp: cg fail_simps split: if_splits)
  obtain g2 T obj where g2: "prepare (lib_env lib) cg2 = Some g2" "cg_target g2 = Some T" "p_files p3 path = Some obj"
      "link_inputs p3 = link_inputs p2"
    and obj: "object_of (lib_env lib) T (if DisableOpt (lto_flags (p_lto p3)) then cg_linker g2
      else run_pass (lib_env lib) SlimmerTracePass (cg_linker g2)) = Some obj"
    using emit_object_file_object [OF ok o1] by blast
  let ?cg1 = "configure_codegen p1 (?keep Fs) cg"
  have "prepare (lib_env lib) ?cg1 = Some g2" using emit_bitcode_fields [OF b] g2(1) by simp
  from prepare_module [OF ok this] cg(2,3) g2(2)
  have m: "cg_linker g2 = restricted_module (lib_env lib) (tm_triple T)
      (MustPreserveSymbols cg \<union> linker_wants (ro_resolve ro) p) (AsmUndefinedRefs cg) (cg_linker cg)"
    and T: "T = target_of (lib_env lib) (mg_triple (cg_linker cg))
      (if opt_mcpu (p_options p) \<noteq> [] then opt_mcpu (p_options p) else MCpu cg) (cg_options cg) (output_type p)"
    by (simp_all add: preserved_wanted [OF Fs] p1)
  have "link_inputs p' = link_inputs p @ [path]" "p_files p' path = Some obj" "p_lto p' = p_lto p3"
    using link_object_ok [OF l] g2(3,4) emit_bitcode_fields [OF b] p1 by simp_all
  then show ?thesis using obj unfolding m by (auto simp: Let_def T)
qed

section \<open>A whole link\<close>

text \<open>The linker loads the plugin, offers it the files, and tells it when all symbols are read; it goes on while the plugin reports no error.\<close>

definition offer_file :: "'c lto_library \<Rightarrow> offered_file \<Rightarrow> 'c plugin \<Rightarrow> 'c plugin option" where
  "offer_file lib f p = do {
     (status, claimed, p1) \<leftarrow> claim_file_hook lib f p;
     require (status = LDPS_OK);
     Some p1
   }"

definition link_session ::
  "'c lto_library \<Rightarrow> plugin_tv list \<Rightarrow> offered_file list \<Rightarrow> read_outcome \<Rightarrow> files \<Rightarrow> ('c plugin \<times> hook_result \<times> 'c plugin) option" where
  "link_session lib tv offered ro fs = do {
     (status, p1) \<leftarrow> onload lib tv (plugin_init fs);
     require (status = LDPS_OK);
     p2 \<leftarrow> fold_opt (offer_file lib) offered p1;
     (res, p3) \<leftarrow> all_symbols_read_hook lib ro p2;
     Some (p2, res, p3)
   }"

definition new_codegen :: "'c lto_library \<Rightarrow> 'c code_generator" where
  "new_codegen lib = lto_codegen_create (lib_empty lib) (lib_cl lib) (lib_defaults lib)"

lemma say_core:
  "say l t p = Some p' \<Longrightarrow> code_gen p' = code_gen p \<and> link_inputs p' = link_inputs p \<and> output_type p' = output_type p"
  by (auto simp: say_def split: if_splits)

lemma process_plugin_option_core:
  "process_plugin_option s p = Some p' \<Longrightarrow> code_gen p' = code_gen p \<and> link_inputs p' = link_inputs p"
  by (cases s) (auto simp: process_plugin_option_def Let_def dest: say_core split: if_splits)

lemma onload_loop_core:
  "onload_loop lib tv (r, p) = Some (st, r', p') \<Longrightarrow> code_gen p \<in> {None, Some (new_codegen lib)} \<Longrightarrow>
   code_gen p' \<in> {None, Some (new_codegen lib)} \<and> link_inputs p' = link_inputs p"
proof (induction lib tv "(r, p)" arbitrary: r p rule: onload_loop.induct)
  case (5 lib v tv r p)
  then show ?case by (cases "linker_output v") (auto simp: fail_simps dest!: say_core)
next
  case (6 lib s tv r p)
  then obtain p1 where p1: "process_plugin_option s p = Some p1" "onload_loop lib tv (r, p1) = Some (st, r', p')"
    by (auto simp: fail_simps)
  show ?case using "6.hyps" [OF p1] process_plugin_option_core [OF p1(1)] "6.prems"(2) by simp
next
  case (8 lib s tv r p)
  then show ?case by (auto simp: new_codegen_def split: if_splits)
qed (auto split: if_splits)

lemma onload_core:
  "onload lib tv p = Some (LDPS_OK, p') \<Longrightarrow> code_gen p = None \<Longrightarrow>
   code_gen p' \<in> {None, Some (new_codegen lib)} \<and> link_inputs p' = link_inputs p"
  unfolding onload_def by (auto simp: fail_simps dest: onload_loop_core split: if_splits)

lemma claim_symbols_core:
  "claim_symbols ss syms p = Some (LDPS_OK, syms', p') \<Longrightarrow>
   code_gen p' = code_gen p \<and> link_inputs p' = link_inputs p \<and> p_options p' = p_options p \<and> output_type p' = output_type p"
proof (induction ss arbitrary: syms p)
  case (Cons s ss)
  then show ?case
    by (auto simp: Let_def fail_simps split: if_splits option.splits)
qed simp

text \<open>What a claimed file contributes.\<close>

definition contribution :: "'c lto_library \<Rightarrow> string \<Rightarrow> offered_file \<Rightarrow> ((string \<times> ir_module) \<times> lto_module) list" where
  "contribution lib given f =
     (if of_bitcode f
      then (case (makeLTOModule (lib_order lib) (lookup_target (lib_env lib)) (default_triple (lib_env lib)) (of_parsed f), of_parsed f) of
          (Some (Some m), Some (triple, ir)) \<Rightarrow> [((if given \<noteq> [] then given else triple, ir), m)]
        | _ \<Rightarrow> [])
      else [])"

definition add_contribution :: "'c lto_library \<Rightarrow> (string \<times> ir_module) \<times> lto_module \<Rightarrow> 'c code_generator \<Rightarrow> 'c code_generator" where
  "add_contribution lib c cg = snd (addModule (lib_env lib) (fst c) (snd c) cg)"

lemma offer_file_core:
  assumes r: "offer_file lib f p = Some p'"
  shows "code_gen p' = map_option (fold (add_contribution lib) (contribution lib (opt_triple (p_options p)) f)) (code_gen p) \<and>
    link_inputs p' = link_inputs p \<and> p_options p' = p_options p \<and> output_type p' = output_type p"
proof -
  have h: "\<exists>claimed. claim_file_hook lib f p = Some (LDPS_OK, claimed, p')"
    using r by (auto simp: offer_file_def fail_simps)
  show ?thesis
  proof (cases "of_bitcode f")
    case False
    then show ?thesis
      using h by (auto simp: claim_file_hook_def contribution_def fail_simps option.map_id0 split: if_splits)
  next
    case True
    then obtain M where M: "makeLTOModule (lib_order lib) (lookup_target (lib_env lib)) (default_triple (lib_env lib)) (of_parsed f) = Some M"
      using h by (auto simp: claim_file_hook_def fail_simps split: if_splits)
    then obtain m triple ir where m: "M = Some m" "of_parsed f = Some (triple, ir)"
      using h True by (cases M; cases "of_parsed f") (auto simp: claim_file_hook_def fail_simps split: if_splits)
    then obtain syms p1 where s: "claim_symbols (lm_symbols m) [] p = Some (LDPS_OK, syms, p1)"
      and cg: "code_gen p' = map_option (fold (add_contribution lib) (contribution lib (opt_triple (p_options p)) f)) (code_gen p1)"
      and p': "link_inputs p' = link_inputs p1" "p_options p' = p_options p1" "output_type p' = output_type p1"
      using h True M
      by (cases "code_gen p"; cases "claim_symbols (lm_symbols m) [] p")
        (auto simp: claim_file_hook_def fail_simps Let_def contribution_def add_contribution_def lto_codegen_add_module_def
          split: if_splits option.splits prod.splits dest: plugin_status.exhaust)
    show ?thesis using claim_symbols_core [OF s] cg p' by simp
  qed
qed


lemma offer_files_core:
  "fold_opt (offer_file lib) fs p = Some p' \<Longrightarrow>
   code_gen p' = map_option (fold (add_contribution lib) (concat (map (contribution lib (opt_triple (p_options p))) fs))) (code_gen p) \<and>
   link_inputs p' = link_inputs p \<and> p_options p' = p_options p \<and> output_type p' = output_type p"
proof (induction fs arbitrary: p)
  case (Cons f fs)
  then obtain p1 where p1: "offer_file lib f p = Some p1" "fold_opt (offer_file lib) fs p1 = Some p'"
    by (auto simp: fail_simps)
  show ?case
    using Cons.IH [OF p1(2)] offer_file_core [OF p1(1)] by (simp add: option.map_comp comp_def)
qed (simp add: option.map_id0)

definition linked_module :: "'c lto_library \<Rightarrow> ((string \<times> ir_module) \<times> lto_module) list \<Rightarrow> 'c merged" where
  "linked_module lib cs = fold (\<lambda>c L. snd (link_in (lib_env lib) (fst c) L)) cs (lib_empty lib)"

definition asm_references :: "((string \<times> ir_module) \<times> lto_module) list \<Rightarrow> string set" where
  "asm_references cs = (\<Union>c \<in> set cs. set (asm_undefines (snd c)))"

lemma add_contributions_fields:
  fixes lib :: "'c lto_library" and cg :: "'c code_generator"
  defines "cg' cs \<equiv> fold (add_contribution lib) cs cg"
  shows "cg_linker (cg' cs) = fold (\<lambda>c L. snd (link_in (lib_env lib) (fst c) L)) cs (cg_linker cg) \<and>
    AsmUndefinedRefs (cg' cs) = AsmUndefinedRefs cg \<union> asm_references cs \<and>
    MustPreserveSymbols (cg' cs) = MustPreserveSymbols cg \<and> ScopeRestrictionsDone (cg' cs) = ScopeRestrictionsDone cg \<and>
    cg_target (cg' cs) = cg_target cg \<and> cg_options (cg' cs) = cg_options cg \<and> MCpu (cg' cs) = MCpu cg"
  unfolding cg'_def
proof (induction cs arbitrary: cg)
  case (Cons c cs)
  then show ?case
    by (cases "link_in (lib_env lib) (fst c) (cg_linker cg)")
      (simp add: add_contribution_def addModule_def asm_references_def Un_assoc)
qed (simp add: asm_references_def)

lemma session_object:
  assumes ok: "passes_ok (lib_env lib)" and r: "link_session lib tv offered ro fs = Some (p, HookReturned LDPS_OK, p')"
  defines "cs \<equiv> concat (map (contribution lib (opt_triple (p_options p))) offered)"
  defines "T \<equiv> target_of (lib_env lib) (mg_triple (linked_module lib cs)) (opt_mcpu (p_options p))
                 (cg_options (new_codegen lib)) (output_type p)"
  defines "M \<equiv> restricted_module (lib_env lib) (tm_triple T) (linker_wants (ro_resolve ro) p) (asm_references cs) (linked_module lib cs)"
  shows "\<exists>path obj. link_inputs p' = [path] \<and> p_files p' path = Some obj \<and>
    object_of (lib_env lib) T (if DisableOpt (lto_flags (p_lto p')) then M else run_pass (lib_env lib) SlimmerTracePass M) = Some obj"
proof -
  obtain p1 where p1: "onload lib tv (plugin_init fs) = Some (LDPS_OK, p1)" "fold_opt (offer_file lib) offered p1 = Some p"
      "all_symbols_read_hook lib ro p = Some (HookReturned LDPS_OK, p')"
    using r by (auto simp: link_session_def fail_simps)
  have l: "code_gen p1 \<in> {None, Some (new_codegen lib)}" "link_inputs p1 = []"
    using onload_core [OF p1(1)] by (simp_all add: plugin_init_def)
  note f = offer_files_core [OF p1(2)]
  have cg: "code_gen p = Some (fold (add_contribution lib) cs (new_codegen lib))"
  proof (cases "code_gen p1")
    case None
    then have "code_gen p = None" using f by simp
    then show ?thesis using p1(3) by (simp add: all_symbols_read_hook_def)
  next
    case (Some a)
    then show ?thesis using l(1) f by (simp add: cs_def)
  qed
  have new: "cg_linker (new_codegen lib) = lib_empty lib" "AsmUndefinedRefs (new_codegen lib) = {}"
      "MustPreserveSymbols (new_codegen lib) = {}" "\<not> ScopeRestrictionsDone (new_codegen lib)"
      "cg_target (new_codegen lib) = None" "MCpu (new_codegen lib) = []"
    by (simp_all add: new_codegen_def lto_codegen_create_def setTargetOptions_def LTOCodeGenerator_new_def)
  note a = add_contributions_fields [of lib cs "new_codegen lib"]
  have cpu: "(if opt_mcpu (p_options p) \<noteq> [] then opt_mcpu (p_options p) else MCpu (fold (add_contribution lib) cs (new_codegen lib))) =
      opt_mcpu (p_options p)" by (simp add: a new)
  have li: "link_inputs p = []" using l(2) f by simp
  have fresh: "\<not> ScopeRestrictionsDone (fold (add_contribution lib) cs (new_codegen lib))"
    "cg_target (fold (add_contribution lib) cs (new_codegen lib)) = None" using a [THEN conjunct2] new(4,5) by simp_all
  show ?thesis
    using hook_links_object [OF ok p1(3) cg fresh]
    unfolding M_def T_def linked_module_def li cpu by (simp add: a new Let_def)
qed

text \<open>What the assembler text of a claimed file refers to is among the references.\<close>

lemma contribution_asm:
  assumes ord: "enumerates (lib_order lib)" and c: "((triple, ir), m) \<in> set (contribution lib given f)"
  shows "asm_referenced ir \<subseteq> set (asm_undefines m)"
proof -
  obtain made where made: "makeLTOModule (lib_order lib) (lookup_target (lib_env lib)) (default_triple (lib_env lib)) (of_parsed f) = made"
    by simp
  obtain parsed where parsed: "of_parsed f = parsed" by simp
  have "made = Some (Some m) \<and> (\<exists>t. parsed = Some (t, ir))"
    using c unfolding contribution_def made unfolding parsed
    by (cases "of_bitcode f"; cases made; cases "the made"; cases parsed) auto
  then obtain t where "makeLTOModule (lib_order lib) (lookup_target (lib_env lib)) (default_triple (lib_env lib)) (Some (t, ir)) = Some (Some m)"
    using made parsed by auto
  then have "parseSymbols (lib_order lib) ir = Some (False, m)"
    unfolding makeLTOModule_def by (auto simp: fail_simps split: if_splits)
  with parsed_table [OF ord] show ?thesis by (auto simp: lists_symbols_def)
qed

section \<open>A link\<close>

text \<open>One file with one function; the pass is counted, and the object code is the count.\<close>

definition ex_value :: "string \<Rightarrow> bool \<Rightarrow> global_value" where
  "ex_value name declared =
     \<lparr>gv_name = name, gv_mangled = name, gv_kind = FunctionValue, gv_linkage = ExternalLinkage,
      gv_visibility = DefaultVisibility, gv_alignment = 0, gv_constant = False, gv_unnamed_addr = False,
      gv_compared = None, gv_section = None, gv_init = OtherConst, gv_materializable = False, gv_no_body = declared\<rparr>"

definition ex_ir :: ir_module where
  "ex_ir = \<lparr>ir_functions = [ex_value ''main'' False], ir_globals = [], ir_aliases = [], ir_asm = NoAsm\<rparr>"

definition ex_options :: target_options where
  "ex_options =
     \<lparr>LessPreciseFPMADOption = False, NoFramePointerElim = False, AllowFPOpFusion = 0, UnsafeFPMath = False,
      NoInfsFPMath = False, NoNaNsFPMath = False, HonorSignDependentRoundingFPMathOption = False, UseSoftFloat = False,
      FloatABIType = 0, NoZerosInBSS = False, GuaranteedTailCallOpt = False, DisableTailCalls = False,
      StackAlignmentOverride = 0, TrapFuncName = [], PositionIndependentExecutable = False, EnableSegmentedStacks = False,
      UseInitArray = False, OtherOptions = 0\<rparr>"

definition ex_env :: "nat llvm_env" where
  "ex_env =
     \<lparr>default_triple = ''x86_64'', lookup_target = \<lambda>_. True, triple_darwin = \<lambda>_. False, triple_arch = \<lambda>_. X86_64,
      library_functions = \<lambda>_. [], lowering_libcalls = \<lambda>_. None, analysis_passes = \<lambda>_. [], emit_passes = \<lambda>_. Some [],
      link_in = \<lambda>M L. (False, L\<lparr>mg_functions := mg_functions L @ ir_functions (snd M)\<rparr>),
      run_pass = \<lambda>p M. if p = SlimmerTracePass then M\<lparr>mg_code := mg_code M + 1\<rparr> else M,
      emit_object = \<lambda>ps M. (M, replicate (mg_code M) 7), write_bitcode = \<lambda>_. [], used_order = \<lambda>_. []\<rparr>"

definition ex_library :: "nat lto_library" where
  "ex_library =
     \<lparr>lib_env = ex_env,
      lib_empty = \<lparr>mg_triple = [], mg_functions = [], mg_globals = [], mg_aliases = [], mg_compiler_used = None, mg_code = 0\<rparr>,
      lib_cl = ex_options, lib_defaults = ex_options, lib_parse = \<lambda>_ fl. fl, lib_order = sorted_list_of_set\<rparr>"

definition ex_tv :: "plugin_tv list" where
  "ex_tv = [LDPT_MESSAGE True, LDPT_LINKER_OUTPUT 1, LDPT_REGISTER_CLAIM_FILE_HOOK LDPS_OK,
     LDPT_REGISTER_ALL_SYMBOLS_READ_HOOK LDPS_OK, LDPT_ADD_SYMBOLS True, LDPT_GET_SYMBOLS_V2 True, LDPT_ADD_INPUT_FILE True]"

definition ex_offered :: "offered_file list" where
  "ex_offered = [\<lparr>of_handle = 0, of_name = ''main.o'', of_view = LDPS_OK, of_bitcode = True,
     of_parsed = Some ([], ex_ir), of_added = LDPS_OK\<rparr>]"

definition ex_read :: read_outcome where
  "ex_read =
     \<lparr>ro_resolve = \<lambda>_ _. LDPR_PREVAILING_DEF, ro_api_opened = True, ro_bc_opened = True, ro_bc_error = False,
      ro_io = \<lparr>io_temp = Some ''lto.o'', io_error = False, io_unreadable = False\<rparr>,
      ro_input_added = LDPS_OK, ro_path_set = LDPS_OK\<rparr>"

lemma ex_env_ok: "passes_ok ex_env"
  by (auto simp: passes_ok_def ex_env_def)

lemma sorted_list_enumerates: "enumerates (sorted_list_of_set :: string set \<Rightarrow> string list)"
  by (simp add: enumerates_def)

lemma ex_claim: "makeLTOModule (lib_order ex_library) (lookup_target (lib_env ex_library)) (default_triple (lib_env ex_library)) (Some ([], ex_ir)) =
  Some (Some \<lparr>lm_defines = {''main''}, lm_undefines = Map.empty, asm_undefines = [],
    lm_symbols = [\<lparr>sy_name = Some ''main'', sy_attributes = defined_attributes (ex_value ''main'' False) True,
       sy_isFunction = True, sy_symbol = Some (ex_value ''main'' False)\<rparr>]\<rparr>)"
  by (simp add: makeLTOModule_def ex_library_def ex_env_def parseSymbols_def ex_ir_def parse_function_def isDeclaration_gv_def
     ex_value_def addDefinedFunctionSymbol_def addDefinedSymbol_def llvm_name_def push_symbol_def define_name_def LTOModule_new_def
     addAsmGlobalSymbols_def push_undefines_def)

definition ex_loaded :: "nat plugin" where
  "ex_loaded = (plugin_init Map.empty)\<lparr>output_type := PIC_MODEL_STATIC, code_gen := Some (new_codegen ex_library),
     services := \<lparr>has_add_symbols = True, has_get_symbols = True, has_add_input_file = True,
        has_add_input_library = False, has_set_extra_library_path = False, has_get_view = False, has_message = True\<rparr>\<rparr>"

lemma ex_onload: "onload ex_library ex_tv (plugin_init Map.empty) = Some (LDPS_OK, ex_loaded)"
  by (simp add: onload_def ex_tv_def plugin_init_def linker_output_def ex_loaded_def new_codegen_def)

definition ex_module_of :: lto_module where
  "ex_module_of = \<lparr>lm_defines = {''main''}, lm_undefines = Map.empty, asm_undefines = [],
    lm_symbols = [\<lparr>sy_name = Some ''main'', sy_attributes = defined_attributes (ex_value ''main'' False) True,
       sy_isFunction = True, sy_symbol = Some (ex_value ''main'' False)\<rparr>]\<rparr>"

definition ex_claimed :: "nat plugin" where
  "ex_claimed = ex_loaded\<lparr>CannotBeHidden := {''main''}, Modules := [\<lparr>cf_handle = 0, cf_syms =
      [\<lparr>ps_name = ''main'', ps_visibility = LDPV_DEFAULT, ps_def = LDPK_DEF, ps_comdat_key = None, ps_resolution = LDPR_UNKNOWN\<rparr>]\<rparr>],
    code_gen := Some (add_contribution ex_library (([], ex_ir), ex_module_of) (new_codegen ex_library))\<rparr>"

lemma ex_offer: "fold_opt (offer_file ex_library) ex_offered ex_loaded = Some ex_claimed"
proof -
  have "claim_symbols (lm_symbols ex_module_of) [] ex_loaded = Some (LDPS_OK,
      [\<lparr>ps_name = ''main'', ps_visibility = LDPV_DEFAULT, ps_def = LDPK_DEF, ps_comdat_key = None, ps_resolution = LDPR_UNKNOWN\<rparr>],
      ex_loaded\<lparr>CannotBeHidden := {''main''}\<rparr>)"
    by (simp add: ex_module_of_def defined_attributes_def ex_value_def canBeHidden_def weak_linkage_def ex_loaded_def
        plugin_init_def visibility_of_def kind_of_def)
  moreover have "addModule (lib_env ex_library) ([], ex_ir) ex_module_of cg =
      (True, add_contribution ex_library (([], ex_ir), ex_module_of) cg)" for cg
    by (simp add: add_contribution_def addModule_def ex_library_def ex_env_def)
  ultimately show ?thesis
    by (simp add: ex_offered_def offer_file_def claim_file_hook_def ex_claim [folded ex_module_of_def] require_def Let_def
        ex_claimed_def ex_loaded_def plugin_init_def lto_codegen_add_module_def)
qed

lemma ex_session:
  "map_option (\<lambda>(p, res, p'). (p = ex_claimed, res, link_inputs p', p_files p' ''lto.o'', p_lto p')) (link_session ex_library ex_tv ex_offered ex_read Map.empty)
   = Some (True, HookReturned LDPS_OK, [''lto.o''], Some [7], lto_init\<lparr>parsedOptions := True\<rparr>)"
  by (simp add: link_session_def ex_onload ex_offer require_def)
    (simp add: all_symbols_read_hook_def ex_claimed_def ex_loaded_def plugin_init_def resolve_modules_def get_symbols_def ex_read_def
     preserved_names_def mustPreserve_def emit_bitcode_def emit_object_file_def lto_codegen_compile_to_file_def Let_def compile_to_file_def
     generateObjectFile_def determineTarget_def configure_codegen_def setDebugInfo_def setCodePICModel_def lto_codegen_add_must_preserve_symbol_def
     add_contribution_def addModule_def new_codegen_def lto_codegen_create_def setTargetOptions_def LTOCodeGenerator_new_def
     ex_library_def ex_env_def applyScopeRestrictions_def accumulateAndSortLibcalls_def run_passes_def ex_ir_def applyRestriction_def ex_value_def
     binary_search_def lower_bound.simps findUsedValues_def object_passes_def lto_init_def lto_parse_options_def parseCodeGenDebugOptions_def
     populateLTOPassManager_def addInitialAliasAnalysisPasses_def LTOCodeGenerator_delete_def require_def link_object_def)

text \<open>Where no object file can be made the hook does not end: its name is read from an unwritten variable.\<close>

lemma no_object_no_name:
  assumes "lto_codegen_compile_to_file (lib_env lib) (lib_parse lib) (ro_io ro) (p_lto p, cg, p_files p) = Some (True, s)"
  shows "emit_object_file lib ro p cg = None"
  using assms by (cases s) (auto simp: emit_object_file_def say_def Let_def)

text \<open>A function declared in the code and given a place by the assembler text.\<close>

definition ex_asm_ir :: ir_module where
  "ex_asm_ir = \<lparr>ir_functions = [ex_value ''main'' False, ex_value ''entry'' True], ir_globals = [], ir_aliases = [],
     ir_asm = AsmParsed [EmitSymbolAttribute ''entry'' True, EmitLabel ''entry'']\<rparr>"

lemma ex_asm_table: "\<exists>m. parseSymbols sorted_list_of_set ex_asm_ir = Some (False, m) \<and> lm_defines m = {''main'', ''entry''}"
  by (simp add: parseSymbols_def ex_asm_ir_def parse_function_def isDeclaration_gv_def ex_value_def addDefinedFunctionSymbol_def
      addDefinedSymbol_def addPotentialUndefinedSymbol_def note_undefined_def llvm_name_def push_symbol_def define_name_def LTOModule_new_def
      addAsmGlobalSymbols_def stream_names_def add_streamed_def RecordStreamer_def markGlobal_def markDefined_def
      addAsmGlobalSymbol_def rescope_last_def push_undefines_def insert_commute)

end
