(* ===== verification/Spec2Isabelle.thy ===== *)
theory Spec2Isabelle
  imports Example Base64 ImpactfulFunCall MergeTrace GroupMemory MemDep PostDominator Unneeded
    InstFile TracePass ModuleTables PassInit Runtime Report PTrace GoldPlugin
begin

text \<open>
  Slimmer finds computation whose results a program never uses. An LLVM pass instruments the program and
  writes tables of its code; the instrumented program and a PIN tool write two traces; \<open>PrintBug\<close> reads
  the four files, rebuilds the execution, and reports the instructions on which no impactful call
  (a call that makes a system call, or a named one) depends. This development models these parts, in
  the order in which a run passes through them; every definition carries the source's name where it can.
  The pass runs when the linker, through a plugin, hands the program's bitcode to a library for
  link-time optimisation; a second tool, \<open>lite-strace\<close>, collects call sites of system calls from outside.

  The parts, and the theory that models each:
    \<^item> \<open>lib/SlimmerTrace/SlimmerTrace.cpp\<close>, \<open>lib/SlimmerUtil/llvm.cpp\<close>: \<open>TracePass\<close>. A module is a record of
      functions, blocks and instructions as LLVM shows them to the pass; the numbering, the texts of
      \<open>Inst\<close>, \<open>InstrumentedFun\<close> and \<open>BBGraph\<close>, and the recording calls inserted at each instruction. \<open>PassInit\<close> has
      the pass's initialisation, which adds declarations, a constructor and a string to the module.
    \<^item> \<open>tools/SlimmerGold/gold-plugin.cpp\<close>: \<open>GoldPlugin\<close>, loading, claiming files, and the hook that hands the
      object file to the linker. \<open>lib/SlimmerLTO\<close>: \<open>LTOSymbols\<close> (\<open>LTOModule.cpp\<close>, the symbol table of a file),
      \<open>PassManagerBuilder\<close> (the pipelines of passes), and \<open>LTOCodeGen\<close> (\<open>LTOCodeGenerator.cpp\<close> behind
      \<open>tools/SlimmerGold/lto.cpp\<close>: which symbols stay visible, and the object file).
    \<^item> \<open>tools/PTrace/lite-strace.cpp\<close>: \<open>PTrace\<close>.
    \<^item> \<open>lib/SlimmerUtil/base64.cpp\<close>: \<open>Base64\<close>.
    \<^item> \<open>lib/SlimmerUtil/Routines.cpp\<close>, \<open>include/SlimmerUtil.h\<close>, \<open>include/SlimmerTools.h\<close>: \<open>Tools\<close> (the records and
      enumerations the tools share), \<open>TraceFormat\<close> (labels, sizes, \<open>GetEvent\<close>, and the \<open>record...\<close> functions of
      \<open>lib/SlimmerRuntime/SlimmerRuntime.cpp\<close> as the event they append to a given memory).
    \<^item> \<open>SlimmerRuntime.cpp\<close>, \<open>CircularBuffer\<close>: \<open>Runtime\<close>. One step is one operation of the traced program, the
      compressing or the dumping thread on the shared blocks and semaphores; runs interleave them.
    \<^item> \<open>lib/SlimmerUtil/EventBuffer.cpp\<close>, and \<open>TraceIter\<close> of \<open>tools/PrintBug/Util.cpp\<close>: \<open>TraceIO\<close>.
    \<^item> \<open>tools/PinTool/PinTrace.cpp\<close>: \<open>PinTool\<close>. \<open>ExtractImpactfulFunCall.cpp\<close>: \<open>ImpactfulFunCall\<close>.
    \<^item> \<open>LoadInstInfo\<close>, \<open>LoadInstrumentedFun\<close> (\<open>Routines.cpp\<close>) and the reading of edges (\<open>PrintBug.cpp\<close>): \<open>InstFile\<close>.
      \<open>ModuleTables\<close> relates what is loaded to the module the pass saw.
    \<^item> \<open>MergeTrace.cpp\<close>: \<open>MergeTrace\<close>. \<open>include/SegmentTree.hpp\<close>: \<open>SegmentTree\<close>. \<open>GroupMemory.cpp\<close>: \<open>GroupMemory\<close>.
      \<open>ExtractMemoryDependency.cpp\<close>: \<open>MemDep\<close>.
    \<^item> \<open>PrintBug.cpp\<close>: \<open>PostDominator\<close>, \<open>Unneeded\<close> (\<open>ExtractUneededOperation\<close>) and \<open>Report\<close> (\<open>PrintBug\<close>, \<open>GetCode\<close>,
      and \<open>print_bug\<close>, the tool from its four files to its reports).
  \<open>Prelude\<close> holds the vocabulary, \<open>Example\<close> a traced program on which the properties are also run.

  State and errors. C++ containers are functions, mappings or lists with the container's default made
  explicit; shared state is a record that operations return updated. An assertion that fails, an access
  outside a container or through a null pointer, and a loop that never ends are the value \<open>None\<close>. Machine
  integers are words of their width. Loops over vectors are \<open>fold_opt\<close>; a loop
  that needs an argument to end has a \<open>termination\<close> proof, and one that may not end is a
  \<open>partial_function\<close>, of which the properties show that it returns; no fuel is used. The stack of \<open>std::stack\<close> and of \<open>back()\<close> is a
  list with its top first.

  Interfaces. \<open>loop_body\<close> and \<open>simulation\<close> (\<open>Prelude\<close>) are the contracts of the loops over the trace: an
  invariant kept, a specification followed; \<open>range_map\<close> (\<open>SegmentTree\<close>) is the contract on which grouping
  and the last writers rest; \<open>block_writer\<close> (\<open>TraceIO\<close>) is what the three buffers promise about cutting records
  into blocks, interpreted for \<open>EventBuffer\<close>, \<open>CompressBuffer\<close> and \<open>CircularBuffer\<close>; \<open>field\<close> (\<open>InstFile\<close>) is a text that
  reads back; \<open>table_loop\<close> (\<open>LTOSymbols\<close>) is a loop that only adds to the symbol table, interpreted for the
  module's functions, variables, aliases and the names of its assembler text.

  What is shown. Of the traces: the PIN tool's file and the analysis of it agree with the calls that were
  made; a trace file reads back whatever the order of the threads; the blocks merged from it are an
  execution on a stack, thread by thread. Of the memory: segment trees are finite maps; groups are closed
  under access and move; dependencies are the last writers. Of the analysis: sets of post-dominators keep
  every inevitable block; nothing live is reported; every unneeded instruction is reported once, in the
  connected part it belongs to. Of the link: the plugin's symbol table is the module's, and the file it adds
  is the linked module, what the linker wants kept, instrumented once. Of the pass: its files read back as
  what it saw, its initialisation does not show in them, and \<open>MergeTrace\<close> stops where it inserted a recording. Of the runtime: semaphores exclude, writers are served, and the file is at any
  time a prefix of the trace. The last section proves what goes wrong.

  Assumptions. LZ4 is a pair of functions with \<open>lz4_ok\<close>: a block decompresses to itself, to a size that fits
  64 bits. A module satisfies \<open>module_ok\<close>: objects are distinct, blocks have a terminator, names have no
  white space, counts fit \<open>int\<close>. \<open>code_ok\<close>, which \<open>MergeTrace\<close> relies on, is proved of such modules. The
  conversion of a float to a double is a parameter. LLVM is an environment of functions (\<open>llvm_env\<close>) with
  \<open>passes_ok\<close>: analysis and verification passes leave a module as it is; hash tables are iterated in some order that
  lists every element once (\<open>enumerates\<close>); \<open>ctors_ok\<close>: registering a constructor changes only LLVM's own globals. \<open>bounded\<close> limits an instruction to \<open>2^32\<close> executions,
  after which its counter repeats.

  Not modelled. LLVM, the linker, PIN, \<open>ptrace\<close> and \<open>libunwind\<close> are outside the repository: what they answer
  is input or a parameter. Of \<open>lib/SlimmerLTO\<close> and \<open>tools/SlimmerGold\<close>, the registration of passes and targets,
  the detection of bitcode, the loading of a file's bytes and wrappers that only forward are left out, as is
  \<open>LTODisassembler.cpp\<close>, which calls LLVM's initialisation. Of the pass, the building of LLVM's types and
  instructions is represented by the list of inserted calls with their places; printing an instruction's
  text is LLVM's, and its encoding is \<open>Base64\<close>. Of \<open>lite-strace\<close>, starting the traced program. Signal handlers,
  the registration of callbacks with PIN, progress output (\<open>SmallestBlock::Print\<close>, logging) and the tests are
  left out.
\<close>

section \<open>The whole tool\<close>

text \<open>
  C1. When the tool reports on the four files of a run, it has an execution whose blocks the
  liveness specification accepts; no executed instruction on which an impactful call depends through
  SSA values and phi nodes is unneeded (up to \<open>2^32\<close> executions per instruction); every unneeded
  instruction is in a report and no instruction is in two.
\<close>

theorem reports_cover_unneeded:
  assumes "print_bug D fs inst bb trace pin = Some rs"
  shows "\<exists>C md pd bt st s. unneeded_of D inst bb trace pin = Some (C, md, pd, bt, st)
    \<and> live_trace C bt = Some s \<and> (bounded s \<longrightarrow> lv_live s \<inter> unneeded_di st = {})
    \<and> di_ID ` unneeded_di st \<subseteq> \<Union> (set (map fst rs))
    \<and> pairwise disjnt (set (map fst rs)) \<and> distinct (map fst rs)"
  using assms by (rule print_bug_parts)

lemma ex_tables: "\<exists>contents. fInst ex_module = Some contents \<and> LoadInstInfo contents = Some ex_code"
  using tables_loaded [OF ex_module_ok] ex_module_text ex_module_code
  by (cases "fInst ex_module") auto

lemma ex_run:
  assumes "LoadInstInfo contents = Some ex_code"
  shows "map_option (map fst) (print_bug Some (\<lambda>_. None) contents [] ex_wide_trace ex_pin) = Some [{6}]"
proof -
  have steps: "ExtractImpactfulFunCall Some ex_pin = Some {}" "read_edges [] = Some []"
    "MergeTrace Some ex_code ex_wide_trace {} = Some ex_wide"
    by code_simp+
  show ?thesis
    unfolding print_bug_def unneeded_of_def assms steps Option.bind.bind_lunit by code_simp
qed

theorem reports_cover_unneeded_witness:
  "\<exists>contents rs C md pd bt st. fInst ex_module = Some contents
    \<and> unneeded_of Some contents [] ex_wide_trace ex_pin = Some (C, md, pd, bt, st)
    \<and> print_bug Some (\<lambda>_. None) contents [] ex_wide_trace ex_pin = Some rs \<and> map fst rs = [{6}]
    \<and> di_ID ` unneeded_di st \<subseteq> {6}"
proof -
  obtain contents where c: "fInst ex_module = Some contents" "LoadInstInfo contents = Some ex_code"
    using ex_tables by blast
  from ex_run [OF c(2)] obtain rs where
    rs: "print_bug Some (\<lambda>_. None) contents [] ex_wide_trace ex_pin = Some rs" "map fst rs = [{6}]" by auto
  from reports_cover_unneeded [OF rs(1)] obtain C md pd bt and st :: need_state and s where
    "unneeded_of Some contents [] ex_wide_trace ex_pin = Some (C, md, pd, bt, st)"
    "di_ID ` unneeded_di st \<subseteq> \<Union> (set (map fst rs))" by blast
  with c(1) rs show ?thesis by (intro exI conjI) simp_all
qed

text \<open>
  C2. An executed instruction on which an impactful call depends through SSA values and phi
  nodes, directly or through other such instructions, is never reported as unneeded, for any memory dependencies
  and post-dominators and up to \<open>2^32\<close> executions per instruction.
\<close>

theorem needed_never_reported:
  assumes "ExtractUneededOperation C md pd bt = Some st"
  shows "\<exists>s. live_trace C bt = Some s \<and> (bounded s \<longrightarrow> lv_live s \<inter> unneeded_di st = {})"
  using assms by (rule unneeded_not_live)

theorem needed_never_reported_witness:
  "\<exists>s st. ExtractUneededOperation ex_code (\<lambda>_. []) (\<lambda>_. {}) ex_blocks = Some st
    \<and> live_trace ex_code ex_blocks = Some s
    \<and> lv_live s = {DynamicInst 1 5 0, DynamicInst 1 4 0}
    \<and> (bounded s \<longrightarrow> lv_live s \<inter> unneeded_di st = {})"
proof -
  have "map_option needed (ExtractUneededOperation ex_code (\<lambda>_. []) (\<lambda>_. {}) ex_blocks) \<noteq> None"
    "map_option lv_live (live_trace ex_code ex_blocks) = Some {DynamicInst 1 5 0, DynamicInst 1 4 0}"
    by code_simp+
  then obtain st s where "ExtractUneededOperation ex_code (\<lambda>_. []) (\<lambda>_. {}) ex_blocks = Some st"
    "live_trace ex_code ex_blocks = Some s" "lv_live s = {DynamicInst 1 5 0, DynamicInst 1 4 0}" by auto
  with needed_never_reported [OF this(1)] show ?thesis by auto
qed

section \<open>From the program's calls to the impactful functions\<close>

text \<open>
  C3. Whatever calls, returns and system calls the traced threads make, the PIN tool's run ends with
  a file, and \<open>ExtractImpactfulFunCall\<close> on that file returns exactly the external functions during
  whose outermost call (per thread) a system call was made; through blocks, frames and compression.
\<close>

theorem impactful_functions_found:
  assumes "lz4_ok C D"
  shows "\<exists>trace. pin_run C acts = Some trace
    \<and> ExtractImpactfulFunCall D trace = Some (impactful_calls acts)"
  using pin_run_total [of C acts] extract_run [OF assms] by blast

theorem impactful_functions_found_witness:
  "\<exists>trace. pin_run (\<lambda>b. b) [Before 1 7, Before 1 8, Syscall 1, After 1 8, After 1 7, Syscall 1] = Some trace
    \<and> ExtractImpactfulFunCall Some trace = Some {7}"
proof -
  let ?as = "[Before 1 7, Before 1 8, Syscall 1, After 1 8, After 1 7, Syscall 1]"
  have "lz4_ok (\<lambda>b. b) Some"
    by (simp add: lz4_ok_def COMPRESS_BLOCK_SIZE_def)
  moreover have "impactful_calls (((((([] @ [Before 1 7]) @ [Before 1 8]) @ [Syscall 1]) @ [After 1 8])
      @ [After 1 7]) @ [Syscall 1]) = {7}"
    unfolding impactful_calls_snoc outermost_snoc by (auto simp: impactful_calls_def outermost_Nil)
  ultimately show ?thesis
    using impactful_functions_found [of "\<lambda>b. b" Some ?as] by simp
qed

text \<open>
  C4. The file \<open>lite-strace\<close> leaves when all threads have ended reads back, word by word, as the call
  sites of the stops it has seen, then the called functions, each once and in order: for every stop at a
  system call of the list, the first frame of the program behind library frames only.
\<close>

theorem strace_file_reads_back:
  assumes "lz4_ok C D" "trace_loop ws (tracer_init child) = (rest, s)" "threads s = {}"
    and "w \<in> set ws - set rest" "sites_of w \<noteq> {}"
  shows "\<exists>trace it seen. do_trace C child ws = Some trace \<and> ws = seen @ rest
    \<and> read_records D 8 (card (CallIP (calls s)) + card (LastFun (calls s))) (TraceIter trace)
        = Some (map w64 (in_order (fst ` (\<Union>w \<in> set seen. sites_of w)) @ in_order (snd ` (\<Union>w \<in> set seen. sites_of w))), it)
    \<and> Next D 8 it = Some (None, it)"
  using assms by (rule strace_reads_back)

theorem strace_file_reads_back_witness:
  "\<exists>trace it. do_trace (\<lambda>b. b) 1 ex_stops = Some trace
    \<and> read_records Some 8 2 (TraceIter trace) = Some ([w64 0x400000, w64 0x7f0000000000], it)"
proof -
  have "lz4_ok (\<lambda>b. b) Some"
    by (simp add: lz4_ok_def COMPRESS_BLOCK_SIZE_def)
  moreover have "threads ex_traced = {}" "hd ex_stops \<in> set ex_stops - set []"
    by (simp_all add: ex_traced_def ex_stops_def)
  moreover have "(\<Union>w \<in> set ex_stops. sites_of w) = {(0x400000, 0x7f0000000000)}"
    unfolding ex_stops_set by (simp add: ex_stops_site)
  moreover have "card (CallIP (calls ex_traced)) + card (LastFun (calls ex_traced)) = 2"
    by (simp add: ex_traced_def)
  ultimately show ?thesis
    using strace_file_reads_back [of "\<lambda>b. b" Some ex_stops 1 "[]" ex_traced "hd ex_stops"]
    by (auto simp: ex_stops_loop ex_stops_site in_order_single)
qed

section \<open>From the linker's files to the instrumented program\<close>

text \<open>
  C5. When a link with the plugin ends well, one file was added to it: the object code of the module
  linked from all claimed files, where internalisation was told to keep exactly the definitions the
  linker wants, what assembler text or library calls may need is marked as used, and then the pass ran,
  once, unless the options disable optimisation. No other pass of the pipeline changes the module, and
  every symbol that the assembler text of a claimed file needs is among the references that are marked.
\<close>

theorem linked_object_is_instrumented:
  assumes "passes_ok (lib_env lib)" "enumerates (lib_order lib)"
    and "link_session lib tv offered ro fs = Some (p, HookReturned LDPS_OK, p')"
    and "cs = concat (map (contribution lib (opt_triple (p_options p))) offered)"
    and "T = target_of (lib_env lib) (mg_triple (linked_module lib cs)) (opt_mcpu (p_options p))
               (cg_options (new_codegen lib)) (output_type p)"
    and "M = restricted_module (lib_env lib) (tm_triple T) (linker_wants (ro_resolve ro) p) (asm_references cs) (linked_module lib cs)"
  shows "(\<exists>path obj. link_inputs p' = [path] \<and> p_files p' path = Some obj \<and>
      object_of (lib_env lib) T
        (if DisableOpt (lto_flags (p_lto p')) then M else run_pass (lib_env lib) SlimmerTracePass M) = Some obj)
    \<and> (\<forall>triple ir m. ((triple, ir), m) \<in> set cs \<longrightarrow> asm_referenced ir \<subseteq> asm_references cs)"
proof -
  have "asm_referenced ir \<subseteq> asm_references cs" if c: "((triple, ir), m) \<in> set cs" for triple ir m
  proof -
    obtain f where "((triple, ir), m) \<in> set (contribution lib (opt_triple (p_options p)) f)"
      using c unfolding assms(4) by auto
    then have "asm_referenced ir \<subseteq> set (asm_undefines m)"
      by (rule contribution_asm [OF assms(2)])
    also have "\<dots> \<subseteq> asm_references cs" using c by (force simp: asm_references_def)
    finally show ?thesis .
  qed
  with session_object [OF assms(1,3)] show ?thesis unfolding assms(4,5,6) by blast
qed

theorem linked_object_is_instrumented_witness:
  "\<exists>p p' path T M. link_session ex_library ex_tv ex_offered ex_read Map.empty = Some (p, HookReturned LDPS_OK, p')
    \<and> link_inputs p' = [path] \<and> object_of ex_env T (run_pass ex_env SlimmerTracePass M) = p_files p' path"
proof -
  obtain p p' where s: "link_session ex_library ex_tv ex_offered ex_read Map.empty = Some (p, HookReturned LDPS_OK, p')"
    and fl: "p_lto p' = lto_init\<lparr>parsedOptions := True\<rparr>"
    using ex_session by (auto simp: map_option_case split: option.splits)
  have lib: "lib_env ex_library = ex_env" "lib_order ex_library = sorted_list_of_set" by (simp_all add: ex_library_def)
  have "\<not> DisableOpt (lto_flags (p_lto p'))" by (simp add: fl lto_init_def)
  with linked_object_is_instrumented [OF _ _ s refl refl refl] ex_env_ok sorted_list_enumerates
  show ?thesis unfolding lib s by fastforce
qed



section \<open>From the trace to the blocks\<close>

text \<open>
  C7. The blocks \<open>MergeTrace\<close> returns are, for each thread, an execution: the blocks before the closing
  ones replay on a stack of basic blocks (every block starts where its frame stopped or at the start
  of a basic block, calls and returns match, callers are the calling instructions), and the closing
  blocks, empty and last, are as many as the frames still open (or one more, for a block just entered).
\<close>

theorem merged_blocks_replay:
  assumes "code_ok C" "MergeTrace D C trace impactful = Some bt"
  shows "\<exists>main cl. bt = main @ cl \<and> list_all closing cl \<and>
    (\<forall>t. \<exists>stk. fold_opt (replay C) (blocks_of t main) [] = Some stk
       \<and> length stk \<le> length (blocks_of t cl) \<and> length (blocks_of t cl) \<le> length stk + 1)"
  using assms by (rule MergeTrace_blocks)

theorem merged_blocks_replay_witness:
  "MergeTrace Some ex_code ex_trace {} = Some ex_blocks \<and>
   (\<exists>main cl. ex_blocks = main @ cl \<and> list_all closing cl \<and>
    (\<forall>t. \<exists>stk. fold_opt (replay ex_code) (blocks_of t main) [] = Some stk
       \<and> length stk \<le> length (blocks_of t cl) \<and> length (blocks_of t cl) \<le> length stk + 1))"
proof -
  have "MergeTrace Some ex_code ex_trace {} = Some ex_blocks" by code_simp
  with merged_blocks_replay [OF ex_code_ok this] show ?thesis by simp
qed

text \<open>
  C8. Threads do not disturb each other: the blocks a thread gets from the interleaved events are the
  blocks it gets from its own events alone, however the other threads' events are interleaved.
\<close>

theorem merge_per_thread:
  assumes "fold_opt (merge_event C impactful) vs merge_init = Some st"
  shows "\<exists>st'. fold_opt (merge_event C impactful) (filter (\<lambda>v. ev_tid v = Some t) vs) merge_init = Some st'
    \<and> blocks_of t (block_trace st') = blocks_of t (block_trace st)"
  using assms by (rule merge_threads)

theorem merge_per_thread_witness:
  "\<exists>st st'. fold_opt (merge_event ex_code {}) [ex_enter 1 0, ex_enter 2 0, ex_touch 1 0, ex_touch 2 0] merge_init = Some st
    \<and> fold_opt (merge_event ex_code {}) [ex_enter 2 0, ex_touch 2 0] merge_init = Some st'
    \<and> blocks_of 2 (block_trace st') = blocks_of 2 (block_trace st)"
proof -
  let ?vs = "[ex_enter 1 0, ex_enter 2 0, ex_touch 1 0, ex_touch 2 0]"
  have "map_option block_trace (fold_opt (merge_event ex_code {}) ?vs merge_init) \<noteq> None"
    by code_simp
  then obtain st where st: "fold_opt (merge_event ex_code {}) ?vs merge_init = Some st" by auto
  from merge_per_thread [OF this, of 2] st show ?thesis
    by (auto simp: ex_enter_def ex_touch_def)
qed

section \<open>Memory groups\<close>

text \<open>
  C9. After \<open>GroupMemory\<close>, all the addresses one block of the trace accesses, moves between or
  declares belong to one group, whatever was grouped and merged before and after it.
\<close>

theorem accessed_together_one_group:
  assumes "GroupMemory C bt = Some st" "b \<in> set bt"
  shows "one_group (st_map (Addr2Group st)) (grouped_ranges b)"
  using assms by (rule group_memory_ok(2))

theorem accessed_together_one_group_witness:
  "\<exists>st. GroupMemory ex_code ex_wide = Some st
    \<and> one_group (st_map (Addr2Group st)) [(0, half)]"
proof -
  have "map_option MaxGroupID (GroupMemory ex_code ex_wide) \<noteq> None"
    by code_simp
  then obtain st where st: "GroupMemory ex_code ex_wide = Some st" by auto
  have "one_group (st_map (Addr2Group st)) (grouped_ranges (ex_wide ! 1))"
    by (rule accessed_together_one_group [OF st]) (simp add: ex_wide_def)
  with st show ?thesis
    by (simp add: ex_wide_def ex_block_def)
qed

text \<open>
  C10. The four tables stay consistent: every tree is well formed over the whole range, the group an
  address maps to is the one whose tree covers it (so the trees are disjoint), \<open>Group2Ins\<close> is the
  inverse of \<open>Ins2Group\<close>, labelled instructions point to living groups, and living groups are
  numbered \<open>1 .. MaxGroupID\<close>.
\<close>

theorem group_tables_consistent:
  assumes "GroupMemory C bt = Some st"
  shows "groups_ok st"
  using assms by (rule group_memory_ok(1))

theorem group_tables_consistent_witness:
  "\<exists>st. GroupMemory ex_code ex_wide = Some st \<and> groups_ok st"
proof -
  have "map_option MaxGroupID (GroupMemory ex_code ex_wide) \<noteq> None"
    by code_simp
  then obtain st where "GroupMemory ex_code ex_wide = Some st" by auto
  with group_tables_consistent [OF this] show ?thesis by blast
qed

text \<open>
  C11. Merging a set of living groups joins exactly those: the least of them survives, the addresses
  and the labelled instructions of all of them now belong to it, everything else stays where it was.
\<close>

theorem merging_joins:
  assumes "groups_ok st" "finite groups" "\<forall>i \<in> groups. Group2Addr st i \<noteq> None" "groups \<noteq> {}"
    and "Merging groups st = Some (g, st')"
  shows "g = Min groups \<and> groups_ok st'
    \<and> (\<forall>x. st_map (Addr2Group st') x = (if st_map (Addr2Group st) x \<in> Some ` groups then Some g
          else st_map (Addr2Group st) x))
    \<and> (\<forall>ins. Ins2Group st' ins = (if Ins2Group st ins \<in> Some ` groups then Some g else Ins2Group st ins))
    \<and> (\<forall>i \<in> groups - {g}. Group2Addr st' i = None)"
  using Merging_ok(1) [OF assms(1,2,3,5)] Merging_ok(2) [OF assms(1,2,3,5,4)]
  unfolding joined_def by blast

theorem merging_joins_witness:
  "\<exists>st st'. GroupMemory ex_code ex_declares = Some st \<and> Merging {1, 2} st = Some (1, st')
    \<and> (\<forall>i \<in> {1, 2} - {1}. Group2Addr st' i = None)"
proof -
  have run: "map_option (\<lambda>st. (Group2Addr st 1 = None, Group2Addr st 2 = None, map_option fst (Merging {1, 2} st)))
      (GroupMemory ex_code ex_declares) = Some (False, False, Some 1)"
    by code_simp
  then obtain st where st: "GroupMemory ex_code ex_declares = Some st" by auto
  with run obtain st' where "\<forall>i \<in> {1, 2}. Group2Addr st i \<noteq> None" "Merging {1, 2} st = Some (1, st')"
    by auto
  with merging_joins [OF group_memory_ok(1) [OF st], of "{1, 2}" 1 st'] st show ?thesis
    by blast
qed

section \<open>Memory dependencies\<close>



section \<open>Trace files\<close>

text \<open>
  C13. \<open>GetEvent\<close> decodes every event the runtime writes, from its first byte forwards and from its
  last byte backwards, wherever it lies in a buffer and whatever the pointers were: it returns the
  size, the label and pointers through which the caller reads the fields that were written.
\<close>

theorem event_decodes_both_ways:
  "\<exists>p'. GetEvent backward (pre @ event_bytes e @ post) (cursor backward pre e) p
          = Some (event_size e, label_of e, p')
        \<and> event_shows (view_of (pre @ event_bytes e @ post) (label_of e) p') e"
  by (rule GetEvent_written)

text \<open>
  C14. Events appended to a \<open>CompressBuffer\<close> (any number, the last one the end event) and closed give
  a file on which the loop over \<open>TraceIter::NextEvent\<close> runs its body on exactly those events in order
  and then stops, across block boundaries.
\<close>

theorem trace_file_reads_back:
  assumes "lz4_ok C D" "EndEvent \<notin> set es"
  shows "\<exists>cb views. fold_opt (CompressBuffer_Append C) (map event_bytes (es @ [EndEvent])) CompressBuffer_new = Some cb
    \<and> list_all2 event_shows views (es @ [EndEvent])
    \<and> (\<forall>s. for_each_event D body (TraceIter (CompressBuffer_delete C cb)) no_ptrs s = fold_opt body views s)"
  using assms by (rule compress_read)

theorem trace_file_reads_back_witness:
  "\<exists>cb views. fold_opt (CompressBuffer_Append (\<lambda>b. b)) (map event_bytes [BasicBlockEvent 1 0, EndEvent])
      CompressBuffer_new = Some cb
    \<and> list_all2 event_shows views [BasicBlockEvent 1 0, EndEvent]
    \<and> for_each_event Some (\<lambda>v labels. Some (ev_label v # labels)) (TraceIter (CompressBuffer_delete (\<lambda>b. b) cb)) no_ptrs []
        = fold_opt (\<lambda>v labels. Some (ev_label v # labels)) views []"
proof -
  have "lz4_ok (\<lambda>b. b) Some"
    by (simp add: lz4_ok_def COMPRESS_BLOCK_SIZE_def)
  from trace_file_reads_back [OF this, of "[BasicBlockEvent 1 0]" "\<lambda>v labels. Some (ev_label v # labels)"]
  show ?thesis by (auto simp del: event_bytes.simps)
qed

text \<open>
  C15. The PIN tool's buffer never splits a record: after any number of records no longer than the
  buffer, the file holds whole records in order, in nonempty blocks no longer than the buffer, and
  the rest is in the buffer.
\<close>

theorem records_never_split:
  assumes "list_all (\<lambda>r. length r \<le> COMPRESS_BLOCK_SIZE) rs"
  shows "\<exists>eb gs g. fold_opt (EventBuffer_Append C) rs EventBuffer_Init = Some eb
    \<and> eb_stream eb = file_of C (map concat gs) \<and> eb_data eb = concat g \<and> concat gs @ g = rs
    \<and> length (concat g) \<le> COMPRESS_BLOCK_SIZE
    \<and> list_all (\<lambda>h. h \<noteq> [] \<and> length (concat h) \<le> COMPRESS_BLOCK_SIZE) gs"
proof -
  have "eb_holds C EventBuffer_Init [] (concat [])"
    by (simp add: eb_holds_def EventBuffer_Init_def file_of_simps)
  from ebuf.emit_all [OF this _ assms] show ?thesis
    by (auto simp: eb_holds_def)
qed

theorem records_never_split_witness:
  "\<exists>eb gs g. fold_opt (EventBuffer_Append (\<lambda>b. b)) [pin_bytes (CallEvent 1 7), [EndEventLabel]] EventBuffer_Init = Some eb
    \<and> eb_stream eb = file_of (\<lambda>b. b) (map concat gs) \<and> eb_data eb = concat g
    \<and> concat gs @ g = [pin_bytes (CallEvent 1 7), [EndEventLabel]]"
proof -
  have "list_all (\<lambda>r. length r \<le> COMPRESS_BLOCK_SIZE) [pin_bytes (CallEvent 1 7), [EndEventLabel]]"
    by (simp add: COMPRESS_BLOCK_SIZE_def)
  from records_never_split [OF this, of "\<lambda>b. b"] show ?thesis by blast
qed

text \<open>C16. \<open>base64_decode\<close> inverts \<open>base64_encode\<close> on every string of bytes.\<close>

theorem base64_inverts: "base64_decode (base64_encode bs) = bs"
  by (rule base64_round)

section \<open>Recorded writes\<close>



section \<open>Segment trees\<close>

text \<open>
  C18. A tree after any sequence of \<open>Set\<close> operations from \<open>NewTree\<close> answers \<open>Get\<close> below \<open>MAX_RANGE\<close> as
  the map in which each operation overwrites its range; no operation ever fails.
\<close>

theorem tree_get_after_sets:
  assumes "x < MAX_RANGE"
  shows "Option.bind (fold_opt (\<lambda>(l, r, v) t. Set_st t l r v) ops (NewTree v0)) (\<lambda>t. Get_st t x d)
     = Some (case painted ops x of None \<Rightarrow> (False, d) | Some v \<Rightarrow> (True, v))"
proof -
  obtain t where "fold_opt (\<lambda>(l, r, v) t. Set_st t l r v) ops (NewTree v0) = Some t" "full_st t"
    "st_map t = painted ops"
    by (rule sets_painted)
  with stree.point_ok [of t x d] assms show ?thesis by simp
qed

theorem tree_get_after_sets_witness:
  "Option.bind (fold_opt (\<lambda>(l, r, v) t. Set_st t l r v) [(0, 64, 1 :: int), (8, 16, 2)] (NewTree 0))
     (\<lambda>t. Get_st t 9 0) = Some (True, 2)"
  using tree_get_after_sets [of 9 "[(0, 64, 1 :: int), (8, 16, 2)]" 0 0]
  by (simp add: MAX_RANGE_def painted_def fill_def)

text \<open>
  C19. \<open>Collect\<close> on such a tree returns segments that lie side by side, cover the range asked for, all
  meet it, carry the value of every address in them, and no two neighbours of which could be joined.
\<close>

theorem tree_collect_after_sets:
  assumes "l < r"
  shows "\<exists>ss. Option.bind (fold_opt (\<lambda>(l, r, v) t. Set_st t l r v) ops (NewTree v0)) (\<lambda>t. Collect_st t l r) = Some ss
     \<and> collects (painted ops) l r ss"
proof -
  obtain t where "fold_opt (\<lambda>(l, r, v) t. Set_st t l r v) ops (NewTree v0) = Some t" "full_st t"
    "st_map t = painted ops"
    by (rule sets_painted)
  with stree.scan_ok [of t l r] assms show ?thesis by simp
qed

theorem tree_collect_after_sets_witness:
  "\<exists>ss. Option.bind (fold_opt (\<lambda>(l, r, v) t. Set_st t l r v) [(0, 64, 1 :: int), (8, 16, 2)] (NewTree 0))
      (\<lambda>t. Collect_st t 4 12) = Some ss \<and> collects (painted [(0, 64, 1), (8, 16, 2)]) 4 12 ss"
  by (rule tree_collect_after_sets) simp

section \<open>Post-dominators\<close>

text \<open>
  C20. \<open>DFSOnBBGraph\<close> marks exactly the blocks reachable from the block it starts at.
\<close>

theorem dfs_marks_reachable: "fst (DFSOnBBGraph k {} g) = {v. (k, v) \<in> (edge g)\<^sup>*}"
  by (rule DFS_reachable)

text \<open>C21. \<open>PreparePostDominator\<close> ends on every graph, although its sets can also grow (see the last section).\<close>

theorem post_dominator_terminates: "\<exists>pd. PreparePostDominator edges = Some pd"
  by (rule PreparePostDominator_total)

text \<open>
  C22. No real post-dominator is lost: a block that lies ahead of every block a path from \<open>k\<close> can reach
  without it stays in the set of \<open>k\<close>.
\<close>

theorem post_dominators_kept:
  assumes "PreparePostDominator edges = Some pd" "inevitable (bb_edges edges) k p"
  shows "p \<in> pd k"
  using post_dominator_result [OF assms(1)] assms(2) unfolding keeps_inevitable_def by blast

theorem post_dominators_kept_witness:
  "\<exists>pd. PreparePostDominator [(0, 1)] = Some pd \<and> 1 \<in> pd 0"
proof -
  obtain pd where pd: "PreparePostDominator [(0, 1)] = Some pd"
    using PreparePostDominator_total by blast
  have "inevitable (bb_edges [(0, 1)]) 0 1"
    unfolding inevitable_def avoiding_def edge_bb_edges by (auto elim: rtranclE)
  with post_dominators_kept [OF pd] pd show ?thesis by blast
qed

text \<open>
  C23. What is in a set stays ahead: along any path from \<open>k\<close> that avoids \<open>p\<close>, \<open>p\<close> is still in the set
  of every block met.
\<close>

theorem post_dominators_stay_ahead:
  assumes "PreparePostDominator edges = Some pd" "p \<in> pd k" "(k, t) \<in> (avoiding (bb_edges edges) p)\<^sup>*"
  shows "p \<in> pd t"
  using stable_path [of "bb_edges edges" pd k t p] post_dominator_result [OF assms(1)] assms(2,3) by blast

theorem post_dominators_stay_ahead_witness:
  "\<exists>pd. PreparePostDominator [(0, 1), (1, 2)] = Some pd \<and> 2 \<in> pd 0 \<and> 2 \<in> pd 1"
proof -
  have run: "map_option (\<lambda>pd. 2 \<in> pd 0) (PreparePostDominator [(0, 1), (1, 2)]) = Some True"
    by code_simp
  then obtain pd where pd: "PreparePostDominator [(0, 1), (1, 2)] = Some pd" by auto
  have "(0, 1) \<in> avoiding (bb_edges [(0, 1), (1, 2)]) 2"
    by (simp add: avoiding_def edge_bb_edges)
  then have "(0, 1) \<in> (avoiding (bb_edges [(0, 1), (1, 2)]) 2)\<^sup>*" by blast
  with post_dominators_stay_ahead [OF pd, of 2 0 1] run pd show ?thesis by auto
qed

section \<open>Unneeded operations\<close>

text \<open>
  C24. The three stacks of a thread (function used, basic block used, terminator) are pushed and
  popped together, so their heights agree after the whole backward walk.
\<close>

theorem stacks_balanced:
  assumes "ExtractUneededOperation C md pd bt = Some st"
  shows "length (next_bb_used st t) = length (fun_used st t)
    \<and> length (terminator_stack st t) = length (fun_used st t)"
  using need_balanced [OF assms] by (simp add: balanced_def)

theorem stacks_balanced_witness:
  "\<exists>st. ExtractUneededOperation ex_code (\<lambda>_. []) (\<lambda>_. {}) ex_blocks = Some st
    \<and> length (next_bb_used st 1) = length (fun_used st 1)"
proof -
  have "map_option needed (ExtractUneededOperation ex_code (\<lambda>_. []) (\<lambda>_. {}) ex_blocks) \<noteq> None"
    by code_simp
  then obtain st where "ExtractUneededOperation ex_code (\<lambda>_. []) (\<lambda>_. {}) ex_blocks = Some st" by auto
  with stacks_balanced [OF this, of 1] show ?thesis by blast
qed

section \<open>The report\<close>

text \<open>
  C25. Every report is a connected part of the graph of unneeded instructions (SSA and memory
  dependencies and common addresses): whole, not empty, and together the parts of all unneeded
  instructions.
\<close>

theorem reports_are_connected_parts:
  assumes "PrintBug fs C md addrs bug = Some rs"
  shows "\<exists>g. build_graph C md bug addrs = Some g
    \<and> (\<forall>B \<in> set (map fst rs). B \<noteq> {} \<and> (\<forall>i \<in> B. B = {j. (i, j) \<in> {(a, b). b \<in> g a}\<^sup>*}))
    \<and> \<Union> (set (map fst rs)) = {j. \<exists>i \<in> bug. (di_ID i, j) \<in> {(a, b). b \<in> g a}\<^sup>*}"
proof -
  from PrintBug_parts [OF assms] obtain g where g: "build_graph C md bug addrs = Some g"
    "reports_ok g (map fst rs) (\<Union>i \<in> di_ID ` bug. part g i)" by blast
  then show ?thesis by (intro exI [of _ g]) (auto simp: reports_ok_def part_def)
qed

theorem reports_are_connected_parts_witness:
  "\<exists>rs g. PrintBug (\<lambda>_. None) ex_code (\<lambda>_. []) Mapping.empty
      {DynamicInst 1 4 0, DynamicInst 1 5 0, DynamicInst 1 6 0} = Some rs \<and> map fst rs = [{4, 5}, {6}]
    \<and> (\<forall>B \<in> {{4, 5}, {6 :: u32}}. \<forall>i \<in> B. B = {j. (i, j) \<in> {(a, b). b \<in> g a}\<^sup>*})"
proof -
  have "map_option (map fst) (PrintBug (\<lambda>_. None) ex_code (\<lambda>_. []) Mapping.empty
      {DynamicInst 1 4 0, DynamicInst 1 5 0, DynamicInst 1 6 0}) = Some [{4, 5}, {6}]" by code_simp
  then obtain rs where rs: "PrintBug (\<lambda>_. None) ex_code (\<lambda>_. []) Mapping.empty
      {DynamicInst 1 4 0, DynamicInst 1 5 0, DynamicInst 1 6 0} = Some rs" "map fst rs = [{4, 5}, {6}]" by auto
  from reports_are_connected_parts [OF rs(1)] obtain g where
    g: "\<forall>B \<in> set (map fst rs). B \<noteq> {} \<and> (\<forall>i \<in> B. B = {j. (i, j) \<in> {(a, b). b \<in> g a}\<^sup>*})" by blast
  have "\<forall>B \<in> {{4, 5}, {6 :: u32}}. \<forall>i \<in> B. B = {j. (i, j) \<in> {(a, b). b \<in> g a}\<^sup>*}"
  proof (rule ballI)
    fix B :: "u32 set"
    assume "B \<in> {{4, 5}, {6}}"
    then have "B \<in> set (map fst rs)" unfolding rs(2) by simp
    from bspec [OF g this] show "\<forall>i \<in> B. B = {j. (i, j) \<in> {(a, b). b \<in> g a}\<^sup>*}" by (rule conjunct2)
  qed
  with rs show ?thesis by (intro exI conjI)
qed

text \<open>
  C26. The cache of source files only saves work: the reports are those printed by reading the lines
  of every file anew, each line once with its count and with a gap where lines are left out.
\<close>

theorem source_cache_transparent:
  "PrintBug fs C md addrs bug = do {
     g \<leftarrow> build_graph C md bug addrs;
     those (map (\<lambda>b. map_option (Pair b) (report_text fs C bug (sorted_list_of_set b))) (bug_reports g (di_ID ` bug)))
   }"
  by (rule PrintBug_text)

section \<open>The files the pass writes\<close>



text \<open>
  C28. What is loaded from the file of a module has the form the analyses rely on: blocks are not
  empty, shorter than \<open>2^32 - 1\<close>, and list only instructions of the table.
\<close>

theorem loaded_tables_well_formed:
  assumes "module_ok M" "fInst M = Some contents" "LoadInstInfo contents = Some C"
  shows "code_ok C"
  using assms(2,3) tables_loaded [OF assms(1)] loaded_code_ok [OF assms(1)] by simp

theorem loaded_tables_well_formed_witness:
  "\<exists>contents C. fInst ex_module = Some contents \<and> LoadInstInfo contents = Some C \<and> code_ok C"
proof -
  obtain contents where c: "fInst ex_module = Some contents" "LoadInstInfo contents = Some ex_code"
    using ex_tables by blast
  with loaded_tables_well_formed [OF ex_module_ok c] show ?thesis by blast
qed

text \<open>
  C29. The instructions \<open>MergeTrace\<close> passes over without an event are exactly those at which the pass
  inserted no recording call: from any place in a block it runs on to the next recorded instruction,
  or just behind the next call of a traced function.
\<close>

theorem merge_stops_at_recordings:
  assumes "module_ok M" "b \<in> set (traced_blocks M)" "start \<le> length (block_insts_of b)"
  shows "end_index (loaded_code M) (block_ids M b) (of_nat start) = Some (of_nat (run_to M (block_insts_of b) start))"
  using assms by (rule end_index_loaded)

theorem merge_stops_at_recordings_witness:
  "end_index (loaded_code ex_module) (block_ids ex_module (hd (traced_blocks ex_module))) 2 = Some 3"
proof -
  let ?b = "hd (traced_blocks ex_module)"
  have "run_to ex_module (block_insts_of ?b) 2 = 3" "2 \<le> length (block_insts_of ?b)" "traced_blocks ex_module \<noteq> []"
    by code_simp+
  with merge_stops_at_recordings [OF ex_module_ok, of ?b 2] show ?thesis by simp
qed

text \<open>
  C30. The other two files read back: the names of the instrumented functions as the set of them, and
  the graph as the control flow of the traced functions, from the block of every terminator to each of
  its successors, by their numbers.
\<close>

theorem names_and_graph_read_back:
  assumes "module_ok M"
  shows "LoadInstrumentedFun (fInstrumentedFun M) {} = set (instrumentedFun M)
    \<and> (fBBGraph M = Some contents \<longrightarrow> (\<exists>es. read_edges contents = Some es \<and> (\<forall>a b. (a, b) \<in> set es \<longleftrightarrow>
        (\<exists>ins \<in> set (ins_list M). branches ins \<and> bb2ID M (li_parent ins) = Some a
           \<and> (\<exists>t \<in> set (li_targets ins). bb2ID M t = Some b)))))"
proof -
  have "\<exists>es. read_edges contents = Some es \<and> (\<forall>a b. (a, b) \<in> set es \<longleftrightarrow>
      (\<exists>ins \<in> set (ins_list M). branches ins \<and> bb2ID M (li_parent ins) = Some a
         \<and> (\<exists>t \<in> set (li_targets ins). bb2ID M t = Some b)))" if c: "fBBGraph M = Some contents"
  proof -
    obtain es where es: "bb_graph_edges M = Some es" using c by (auto simp: fBBGraph_def)
    with edges_loaded [OF assms c] edges_are_flow [OF es] show ?thesis by metis
  qed
  with names_loaded [OF assms] show ?thesis by blast
qed

theorem names_and_graph_read_back_witness:
  "LoadInstrumentedFun (fInstrumentedFun ex_module) {} = {''main'', ''f''}
   \<and> (\<exists>contents es. fBBGraph ex_loop = Some contents \<and> read_edges contents = Some es \<and> (0, 1) \<in> set es)"
proof -
  have "instrumentedFun ex_module = [''main'', ''f'']" by code_simp
  with names_and_graph_read_back [OF ex_module_ok]
  have names: "LoadInstrumentedFun (fInstrumentedFun ex_module) {} = {''main'', ''f''}" by simp
  have ne: "map_option length (fBBGraph ex_loop) \<noteq> None" by code_simp
  then obtain contents where c: "fBBGraph ex_loop = Some contents" by auto
  have "list_ex (\<lambda>ins. branches ins \<and> bb2ID ex_loop (li_parent ins) = Some 0
      \<and> list_ex (\<lambda>t. bb2ID ex_loop t = Some 1) (li_targets ins)) (ins_list ex_loop)" by code_simp
  with names_and_graph_read_back [OF ex_loop_ok, of contents] c
  have "\<exists>es. read_edges contents = Some es \<and> (0, 1) \<in> set es"
    unfolding list_ex_iff by blast
  with names c show ?thesis by blast
qed

text \<open>
  C31. The initialisation of the pass, which adds the recording functions, the constructor and the name of
  the trace file to the module, does not show in what the pass writes and inserts afterwards: the three
  files and the recordings are those of the module before, and one more global is declared, the name.
\<close>

theorem initialisation_transparent:
  assumes "doInitialization po name M = Some (True, N)" "ctors_ok po" "take 6 (po_printed po) \<noteq> ''@llvm.''"
  shows "runOnModule N = map_option (map_option (\<lambda>out. out\<lparr>at_main :=
    RecordMemory (- 1) (GlobalAddress (po_printed po)) (Size (length name + 1)) # at_main out\<rparr>)) (runOnModule M)"
  using assms by (rule pass_after_initialisation)

theorem initialisation_transparent_witness:
  "\<exists>N out. doInitialization \<lparr>po_typed = \<lambda>_. True, po_printed = ''@str'', po_fresh = (100, 101, 102), po_ctors = \<lambda>gs. gs\<rparr>
      ''trace'' ex_module = Some (True, N)
    \<and> runOnModule ex_module = Some (Some out)
    \<and> runOnModule N = Some (Some (out\<lparr>at_main := RecordMemory (- 1) (GlobalAddress ''@str'') (Size 6) # at_main out\<rparr>))"
proof -
  let ?po = "\<lparr>po_typed = \<lambda>_. True, po_printed = ''@str'', po_fresh = (100, 101, 102), po_ctors = \<lambda>gs. gs\<rparr>"
  have "map_option fst (doInitialization ?po ''trace'' ex_module) = Some True" by code_simp
  then obtain N where N: "doInitialization ?po ''trace'' ex_module = Some (True, N)" by auto
  have "map_option (map_option at_main) (runOnModule ex_module) \<notin> {None, Some None}" by code_simp
  then obtain out where "runOnModule ex_module = Some (Some out)" by auto
  with initialisation_transparent [OF N] show ?thesis by (auto simp: N ctors_ok_def)
qed

section \<open>The circular buffer of the runtime\<close>

text \<open>
  C32. However the traced program and the two workers interleave, the trace file is at any time the
  compressed frames of the first blocks of the records appended so far: in order, each record whole,
  each block at most \<open>COMPRESS_BLOCK_SIZE\<close> long and padded to it.
\<close>

theorem trace_file_always_prefix:
  assumes "cb_run C rs s"
  shows "\<exists>gs d. cut_into rs gs \<and> trace_file s = file_of C (map padded (take d gs))"
  using assms by (rule file_is_prefix)

theorem trace_file_always_prefix_witness:
  "trace_file (drained (\<lambda>b. b)) \<noteq> []
   \<and> (\<exists>gs d. cut_into [[EndEventLabel]] gs \<and> trace_file (drained (\<lambda>b. b)) = file_of (\<lambda>b. b) (map padded (take d gs)))"
  using trace_file_always_prefix [OF drained_run [of "\<lambda>b. b"]]
  by (simp add: drained_def Dump_def Let_def CircularBuffer_Init_def)

text \<open>
  C33. The semaphores of a slot are binary and exclude each other: a block is never both empty and
  filled, nor is a compressed block.
\<close>

theorem slot_semaphores_exclusive:
  assumes "cb_run C rs s" "i < COMPRESS_BLOCK_CNT"
  shows "empty_buffer s i + filled_buffer s i \<le> 1 \<and> empty_compressed s i + filled_compressed s i \<le> 1"
  using slots_exclusive [OF assms] by blast

theorem slot_semaphores_exclusive_witness:
  "empty_buffer waiting_workers 7 + filled_buffer waiting_workers 7 \<le> 1
   \<and> empty_compressed waiting_workers 7 + filled_compressed waiting_workers 7 \<le> 1"
  using slot_semaphores_exclusive [OF closed_while_waiting(1) [of "\<lambda>b. b"], of 7]
  by (simp add: COMPRESS_BLOCK_CNT_def)

text \<open>
  C34. A thread that waits for an empty block is served: whatever the workers do, its wait succeeds
  after at most 1352 of their steps, and no state on the way is stuck. So there is neither a
  deadlock nor starvation while records are appended, even when both rings are full.
\<close>

theorem waiting_writer_served:
  assumes "cb_run C rs s" "app_at s = Waiting r cl" "blocked_steps C s n s'"
  shows "n \<le> 1352 \<and> (\<exists>s1. cb_step C [] s' s1)"
  using assms by (rule writer_served)

theorem waiting_writer_served_witness:
  "app_step ring_full = None \<and> (\<exists>s1. cb_step (\<lambda>b. b) [] (ring_full\<lparr>compress_at := CInner 0\<rparr>) s1)"
  using waiting_writer_served [OF ring_full_blocked(1,2,4)] ring_full_blocked(3) by blast

text \<open>
  C35. When the buffer has been closed and no filled block is left, the tools read back from the file
  every event that was recorded, in order; between them only placeholders.
\<close>

theorem drained_trace_reads_back:
  assumes "lz4_ok C D" "EndEvent \<notin> set es" "PlaceHolder \<notin> set es"
    and "cb_run C (map event_bytes (es @ [EndEvent])) s" "app_at s = Closed"
    and "\<And>i. i < COMPRESS_BLOCK_CNT \<Longrightarrow> filled_buffer s i = 0 \<and> filled_compressed s i = 0"
  shows "\<exists>es' views. filter (\<lambda>e. e \<noteq> PlaceHolder) es' = es @ [EndEvent] \<and> list_all2 event_shows views es'
    \<and> (\<forall>s0. for_each_event D body (TraceIter (trace_file s)) no_ptrs s0 = fold_opt body views s0)"
  using assms by (rule drained_reads_back)

theorem drained_trace_reads_back_witness:
  "\<exists>es' views. filter (\<lambda>e. e \<noteq> PlaceHolder) es' = [EndEvent] \<and> list_all2 event_shows views es'
    \<and> for_each_event Some (\<lambda>v n. Some (Suc n)) (TraceIter (trace_file (drained (\<lambda>b. b)))) no_ptrs 0
      = fold_opt (\<lambda>v n. Some (Suc n)) views 0"
proof -
  have "lz4_ok (\<lambda>b. b) Some" by (simp add: lz4_ok_def COMPRESS_BLOCK_SIZE_def)
  moreover have "app_at (drained (\<lambda>b. b)) = Closed"
    "filled_buffer (drained (\<lambda>b. b)) i = 0 \<and> filled_compressed (drained (\<lambda>b. b)) i = 0" for i
    by (simp_all add: drained_def Let_def CircularBuffer_Init_def)
  moreover have "cb_run (\<lambda>b. b) (map event_bytes ([] @ [EndEvent])) (drained (\<lambda>b. b))"
    using drained_run by simp
  ultimately show ?thesis
    using drained_trace_reads_back [of "\<lambda>b. b" Some "[]" "drained (\<lambda>b. b)" "\<lambda>v n. Some (Suc n)"] by simp blast
qed

text \<open>
  C36. Closing the buffer while both workers wait for a block is complete: when the close has returned,
  the file holds all blocks of the records, the last one included.
\<close>

theorem calm_close_complete:
  assumes "cb_run C rs s0" "app_at s0 = SetCompressDone" "compress_step C s0 = None" "dump_step s0 = None"
    and "cb_steps C s0 xs s" "app_at s = Closed"
  shows "\<exists>gs. cut_into rs gs \<and> trace_file s = file_of C (map padded gs)"
  using assms by (rule calm_close)

theorem calm_close_complete_witness:
  "\<exists>gs. cut_into [[EndEventLabel]] gs \<and> trace_file (drained (\<lambda>b. b)) = file_of (\<lambda>b. b) (map padded gs)"
proof -
  have "app_at (drained (\<lambda>b. b)) = Closed" by (simp add: drained_def Let_def CircularBuffer_Init_def)
  from calm_close_complete [OF closed_while_waiting drained_steps this] show ?thesis .
qed

text \<open>
  C37. Closing the buffer earlier can lose the trace: whatever records fit the first block, there is a
  run that ends with an empty file, and one that hangs for ever in joining the dumping thread.
\<close>

theorem early_close_loses_trace:
  assumes "length (concat es) < COMPRESS_BLOCK_SIZE"
  shows "(\<exists>s. cb_run C (es @ [[EndEventLabel]]) s \<and> app_at s = Closed \<and> trace_file s = [])
    \<and> (\<exists>s. cb_run C (es @ [[EndEventLabel]]) s \<and> app_at s = JoinDump \<and> trace_file s = []
         \<and> (\<forall>xs s'. \<not> cb_step C xs s s'))"
  using loses_all [OF assms] hangs [OF assms] by blast

theorem early_close_loses_trace_witness:
  "\<exists>s. cb_run (\<lambda>b. b) [[126, 126], [EndEventLabel]] s \<and> app_at s = Closed \<and> trace_file s = []"
  using early_close_loses_trace [of "[[126, 126]]" "\<lambda>b. b"] by (simp add: COMPRESS_BLOCK_SIZE_def)

section \<open>Where the program goes wrong\<close>

text \<open>
  C38. When the thread of the trace's last event has left all its functions while another thread is
  still in one, the flush at the end of \<open>MergeTrace\<close> fails: it reads the top of the former's empty
  stack for the block of the latter.
\<close>

theorem flush_reads_wrong_thread:
  assumes "read_tid st = Some t" "stack_of st t = []" "stack_of st tid \<noteq> []"
  shows "flush_all C st = None"
  using assms by (rule flush_last_thread)

theorem flush_reads_wrong_thread_witness:
  "\<exists>st. fold_opt (merge_event ex_code {}) [ex_enter 1 0, ex_enter 2 1, ex_touch 2 4, ex_call 2 5 4096] merge_init = Some st
    \<and> flush_all ex_code st = None"
proof -
  have "map_option (\<lambda>st. (read_tid st, stack_of st 2, length (stack_of st 1)))
      (fold_opt (merge_event ex_code {}) [ex_enter 1 0, ex_enter 2 1, ex_touch 2 4, ex_call 2 5 4096] merge_init)
    = Some (Some 2, [], 1)" by code_simp
  then obtain st where st: "fold_opt (merge_event ex_code {})
      [ex_enter 1 0, ex_enter 2 1, ex_touch 2 4, ex_call 2 5 4096] merge_init = Some st"
    "read_tid st = Some 2" "stack_of st 2 = []" "length (stack_of st 1) = 1" by (auto simp del: fold_opt.simps)
  from st(4) have "stack_of st 1 \<noteq> []" by auto
  with flush_reads_wrong_thread [OF st(2,3)] st(1) show ?thesis by blast
qed

text \<open>
  C39. The value of a float store is passed as a double's bits. With 1.0 converted as IEEE 754 has it,
  a store of 1.0f over the first half of a double 1.0 is recorded with length 0 although it changes
  memory, so the test for stores without effect is sound for integers and pointers only.
\<close>

theorem float_store_misjudged:
  assumes "fpext 0x3F800000 = 0x3FF0000000000000"
  shows "\<exists>m. recordStoreEvent m tid iid addr 4 (cast_value fpext FloatTy 0x3F800000) = MemoryEvent tid iid addr 0
    \<and> mem_write m addr (take 4 (w64 0x3F800000)) \<noteq> m"
proof -
  let ?m = "mem_write (\<lambda>_. 0) addr (w64 0x3FF0000000000000)"
  have v: "cast_value fpext FloatTy 0x3F800000 = 0x3FF0000000000000"
    using assms by (simp add: cast_value_def LLVMCastTo_def)
  have "mem_bytes ?m addr 8 = w64 0x3FF0000000000000"
    using mem_bytes_written [of "w64 0x3FF0000000000000" "\<lambda>_. 0" addr] by simp
  then have "recordStoreEvent ?m tid iid addr 4 0x3FF0000000000000 = MemoryEvent tid iid addr 0"
    by (simp add: recordStoreEvent_def)
  moreover have "w64 0x3FF0000000000000 = [0, 0, 0, 0, 0, 0, 0xF0, 0x3F]" "w64 0x3F800000 = [0, 0, 0x80, 0x3F, 0, 0, 0, 0]"
    by (simp_all add: w64_bytes)
  then have "mem_write ?m addr (take 4 (w64 0x3F800000)) (addr + 2) \<noteq> ?m (addr + 2)"
    by (simp add: mem_write_def)
  then have "mem_write ?m addr (take 4 (w64 0x3F800000)) \<noteq> ?m" by metis
  ultimately show ?thesis using v by metis
qed

theorem float_store_misjudged_witness:
  "\<exists>m. recordStoreEvent m 1 2 64 4 (cast_value (\<lambda>f. if f = 0x3F800000 then 0x3FF0000000000000 else 0) FloatTy 0x3F800000)
      = MemoryEvent 1 2 64 0 \<and> mem_write m 64 (take 4 (w64 0x3F800000)) \<noteq> m"
  by (rule float_store_misjudged) simp


end
